(* ===== verification/Prelude.thy ===== *)
theory Prelude imports Main "HOL-Library.Word" begin

text \<open>
  Shared vocabulary of the development: the machine integer types, the results of code that
  may abort, and the generic facts on lists, words, digits and state machines that the
  component theories use.  \<open>u8\<close> ... \<open>u64\<close> are C's fixed width integers; a C \<open>int\<close>
  is a \<open>u32\<close> read with \<open>sint\<close> wherever its sign matters.
\<close>

unbundle bit_operations_syntax

type_synonym u8 = "8 word"
type_synonym u16 = "16 word"
type_synonym u32 = "32 word"
type_synonym u64 = "64 word"

text \<open>
  How a C run can stop without returning: \<open>panic\<close> and \<open>assert\<close> of the sources, and the
  traps of the host for the operations the sources do not guard.
\<close>

datatype abort =
    Panic string
  | AssertFail
  | OutOfBounds
  | NullDeref
  | ArithTrap
  | Diverge

text \<open>A loop modelled by a \<open>partial_function\<close> as an operation: not ending is the abort \<open>Diverge\<close>.\<close>

definition of_loop :: "(abort + 'a) option \<Rightarrow> abort + 'a" where
  "of_loop r = (case r of None \<Rightarrow> Inl Diverge | Some x \<Rightarrow> x)"

lemma of_loop_simps [simp]: "of_loop (Some x) = x" "of_loop None = Inl Diverge"
  by (simp_all add: of_loop_def)

fun rbind :: "abort + 'a \<Rightarrow> ('a \<Rightarrow> abort + 'b) \<Rightarrow> abort + 'b" where
  "rbind (Inl e) f = Inl e"
| "rbind (Inr x) f = f x"

fun is_ok :: "abort + 'a \<Rightarrow> bool" where
  "is_ok (Inl e) = False"
| "is_ok (Inr x) = True"

named_theorems frame \<open>what an operation leaves unchanged\<close>
named_theorems inv_intros \<open>operations keep their component's invariant\<close>
named_theorems word_nat \<open>words read as numbers\<close>

lemma rbind_Inr_iff: "rbind m f = Inr y \<longleftrightarrow> (\<exists>x. m = Inr x \<and> f x = Inr y)"
  by (cases m) auto

lemma rbind_assoc: "rbind (rbind m f) g = rbind m (\<lambda>x. rbind (f x) g)"
  by (cases m) auto

lemma is_ok_iff: "is_ok m \<longleftrightarrow> (\<exists>x. m = Inr x)"
  by (cases m) auto

lemma is_ok_rbind: "is_ok (rbind m f) \<longleftrightarrow> (\<exists>x. m = Inr x \<and> is_ok (f x))"
  by (cases m) auto

section \<open>Invariants of deterministic machines\<close>

text \<open>
  The contract several components share: operations on a state that either abort or return a
  state, an invariant every operation keeps, and runs of operations.
\<close>

fun run_ops :: "('op \<Rightarrow> 's \<Rightarrow> abort + 's) \<Rightarrow> 'op list \<Rightarrow> 's \<Rightarrow> abort + 's" where
  "run_ops step [] s = Inr s"
| "run_ops step (x # xs) s = rbind (step x s) (run_ops step xs)"

lemma run_ops_append:
  "run_ops step (xs @ ys) s = rbind (run_ops step xs s) (run_ops step ys)"
proof (induction xs arbitrary: s)
  case (Cons x xs)
  then show ?case by (cases "step x s") auto
qed simp

locale guarded_machine =
  fixes step :: "'op \<Rightarrow> 's \<Rightarrow> abort + 's"
    and inv :: "'s \<Rightarrow> bool"
  assumes step_inv: "inv s \<Longrightarrow> step x s = Inr s' \<Longrightarrow> inv s'"
begin

lemma run_inv: "inv s \<Longrightarrow> run_ops step xs s = Inr s' \<Longrightarrow> inv s'"
proof (induction xs arbitrary: s)
  case (Cons x xs)
  then obtain t where "step x s = Inr t" and "run_ops step xs t = Inr s'"
    by (auto simp: rbind_Inr_iff)
  with Cons step_inv show ?case by blast
qed simp

end

text \<open>A machine whose aborts are of a given kind only.\<close>

locale safe_machine = guarded_machine +
  fixes allowed :: "abort \<Rightarrow> bool"
  assumes step_allowed: "inv s \<Longrightarrow> step x s = Inl e \<Longrightarrow> allowed e"
begin

lemma run_allowed: "inv s \<Longrightarrow> run_ops step xs s = Inl e \<Longrightarrow> allowed e"
proof (induction xs arbitrary: s)
  case (Cons x xs)
  show ?case
  proof (cases "step x s")
    case (Inl a)
    with Cons.prems step_allowed [of s x a] show ?thesis by simp
  next
    case (Inr t)
    with Cons step_inv [of s x t] show ?thesis by simp
  qed
qed simp

end

section \<open>Decimal and hexadecimal digits\<close>

definition digit_char :: "nat \<Rightarrow> char" where
  "digit_char d = char_of (48 + d)"

definition is_digit :: "char \<Rightarrow> bool" where
  "is_digit c \<longleftrightarrow> 48 \<le> (of_char c :: nat) \<and> (of_char c :: nat) \<le> 57"

definition digit_val :: "char \<Rightarrow> nat" where
  "digit_val c = of_char c - 48"

text \<open>The decimal numeral of a number, as \<open>printf\<close>'s \<open>%u\<close> writes it.\<close>

fun show_nat :: "nat \<Rightarrow> string" where
  "show_nat n = (if n < 10 then [digit_char n] else show_nat (n div 10) @ [digit_char (n mod 10)])"

declare show_nat.simps [simp del]

definition digits_val :: "nat \<Rightarrow> string \<Rightarrow> nat" where
  "digits_val x ds = foldl (\<lambda>n c. n * 10 + digit_val c) x ds"

lemma of_char_digit_char [simp]: "d < 10 \<Longrightarrow> (of_char (digit_char d) :: nat) = 48 + d"
  by (simp add: digit_char_def of_char_of)

lemma is_digit_digit_char [simp]: "d < 10 \<Longrightarrow> is_digit (digit_char d)"
  by (simp add: is_digit_def)

lemma digit_val_digit_char [simp]: "d < 10 \<Longrightarrow> digit_val (digit_char d) = d"
  by (simp add: digit_val_def)

lemma digits_val_Nil [simp]: "digits_val x [] = x"
  by (simp add: digits_val_def)

lemma digits_val_Cons [simp]: "digits_val x (c # cs) = digits_val (x * 10 + digit_val c) cs"
  by (simp add: digits_val_def)

lemma digits_val_append [simp]: "digits_val x (cs @ ds) = digits_val (digits_val x cs) ds"
  by (simp add: digits_val_def)

lemma show_nat_not_Nil [simp]: "show_nat n \<noteq> []"
  by (subst show_nat.simps) simp

lemma show_nat_digits: "c \<in> set (show_nat n) \<Longrightarrow> is_digit c"
proof (induction n rule: show_nat.induct)
  case (1 n)
  then show ?case
    by (subst (asm) (2) show_nat.simps) (auto split: if_splits)
qed

lemma digits_val_show_nat [simp]: "digits_val 0 (show_nat n) = n"
proof (induction n rule: show_nat.induct)
  case (1 n)
  then show ?case by (subst show_nat.simps) auto
qed

lemma length_show_nat: "n < 10 ^ k \<Longrightarrow> 0 < k \<Longrightarrow> length (show_nat n) \<le> k"
proof (induction n arbitrary: k rule: show_nat.induct)
  case (1 n)
  show ?case
  proof (cases "n < 10")
    case True
    with 1 show ?thesis by (subst show_nat.simps) simp
  next
    case False
    have "k \<noteq> 1"
      using False "1.prems"(1) by (auto simp del: One_nat_def)
    with "1.prems"(2) obtain j where k: "k = Suc j" "0 < j"
      by (cases k) auto
    with False "1.prems" have "n div 10 < 10 ^ j" by (simp add: less_mult_imp_div_less mult.commute)
    with 1 False k show ?thesis by (subst show_nat.simps) simp
  qed
qed

section \<open>Lists\<close>

lemma takeWhile_append_stop:
  "\<forall>x \<in> set xs. P x \<Longrightarrow> (ys = [] \<or> \<not> P (hd ys)) \<Longrightarrow> takeWhile P (xs @ ys) = xs"
  by (cases ys) (auto simp: takeWhile_append)

section \<open>Words\<close>

lemma unat_take_bit: "unat (take_bit n x) = unat x mod 2 ^ n"
proof -
  have "unat (take_bit n x) = take_bit n (unat x)" by (rule unsigned_take_bit_eq)
  then show ?thesis by (simp only: take_bit_eq_mod)
qed

lemma unat_and_mask: "unat (x AND mask n) = unat x mod 2 ^ n"
  by (simp only: take_bit_eq_mask [symmetric] unat_take_bit)

lemma unat_lt8: "unat (x :: u8) < 256"
  using unsigned_less [of x, where ?'a = nat] by simp
lemma unat_lt16: "unat (x :: u16) < 65536"
  using unsigned_less [of x, where ?'a = nat] by simp
lemma unat_lt32: "unat (x :: u32) < 4294967296"
  using unsigned_less [of x, where ?'a = nat] by simp
lemma unat_lt64: "unat (x :: u64) < 18446744073709551616"
  using unsigned_less [of x, where ?'a = nat] by simp

lemma word_eq_lanes:
  fixes x y :: u32
  assumes "\<And>i. i < 4 \<Longrightarrow> (ucast (drop_bit (8 * i) x) :: u8) = ucast (drop_bit (8 * i) y)"
  shows "x = y"
proof (rule bit_word_eqI)
  fix n :: nat
  assume n: "n < LENGTH(32)"
  then have i: "n div 8 < 4" by simp
  have "bit (ucast (drop_bit (8 * (n div 8)) x) :: u8) (n mod 8)
      = bit (ucast (drop_bit (8 * (n div 8)) y) :: u8) (n mod 8)"
    using assms [OF i] by simp
  then show "bit x n = bit y n"
    by (simp add: bit_simps)
qed

end
