(* ===== verification/NpcMemory.thy ===== *)
theory NpcMemory imports Prelude begin

text \<open>
  The simulator's memory, timer and register reads: \<open>core/csrc/memory.cpp\<close>,
  \<open>core/csrc/device/mmio.cpp\<close>, \<open>core/csrc/cpu/reg.cpp\<close>, \<open>core/include/memory.h\<close>,
  \<open>core/include/reg.h\<close> and \<open>core/include/utils.h\<close>.  The Verilated core and the host
  clock are outside the sources: \<open>'d env\<close> is what the code reads of them, \<open>'d\<close> the
  state of the Verilated model.
\<close>

unbundle bit_operations_syntax

section \<open>Configuration, environment and globals\<close>

text \<open>The Kconfig switches the modelled code tests.\<close>

record cfg =
  c_device :: bool
  c_difftest :: bool
  c_ftrace :: bool
  c_iringtrace :: bool
  c_watchpoint :: bool

text \<open>Their defaults in \<open>core/Kconfig\<close>.\<close>

definition kconfig_defaults :: cfg where
  "kconfig_defaults =
     \<lparr>c_device = False, c_difftest = False, c_ftrace = False, c_iringtrace = True,
      c_watchpoint = True\<rparr>"

text \<open>What the code reads from outside: the DPI functions of the core, the host clock.\<close>

record 'd env =
  dpi_read_pc :: "'d \<Rightarrow> u32"
  dpi_read_reg :: "'d \<Rightarrow> u32 \<Rightarrow> u32"
  dpi_read_state :: "'d \<Rightarrow> u32"
  steady_clock :: "nat \<Rightarrow> u64"

datatype npc_mode = NPC_RUNNING | NPC_QUIT | NPC_STOP | NPC_ABORT | NPC_END

record npc_state_t =
  state :: npc_mode
  halt_pc :: u32
  halt_ret :: u32

record cpu_state_t =
  gpr :: "u32 list"
  pc :: u32

text \<open>The globals the memory, timer, difftest and execution code share.\<close>

record 'd sim =
  dut :: 'd
  npc_state :: npc_state_t
  pmem :: "u32 \<Rightarrow> u8"
  rtc_port :: "u32 \<times> u32"
  boot_time :: u64
  clock_reads :: nat
  uart :: "u8 list"
  is_skip_ref :: bool
  is_skip_ref_r :: bool
  n_ignore_first :: bool
  cpu :: cpu_state_t

text \<open>A core whose state is its register file and program counter, for closed examples.\<close>

definition example_env :: "(u32 \<times> (u32 \<Rightarrow> u32)) env" where
  "example_env =
     \<lparr>dpi_read_pc = fst, dpi_read_reg = (\<lambda>d i. snd d i), dpi_read_state = (\<lambda>_. 1),
      steady_clock = (\<lambda>n. of_nat (1000 + n))\<rparr>"

text \<open>The static initialisers of those globals, for a core in state \<open>d\<close>.\<close>

definition sim0 :: "'d \<Rightarrow> 'd sim" where
  "sim0 d =
     \<lparr>dut = d, npc_state = \<lparr>state = NPC_STOP, halt_pc = 0, halt_ret = 1\<rparr>,
      pmem = (\<lambda>_. 0), rtc_port = (0, 0), boot_time = 0, clock_reads = 0, uart = [],
      is_skip_ref = False, is_skip_ref_r = False, n_ignore_first = False,
      cpu = \<lparr>gpr = replicate 32 0, pc = 0\<rparr>\<rparr>"

definition example_sim :: "(u32 \<times> (u32 \<Rightarrow> u32)) sim" where
  "example_sim = sim0 (0x80000000, \<lambda>i. i)"

section \<open>Physical memory\<close>

definition MEM_MAX :: u32 where "MEM_MAX = 0x8000000"
definition MEM_BASE :: u32 where "MEM_BASE = 0x80000000"

definition in_mem :: "u32 \<Rightarrow> bool" where
  "in_mem addr \<longleftrightarrow> addr - MEM_BASE < MEM_MAX"

text \<open>The index into \<open>pmem\<close> of the aligned word that holds an address.\<close>

definition paddr :: "u32 \<Rightarrow> u32" where
  "paddr addr = (addr AND NOT 3) - MEM_BASE"

text \<open>\<open>*(uint32_t *)p\<close> on the (little endian) host.\<close>

definition load32 :: "(u32 \<Rightarrow> u8) \<Rightarrow> u32 \<Rightarrow> u32" where
  "load32 m a = ucast (m a) OR push_bit 8 (ucast (m (a + 1)))
     OR push_bit 16 (ucast (m (a + 2))) OR push_bit 24 (ucast (m (a + 3)))"

definition read_inst :: "u32 \<Rightarrow> ('d, 'z) sim_scheme \<Rightarrow> abort + u32" where
  "read_inst addr s =
     (if in_mem addr then Inr (load32 (pmem s) (paddr addr))
      else Inl (Panic ''no such inst pc''))"

definition difftest_skip_ref :: "cfg \<Rightarrow> ('d, 'z) sim_scheme \<Rightarrow> ('d, 'z) sim_scheme" where
  "difftest_skip_ref c s = (if c_difftest c then s\<lparr>is_skip_ref := True\<rparr> else s)"

section \<open>Timer and serial port\<close>

definition get_time_internal :: "'d env \<Rightarrow> ('d, 'z) sim_scheme \<Rightarrow> u64 \<times> ('d, 'z) sim_scheme" where
  "get_time_internal v s =
     (steady_clock v (clock_reads s), s\<lparr>clock_reads := Suc (clock_reads s)\<rparr>)"

definition get_time :: "'d env \<Rightarrow> ('d, 'z) sim_scheme \<Rightarrow> u64 \<times> ('d, 'z) sim_scheme" where
  "get_time v s =
     (let s1 = (if boot_time s = 0
                then (case get_time_internal v s of (t, s') \<Rightarrow> s'\<lparr>boot_time := t\<rparr>)
                else s)
      in case get_time_internal v s1 of (now, s2) \<Rightarrow> (now - boot_time s2, s2))"

definition npc_rtc_update :: "'d env \<Rightarrow> ('d, 'z) sim_scheme \<Rightarrow> ('d, 'z) sim_scheme" where
  "npc_rtc_update v s =
     (case get_time v s of (us, s') \<Rightarrow> s'\<lparr>rtc_port := (ucast us, ucast (drop_bit 32 us))\<rparr>)"

definition mmio_read :: "'d env \<Rightarrow> u32 \<Rightarrow> ('d, 'z) sim_scheme \<Rightarrow> abort + u32 \<times> ('d, 'z) sim_scheme" where
  "mmio_read v addr s =
     (if addr = 0xa0000048 then Inr (fst (rtc_port s), s)
      else if addr = 0xa0000048 + 4
      then (let s' = npc_rtc_update v s in Inr (snd (rtc_port s'), s'))
      else Inl (Panic ''illegal access for pmem''))"

definition mmio_write :: "u32 \<Rightarrow> u32 \<Rightarrow> u8 \<Rightarrow> ('d, 'z) sim_scheme \<Rightarrow> abort + ('d, 'z) sim_scheme" where
  "mmio_write addr data msk s =
     (if addr = 0x10000000 then Inr (s\<lparr>uart := uart s @ [ucast data]\<rparr>)
      else Inl (Panic ''illegal access for pmem''))"

section \<open>Reads and writes of the core\<close>

definition pmem_read ::
  "cfg \<Rightarrow> 'd env \<Rightarrow> u32 \<Rightarrow> ('d, 'z) sim_scheme \<Rightarrow> abort + u32 \<times> ('d, 'z) sim_scheme" where
  "pmem_read c v raddr s =
     (if in_mem raddr then Inr (load32 (pmem s) (paddr raddr), s)
      else (let s' = difftest_skip_ref c s in
        if c_device c then mmio_read v raddr s'
        else Inl (Panic ''illegal access for pmem'')))"

text \<open>One byte lane of \<open>pmem_write\<close>: lane \<open>i\<close> of the data, when its mask bit is set.\<close>

definition store_lane :: "nat \<Rightarrow> u8 \<Rightarrow> u32 \<Rightarrow> u32 \<Rightarrow> (u32 \<Rightarrow> u8) \<Rightarrow> (u32 \<Rightarrow> u8)" where
  "store_lane i wmask wdata a m =
     (if bit wmask i then m(a + of_nat i := ucast (drop_bit (8 * i) wdata AND 0xff)) else m)"

definition pmem_write ::
  "cfg \<Rightarrow> u32 \<Rightarrow> u32 \<Rightarrow> u8 \<Rightarrow> ('d, 'z) sim_scheme \<Rightarrow> abort + ('d, 'z) sim_scheme" where
  "pmem_write c waddr wdata wmask s =
     (if in_mem waddr then
        (let a = paddr waddr;
             m0 = store_lane 0 wmask wdata a (pmem s);
             m1 = store_lane 1 wmask wdata a m0;
             m2 = store_lane 2 wmask wdata a m1;
             m3 = store_lane 3 wmask wdata a m2
         in Inr (s\<lparr>pmem := m3\<rparr>))
      else (let s' = difftest_skip_ref c s in
        if c_device c then mmio_write waddr wdata wmask s'
        else Inl (Panic ''illegal access for pmem'')))"

definition default_img :: "u32 list" where
  "default_img = [0x00000297, 0x00100073, 0xdeadbeef]"

definition bytes_of_u32 :: "u32 \<Rightarrow> u8 list" where
  "bytes_of_u32 w = [ucast w, ucast (drop_bit 8 w), ucast (drop_bit 16 w), ucast (drop_bit 24 w)]"

text \<open>Copying bytes to the start of \<open>pmem\<close>: \<open>memcpy\<close> and \<open>fread\<close> into \<open>pmem\<close>.\<close>

fun copy_to :: "u32 \<Rightarrow> u8 list \<Rightarrow> (u32 \<Rightarrow> u8) \<Rightarrow> (u32 \<Rightarrow> u8)" where
  "copy_to a [] m = m"
| "copy_to a (b # bs) m = copy_to (a + 1) bs (m(a := b))"

definition init_mem :: "('d, 'z) sim_scheme \<Rightarrow> ('d, 'z) sim_scheme" where
  "init_mem s = s\<lparr>pmem := copy_to 0 (concat (map bytes_of_u32 default_img)) (pmem s)\<rparr>"

text \<open>
  \<open>load_mem\<close> of an image file with these bytes (\<open>None\<close>: it cannot be opened).  \<open>fread\<close> of
  one item of the file's size returns 1 unless the file is empty; a file longer than \<open>pmem\<close>
  writes past the array.
\<close>

definition load_mem :: "u8 list option \<Rightarrow> ('d, 'z) sim_scheme \<Rightarrow> abort + nat \<times> ('d, 'z) sim_scheme" where
  "load_mem img s =
     (case img of
        None \<Rightarrow> Inl (Panic ''Can not open image'')
      | Some bs \<Rightarrow>
          if bs = [] then Inl AssertFail
          else if length bs > unat MEM_MAX then Inl OutOfBounds
          else Inr (length bs, s\<lparr>pmem := copy_to 0 bs (pmem s)\<rparr>))"

section \<open>Registers\<close>

definition regs :: "string list" where
  "regs = [''$0'', ''ra'', ''sp'', ''gp'', ''tp'', ''t0'', ''t1'', ''t2'',
     ''s0'', ''s1'', ''a0'', ''a1'', ''a2'', ''a3'', ''a4'', ''a5'',
     ''a6'', ''a7'', ''s2'', ''s3'', ''s4'', ''s5'', ''s6'', ''s7'',
     ''s8'', ''s9'', ''s10'', ''s11'', ''t3'', ''t4'', ''t5'', ''t6'']"

definition core_read_pc :: "'d env \<Rightarrow> ('d, 'z) sim_scheme \<Rightarrow> u32" where
  "core_read_pc v s = dpi_read_pc v (dut s)"

definition core_read_reg :: "'d env \<Rightarrow> u32 \<Rightarrow> ('d, 'z) sim_scheme \<Rightarrow> abort + u32" where
  "core_read_reg v idx s = (if idx < 32 then Inr (dpi_read_reg v (dut s) idx) else Inl AssertFail)"

definition core_read_state :: "'d env \<Rightarrow> ('d, 'z) sim_scheme \<Rightarrow> u32" where
  "core_read_state v s = dpi_read_state v (dut s)"

text \<open>The loop of \<open>reg_str2val\<close> over the register names from index \<open>i\<close> on.\<close>

fun reg_search :: "'d env \<Rightarrow> string \<Rightarrow> string list \<Rightarrow> u32 \<Rightarrow> ('d, 'z) sim_scheme \<Rightarrow> abort + u32 option" where
  "reg_search v str [] i s = Inr None"
| "reg_search v str (r # rs) i s =
     (if r = str then rbind (core_read_reg v i s) (\<lambda>w. Inr (Some w))
      else reg_search v str rs (i + 1) s)"

text \<open>\<open>reg_str2val\<close>: \<open>None\<close> stands for \<open>*success = false\<close>.\<close>

definition reg_str2val :: "'d env \<Rightarrow> string \<Rightarrow> ('d, 'z) sim_scheme \<Rightarrow> abort + u32 option" where
  "reg_str2val v str s =
     (if str = ''pc'' then Inr (Some (core_read_pc v s)) else reg_search v str regs 0 s)"

text \<open>The registers in order, as the loops of \<open>update_reg_state\<close> and \<open>reg_display\<close> read them.\<close>

definition dut_gprs :: "'d env \<Rightarrow> ('d, 'z) sim_scheme \<Rightarrow> u32 list" where
  "dut_gprs v s = map (\<lambda>i. dpi_read_reg v (dut s) (of_nat i)) [0..<32]"

definition reg_display :: "'d env \<Rightarrow> ('d, 'z) sim_scheme \<Rightarrow> (string \<times> u32) list" where
  "reg_display v s = zip regs (dut_gprs v s)"

definition update_reg_state :: "'d env \<Rightarrow> u32 \<Rightarrow> ('d, 'z) sim_scheme \<Rightarrow> ('d, 'z) sim_scheme" where
  "update_reg_state v p s = s\<lparr>cpu := \<lparr>gpr = dut_gprs v s, pc = p\<rparr>\<rparr>"

section \<open>What a read returns after a write\<close>

text \<open>Byte lane \<open>i\<close> of a word.\<close>

definition lane :: "nat \<Rightarrow> u32 \<Rightarrow> u8" where
  "lane i w = ucast (drop_bit (8 * i) w)"
lemma and_not_3: "(a :: u32) AND NOT 3 = push_bit 2 (drop_bit 2 a)"
proof -
  have m: "(3::u32) = mask 2" by (simp add: mask_eq_exp_minus_1)
  show ?thesis
    unfolding m by (rule bit_word_eqI) (auto simp: bit_simps le_diff_conv2 simp flip: add_2_eq_Suc)
qed

lemma unat_and_not_3: "unat ((a :: u32) AND NOT 3) = 4 * (unat a div 4)"
proof -
  have "unat (drop_bit 2 a) = unat a div 4"
    by (simp add: unat_drop_bit_eq drop_bit_eq_div[where 'a=nat] del: drop_bit_numeral_bit0)
  moreover have "unat a div 4 * 4 < 2 ^ 32"
    using unat_lt32 [of a] by simp
  ultimately show ?thesis
    unfolding and_not_3 by (simp add: push_bit_eq_mult unat_word_ariths mult.commute)
qed

lemma unat_minus_base: "unat ((x::u32) - 0x80000000) = (if 0x80000000 \<le> unat x then unat x - 0x80000000 else unat x + 0x80000000)"
  using unat_lt32 [of x] by (simp add: unat_sub_if_size word_size)

lemma unat_paddr_mod: "unat (paddr a) mod 4 = 0"
  unfolding paddr_def MEM_BASE_def unat_minus_base unat_and_not_3
  by presburger

lemma unat_add_lane: "unat (p::u32) mod 4 = 0 \<Longrightarrow> i < 4 \<Longrightarrow> unat (p + of_nat i) = unat p + i"
proof -
  assume "unat p mod 4 = 0" and i: "i < 4"
  then have "unat p + i < 4294967296"
    using unat_lt32 [of p] by presburger
  with i show ?thesis
    by (simp add: unat_word_ariths unat_of_nat)
qed

lemma lanes_apart: assumes a: "p \<noteq> q" "unat (p::u32) mod 4 = 0" "unat q mod 4 = 0" "i < 4" "j < 4"
  shows "p + of_nat i \<noteq> q + of_nat j"
proof
  assume "p + of_nat i = q + of_nat j"
  with a have "unat p + i = unat q + j"
    by (metis unat_add_lane)
  then have "unat p = unat q" using a(2-5) by presburger
  then show False using a(1) by (simp add: word_unat_eq_iff)
qed
lemma lane_inj: "i < 4 \<Longrightarrow> j < 4 \<Longrightarrow> (of_nat i :: u32) = of_nat j \<longleftrightarrow> i = j"
  by (auto simp: unat_of_nat dest: arg_cong [where f = unat])


lemma ucast_and_ff [simp]: "(ucast ((x :: u32) AND 0xff) :: u8) = ucast x"
proof -
  have m: "(0xff::u32) = mask 8" by (simp add: mask_eq_exp_minus_1)
  show ?thesis unfolding m by (rule bit_word_eqI) (auto simp: bit_simps)
qed

lemma store_lane_at:
  assumes "unat a mod 4 = 0" "unat b mod 4 = 0" "i < 4" "j < 4"
  shows "store_lane j k d a m (b + of_nat i) =
    (if b = a \<and> i = j \<and> bit k j then lane j d else m (b + of_nat i))"
proof (cases "b = a")
  case True
  with assms show ?thesis by (auto simp: store_lane_def lane_def lane_inj)
next
  case False
  with assms lanes_apart [of b a i j] show ?thesis by (auto simp: store_lane_def)
qed

lemma u8_no_high_bit: "8 \<le> n \<Longrightarrow> \<not> bit (b :: u8) n"
  by (auto dest: bit_imp_le_length)

lemma lane_load32:
  assumes "i < 4"
  shows "lane i (load32 m a) = m (a + of_nat i)"
proof -
  have "lane 0 (load32 m a) = m a" "lane 1 (load32 m a) = m (a + 1)"
    "lane 2 (load32 m a) = m (a + 2)" "lane 3 (load32 m a) = m (a + 3)"
    by (rule bit_word_eqI, simp add: lane_def load32_def bit_simps u8_no_high_bit)+
  moreover have "i = 0 \<or> i = 1 \<or> i = 2 \<or> i = 3" using assms by arith
  ultimately show ?thesis by auto
qed

text \<open>C31: a read of memory returns, lane by lane, what the last \<open>pmem_write\<close> to its word
  stored where the byte mask was set and the old contents everywhere else.\<close>

theorem pmem_read_after_write:
  assumes "in_mem wa" "in_mem ra" "pmem_write c wa d k s = Inr s'" "pmem_read c v ra s = Inr (w, t)"
  shows "\<exists>w'. pmem_read c v ra s' = Inr (w', s') \<and>
    (\<forall>i < 4. lane i w' = (if paddr ra = paddr wa \<and> bit k i then lane i d else lane i w))"
proof -
  have w: "w = load32 (pmem s) (paddr ra)"
    using assms by (auto simp: pmem_read_def)
  have m: "pmem s' = store_lane 3 k d (paddr wa) (store_lane 2 k d (paddr wa)
      (store_lane 1 k d (paddr wa) (store_lane 0 k d (paddr wa) (pmem s))))"
    using assms(1,3) by (auto simp: pmem_write_def Let_def)
  have "lane i (load32 (pmem s') (paddr ra)) = (if paddr ra = paddr wa \<and> bit k i then lane i d else lane i w)"
    if i: "i < 4" for i
  proof -
    from i have "i = 0 \<or> i = 1 \<or> i = 2 \<or> i = 3" by arith
    then show ?thesis
      unfolding w lane_load32 [OF i] m
      by (simp only: store_lane_at unat_paddr_mod i) auto
  qed
  then show ?thesis
    using assms(2) by (auto simp: pmem_read_def)
qed
theorem pmem_read_after_write_witness:
  "\<exists>s' w'. pmem_write kconfig_defaults 0x80000001 0x11223344 3 example_sim = Inr s'
     \<and> pmem_read kconfig_defaults example_env 0x80000002 s' = Inr (w', s')
     \<and> lane 1 w' = 0x33 \<and> lane 2 w' = 0"
proof -
  have m: "in_mem 0x80000001" "in_mem 0x80000002"
    by (simp_all add: in_mem_def MEM_BASE_def MEM_MAX_def)
  obtain s' where w: "pmem_write kconfig_defaults 0x80000001 0x11223344 3 example_sim = Inr s'"
    using m by (simp add: pmem_write_def Let_def)
  obtain x t where r: "pmem_read kconfig_defaults example_env 0x80000002 example_sim = Inr (x, t)"
    using m by (simp add: pmem_read_def)
  have p: "paddr 0x80000002 = 0" "paddr 0x80000001 = 0" by (simp_all add: paddr_def MEM_BASE_def)
  have x: "lane 2 x = 0"
    using r m by (auto simp: pmem_read_def sim0_def lane_load32 example_sim_def)
  have b: "bit (3 :: u8) 1" "\<not> bit (3 :: u8) 2" "lane 1 0x11223344 = 0x33"
    by (simp_all add: lane_def bit_numeral_rec)
  from pmem_read_after_write [OF m w r] show ?thesis
    using w p x b by fastforce
qed

lemma copy_to_other: "(\<And>i. i < length bs \<Longrightarrow> x \<noteq> a + of_nat i) \<Longrightarrow> copy_to a bs m x = m x"
proof (induction bs arbitrary: a m)
  case (Cons b bs)
  have "x \<noteq> a + 1 + of_nat i" if "i < length bs" for i
    using Cons.prems [of "Suc i"] that by (simp add: add.assoc)
  moreover have "x \<noteq> a" using Cons.prems [of 0] by simp
  ultimately show ?case using Cons.IH [of "a + 1"] by simp
qed simp

lemma copy_to_nth:
  "length bs \<le> 2 ^ 32 \<Longrightarrow> i < length bs \<Longrightarrow> copy_to a bs m (a + of_nat i) = bs ! i"
proof (induction bs arbitrary: a m i)
  case (Cons b bs)
  show ?case
  proof (cases i)
    case 0
    have "copy_to (a + 1) bs (m(a := b)) a = (m(a := b)) a"
    proof (rule copy_to_other)
      fix j
      assume "j < length bs"
      then have "Suc j < 2 ^ 32" using Cons.prems by simp
      then have "unat (of_nat (Suc j) :: u32) = Suc j" by (simp add: unat_of_nat del: of_nat_Suc)
      then show "a \<noteq> a + 1 + of_nat j" by (auto simp: add.assoc) 
    qed
    then show ?thesis using 0 by simp
  next
    case (Suc j)
    then have "copy_to (a + 1) bs (m(a := b)) (a + 1 + of_nat j) = bs ! j"
      using Cons by simp
    then show ?thesis using Suc by (simp add: add.assoc)
  qed
qed simp

lemma pmem_index: "n < 0x8000000 \<Longrightarrow> unat (MEM_BASE + of_nat n) = 0x80000000 + n"
  by (simp add: MEM_BASE_def unat_word_ariths unat_of_nat)

lemma paddr_word:
  assumes "4 * k < 0x8000000"
  shows "in_mem (MEM_BASE + of_nat (4 * k))" "paddr (MEM_BASE + of_nat (4 * k)) = of_nat (4 * k)"
proof -
  show "in_mem (MEM_BASE + of_nat (4 * k))"
    using assms by (simp add: in_mem_def MEM_MAX_def word_less_nat_alt unat_of_nat del: of_nat_mult)
  have "unat ((MEM_BASE + of_nat (4 * k)) AND NOT 3) = 0x80000000 + 4 * k"
    unfolding unat_and_not_3 pmem_index [OF assms] by simp
  then show "paddr (MEM_BASE + of_nat (4 * k)) = of_nat (4 * k)"
    unfolding paddr_def MEM_BASE_def
    by (simp add: word_unat_eq_iff unat_sub_if_size word_size unat_of_nat del: of_nat_mult) (use assms in simp)
qed

text \<open>After \<open>load_mem\<close> the core fetches the image: the instruction word at
  \<open>MEM_BASE + 4 k\<close> consists of the file's bytes \<open>4 k\<close> to \<open>4 k + 3\<close>, least significant first.\<close>

theorem load_mem_fetch:
  assumes "load_mem (Some bs) s = Inr (n, s')" "4 * k + 3 < length bs"
  shows "\<exists>w. read_inst (MEM_BASE + of_nat (4 * k)) s' = Inr w \<and> (\<forall>i < 4. lane i w = bs ! (4 * k + i))"
proof -
  have len: "length bs \<le> 0x8000000" and m: "pmem s' = copy_to 0 bs (pmem s)"
    using assms(1) by (auto simp: load_mem_def MEM_MAX_def split: if_splits)
  with assms(2) have k: "4 * k < 0x8000000" by linarith
  have "copy_to 0 bs (pmem s) (0 + of_nat (4 * k + i)) = bs ! (4 * k + i)" if "i < 4" for i
    by (rule copy_to_nth) (use that len assms(2) in auto)
  then show ?thesis
    using paddr_word [OF k] lane_load32 by (auto simp: read_inst_def m simp del: of_nat_mult)
qed

lemma word_of_halves: "(word_cat (ucast (drop_bit 32 (t :: u64)) :: u32) (ucast t :: u32) :: u64) = t"
  by (rule bit_word_eqI) (auto simp: bit_simps)

text \<open>The two halves of the timer are one 64 bit time, when the high half is read first.\<close>

lemma rtc_halves_coherent:
  assumes "mmio_read v 0xa000004c s = Inr (hi, s1)" "mmio_read v 0xa0000048 s1 = Inr (lo, s2)"
  shows "fst (get_time v s) = word_cat hi lo"
  using assms
  by (auto simp: mmio_read_def npc_rtc_update_def Let_def word_of_halves split: prod.splits)

lemma reg_search_nth:
  "distinct rs \<Longrightarrow> i < length rs \<Longrightarrow> k + length rs \<le> 32 \<Longrightarrow>
   reg_search v (rs ! i) rs (of_nat k) s = Inr (Some (dpi_read_reg v (dut s) (of_nat (k + i))))"
proof (induction rs arbitrary: i k)
  case (Cons r rs)
  have "(of_nat k :: u32) < 32"
    using Cons.prems by (simp add: word_less_nat_alt unat_of_nat)
  then show ?case
    using Cons.prems Cons.IH [of "i - 1" "Suc k"]
    by (cases i) (auto simp: core_read_reg_def add.commute)
qed simp

lemma distinct_regs: "distinct regs" and length_regs: "length regs = 32" and pc_not_reg: "''pc'' \<notin> set regs"
  by (simp_all add: regs_def)

lemma reg_lookup:
  assumes "i < 32"
  shows "reg_str2val v (regs ! i) s = Inr (Some (dpi_read_reg v (dut s) (of_nat i)))"
proof -
  have "regs ! i \<noteq> ''pc''"
    using assms pc_not_reg by (metis length_regs nth_mem)
  then show ?thesis
    using assms reg_search_nth [of regs i 0 v s] by (simp add: reg_str2val_def distinct_regs length_regs)
qed

lemma reg_search_None: "str \<notin> set rs \<Longrightarrow> reg_search v str rs i s = Inr None"
  by (induction rs arbitrary: i) auto
theorem load_mem_fetch_witness:
  "\<exists>s' w. load_mem (Some [0x97, 0x02, 0, 0]) (sim0 ()) = Inr (4, s')
     \<and> read_inst 0x80000000 s' = Inr w \<and> lane 0 w = 0x97 \<and> lane 1 w = 0x02"
proof -
  obtain s' where l: "load_mem (Some [0x97, 0x02, 0, 0]) (sim0 ()) = Inr (4, s')"
    by (simp add: load_mem_def MEM_MAX_def)
  from load_mem_fetch [OF l, of 0] show ?thesis
    using l by (force simp: MEM_BASE_def)
qed

end
