(* ===== verification/SdbExpr.thy ===== *)
theory SdbExpr imports NpcMemory begin

text \<open>
  The debugger's expression evaluator, \<open>core/csrc/monitor/sdb/expr.c\<close>: the tokenizer
  (\<open>make_token\<close> over the table \<open>rules\<close>), the pass that turns a prefix \<open>*\<close> or \<open>-\<close> into a
  dereference or a negation, and the recursive \<open>eval\<close> over a range of the token array.
  A rule's regular expression is modelled by the length of its longest match at the start of
  the string, which is what the code keeps of POSIX \<open>regexec\<close> (a match with \<open>rm_so = 0\<close>);
  \<open>atoi\<close> and \<open>strtoul\<close> saturate at the limits of a 64 bit \<open>long\<close>, as the host's do.
\<close>

unbundle bit_operations_syntax

section \<open>Tokens\<close>

text \<open>Token types: the anonymous \<open>enum\<close>, and a character's own code for the others.\<close>

datatype tok =
    TK_NOTYPE | TK_NUM | TK_HNUM | TK_EQ | TK_NEQ | TK_AND | DEREF | TK_REG | TK_INV
  | TC char

record token =
  ty :: tok
  str :: string

record 'd sdb = "'d sim" +
  tokens :: "nat \<Rightarrow> token"
  nr_token :: nat

definition NR_TOKENS :: nat where "NR_TOKENS = 65536"

section \<open>The rules\<close>

definition is_xdigit :: "char \<Rightarrow> bool" where
  "is_xdigit c \<longleftrightarrow> is_digit c
     \<or> (65 \<le> (of_char c :: nat) \<and> (of_char c :: nat) \<le> 70)
     \<or> (97 \<le> (of_char c :: nat) \<and> (of_char c :: nat) \<le> 102)"

text \<open>\<open>\S\<close>: not white space in the C locale.\<close>

definition is_graph :: "char \<Rightarrow> bool" where
  "is_graph c \<longleftrightarrow> \<not> ((of_char c :: nat) = 32 \<or> (9 \<le> (of_char c :: nat) \<and> (of_char c :: nat) \<le> 13))"

definition match_lit :: "string \<Rightarrow> string \<Rightarrow> nat option" where
  "match_lit l s = (if take (length l) s = l then Some (length l) else None)"

definition match_plus :: "(char \<Rightarrow> bool) \<Rightarrow> string \<Rightarrow> nat option" where
  "match_plus P s = (case takeWhile P s of [] \<Rightarrow> None | x # xs \<Rightarrow> Some (length (x # xs)))"

definition match_pre_plus :: "string \<Rightarrow> (char \<Rightarrow> bool) \<Rightarrow> string \<Rightarrow> nat option" where
  "match_pre_plus l P s =
     (if take (length l) s = l
      then map_option (\<lambda>n. length l + n) (match_plus P (drop (length l) s)) else None)"

definition rules :: "((string \<Rightarrow> nat option) \<times> tok) list" where
  "rules =
    [(match_plus (\<lambda>c. c = CHR '' ''), TK_NOTYPE),
     (match_lit ''+'', TC CHR ''+''),
     (match_lit ''-'', TC CHR ''-''),
     (match_lit ''*'', TC CHR ''*''),
     (match_lit ''/'', TC CHR ''/''),
     (match_pre_plus ''0x'' is_xdigit, TK_HNUM),
     (match_plus is_digit, TK_NUM),
     (match_lit ''('', TC CHR ''(''),
     (match_lit '')'', TC CHR '')''),
     (match_lit ''=='', TK_EQ),
     (match_lit ''!='', TK_NEQ),
     (match_lit ''&&'', TK_AND),
     (match_pre_plus ''$'' is_graph, TK_REG)]"

text \<open>The first rule that matches at the current position, with the length of its match.\<close>

fun try_rules :: "((string \<Rightarrow> nat option) \<times> tok) list \<Rightarrow> string \<Rightarrow> (nat \<times> tok) option" where
  "try_rules [] e = None"
| "try_rules ((m, t) # rs) e = (case m e of Some n \<Rightarrow> Some (n, t) | None \<Rightarrow> try_rules rs e)"

section \<open>Recording tokens\<close>

definition put_type :: "tok \<Rightarrow> ('d, 'z) sdb_scheme \<Rightarrow> abort + bool \<times> ('d, 'z) sdb_scheme" where
  "put_type t s =
     (if nr_token s < NR_TOKENS
      then Inr (True, s\<lparr>tokens := (tokens s)(nr_token s := (tokens s (nr_token s))\<lparr>ty := t\<rparr>),
                        nr_token := Suc (nr_token s)\<rparr>)
      else Inl OutOfBounds)"

definition put_num :: "string \<Rightarrow> ('d, 'z) sdb_scheme \<Rightarrow> abort + bool \<times> ('d, 'z) sdb_scheme" where
  "put_num ds s =
     (if nr_token s < NR_TOKENS
      then Inr (True, s\<lparr>tokens := (tokens s)(nr_token s := \<lparr>ty = TK_NUM, str = ds\<rparr>),
                        nr_token := Suc (nr_token s)\<rparr>)
      else Inl OutOfBounds)"

definition xdigit_val :: "char \<Rightarrow> nat" where
  "xdigit_val c =
     (if is_digit c then digit_val c
      else if (of_char c :: nat) \<le> 70 then of_char c - 55 else of_char c - 87)"

text \<open>\<open>(uint32_t) strtoul(s, NULL, 16)\<close> of a string \<open>0x\<close> and hexadecimal digits.\<close>

definition strtoul16 :: "string \<Rightarrow> u32" where
  "strtoul16 s = of_nat (min (2 ^ 64 - 1) (foldl (\<lambda>n c. n * 16 + xdigit_val c) 0 (drop 2 s)))"

text \<open>The \<open>switch\<close> of \<open>make_token\<close> on the matched rule; \<open>False\<close> is \<open>return false\<close>.\<close>

definition record_token ::
  "'d env \<Rightarrow> tok \<Rightarrow> string \<Rightarrow> ('d, 'z) sdb_scheme \<Rightarrow> abort + bool \<times> ('d, 'z) sdb_scheme" where
  "record_token v t sub s =
     (case t of
        TC c \<Rightarrow> put_type (TC c) s
      | TK_EQ \<Rightarrow> put_type TK_EQ s
      | TK_NEQ \<Rightarrow> put_type TK_NEQ s
      | TK_AND \<Rightarrow> put_type TK_AND s
      | TK_NUM \<Rightarrow> put_num sub s
      | TK_HNUM \<Rightarrow> put_num (show_nat (unat (strtoul16 sub))) s
      | TK_REG \<Rightarrow> rbind (reg_str2val v (drop 1 sub) s) (\<lambda>r. case r of
            Some regval \<Rightarrow> put_num (show_nat (unat regval)) s
          | None \<Rightarrow> Inr (False, s))
      | _ \<Rightarrow> Inr (True, s))"

lemma match_lit_pos: "match_lit l s = Some n \<Longrightarrow> l \<noteq> [] \<Longrightarrow> 0 < n"
  by (auto simp: match_lit_def split: if_splits)

lemma match_plus_pos: "match_plus P s = Some n \<Longrightarrow> 0 < n"
  by (auto simp: match_plus_def split: list.splits)

lemma match_pre_plus_pos: "match_pre_plus l P s = Some n \<Longrightarrow> 0 < n"
  by (auto simp: match_pre_plus_def dest: match_plus_pos split: if_splits)

lemma try_rules_pos: "try_rules rules e = Some (n, t) \<Longrightarrow> 0 < n"
  by (auto simp: rules_def dest: match_lit_pos match_plus_pos match_pre_plus_pos split: option.splits)

text \<open>The \<open>while\<close> loop of \<open>make_token\<close>, on the string from the current position on.\<close>

function make_token_loop ::
  "'d env \<Rightarrow> string \<Rightarrow> ('d, 'z) sdb_scheme \<Rightarrow> abort + bool \<times> ('d, 'z) sdb_scheme" where
  "make_token_loop v e s =
     (if e = [] then Inr (True, s)
      else case try_rules rules e of
        None \<Rightarrow> Inr (False, s)
      | Some (n, t) \<Rightarrow>
          if 31 < n then Inr (False, s)
          else rbind (record_token v t (take n e) s) (\<lambda>r.
            if fst r then make_token_loop v (drop n e) (snd r) else Inr (False, snd r)))"
  by pat_completeness auto
termination
  by (relation "measure (\<lambda>(v, e, s). length e)") (auto dest: try_rules_pos)

declare make_token_loop.simps [simp del]

definition make_token ::
  "'d env \<Rightarrow> string \<Rightarrow> ('d, 'z) sdb_scheme \<Rightarrow> abort + bool \<times> ('d, 'z) sdb_scheme" where
  "make_token v e s = make_token_loop v e (s\<lparr>nr_token := 0\<rparr>)"

section \<open>Operators\<close>

definition is_operator :: "tok \<Rightarrow> bool" where
  "is_operator t \<longleftrightarrow> t = TC CHR ''-'' \<or> t = TC CHR ''+'' \<or> t = TC CHR ''*'' \<or> t = TC CHR ''/''
     \<or> t = TK_EQ \<or> t = TK_NEQ \<or> t = TK_AND"

definition op_hirc :: "tok \<Rightarrow> nat" where
  "op_hirc t =
     (if t = TK_INV then 1
      else if t = DEREF then 1
      else if t = TC CHR ''*'' then 2
      else if t = TC CHR ''/'' then 2
      else if t = TC CHR ''+'' then 3
      else if t = TC CHR ''-'' then 3
      else if t = TK_EQ then 4
      else if t = TK_NEQ then 4
      else if t = TK_AND then 5
      else 0)"

text \<open>One step of the loop in \<open>expr\<close> that replaces prefix operators.\<close>

definition prefix_position :: "(nat \<Rightarrow> token) \<Rightarrow> nat \<Rightarrow> bool" where
  "prefix_position tk i \<longleftrightarrow> i = 0 \<or> is_operator (ty (tk (i - 1))) \<or> ty (tk (i - 1)) = TC CHR ''(''"

definition mark_at :: "nat \<Rightarrow> (nat \<Rightarrow> token) \<Rightarrow> (nat \<Rightarrow> token)" where
  "mark_at i tk =
     (if ty (tk i) = TC CHR ''*'' \<and> prefix_position tk i then tk(i := (tk i)\<lparr>ty := DEREF\<rparr>)
      else if ty (tk i) = TC CHR ''-'' \<and> prefix_position tk i then tk(i := (tk i)\<lparr>ty := TK_INV\<rparr>)
      else tk)"

definition mark_unary :: "nat \<Rightarrow> (nat \<Rightarrow> token) \<Rightarrow> (nat \<Rightarrow> token)" where
  "mark_unary n tk = fold mark_at [0..<n] tk"

section \<open>Parentheses and the main operator\<close>

text \<open>The loop of \<open>check_parentheses\<close> over a list of token types: \<open>cnt\<close>, \<open>flag\<close> and
  \<open>*success\<close>.\<close>

fun paren_loop :: "tok list \<Rightarrow> int \<times> bool \<times> bool \<Rightarrow> int \<times> bool \<times> bool" where
  "paren_loop [] st = st"
| "paren_loop (t # ts) (cnt, flag, ok) =
     (let cnt' = (if t = TC CHR ''('' then cnt + 1 else if t = TC CHR '')'' then cnt - 1 else cnt)
      in if cnt' = -1 then paren_loop ts (cnt', True, ok)
         else if cnt' < -1 then paren_loop ts (cnt', flag, False)
         else paren_loop ts (cnt', flag, ok))"

text \<open>The types of the tokens \<open>p, ..., q\<close>.\<close>

definition types :: "(nat \<Rightarrow> token) \<Rightarrow> int \<Rightarrow> int \<Rightarrow> tok list" where
  "types tk p q = map (\<lambda>i. ty (tk (nat i))) [p..q]"

text \<open>\<open>check_parentheses (p, q, success)\<close> where \<open>p < q\<close>: its result and the new \<open>*success\<close>.\<close>

definition check_parentheses :: "(nat \<Rightarrow> token) \<Rightarrow> int \<Rightarrow> int \<Rightarrow> bool \<Rightarrow> abort + bool \<times> bool" where
  "check_parentheses tk p q ok =
     (if \<not> p < q then Inl AssertFail
      else if ty (tk (nat p)) \<noteq> TC CHR ''('' \<or> ty (tk (nat q)) \<noteq> TC CHR '')'' then Inr (False, ok)
      else case paren_loop (types tk (p + 1) (q - 1)) (0, False, ok) of
        (cnt, flag, ok') \<Rightarrow> Inr (\<not> flag, ok' \<and> cnt = 0))"

text \<open>The loop of \<open>find_main_op\<close>, from the last token to the first: the token at the head of
  the list has index \<open>i\<close>.\<close>

fun op_loop :: "tok list \<Rightarrow> int \<Rightarrow> int \<times> int \<times> nat \<Rightarrow> int \<times> int \<times> nat" where
  "op_loop [] i st = st"
| "op_loop (t # ts) i (musk, main_op, level) =
     (if t = TC CHR '')'' then op_loop ts (i - 1) (musk + 1, main_op, level)
      else if t = TC CHR ''('' then op_loop ts (i - 1) (musk - 1, main_op, level)
      else if level < op_hirc t \<and> musk = 0 then op_loop ts (i - 1) (musk, i, op_hirc t)
      else op_loop ts (i - 1) (musk, main_op, level))"

definition find_main_op :: "(nat \<Rightarrow> token) \<Rightarrow> int \<Rightarrow> int \<Rightarrow> bool \<Rightarrow> int \<times> bool" where
  "find_main_op tk p q ok =
     (case op_loop (rev (types tk p q)) q (0, -1, 0) of
        (_, main_op, _) \<Rightarrow> (main_op, ok \<and> main_op \<noteq> -1))"

lemma op_loop_range:
  "op_loop ts i (k, m, l) = (k', m', l') \<Longrightarrow> m' = m \<or> (i - int (length ts) < m' \<and> m' \<le> i)"
  by (induction ts arbitrary: i k m l) (fastforce split: if_splits)+

lemma length_types [simp]: "length (types tk p q) = nat (q - p + 1)"
  by (simp add: types_def)

lemma find_main_op_range: "find_main_op tk p q ok = (m, True) \<Longrightarrow> p \<le> q \<Longrightarrow> p \<le> m \<and> m \<le> q"
  by (auto simp: find_main_op_def dest!: op_loop_range split: prod.splits)

section \<open>Evaluation\<close>

text \<open>The digits at the head of a string, and \<open>atoi\<close>: \<open>(int) strtol(s, NULL, 10)\<close>.\<close>

definition is_cspace :: "char \<Rightarrow> bool" where
  "is_cspace c \<longleftrightarrow> \<not> is_graph c"

definition strtol_clamp :: "int \<Rightarrow> int" where
  "strtol_clamp n = max (- (2 ^ 63)) (min (2 ^ 63 - 1) n)"

definition host_atoi :: "string \<Rightarrow> u32" where
  "host_atoi s =
     (case dropWhile is_cspace s of
        [] \<Rightarrow> 0
      | c # cs \<Rightarrow>
          let num = (\<lambda>ds. int (digits_val 0 (takeWhile is_digit ds)))
          in of_int (strtol_clamp (if c = CHR ''-'' then - num cs
                                   else if c = CHR ''+'' then num cs else num (c # cs))))"

text \<open>The \<open>switch\<close> on the main operator, at index \<open>op\<close>; \<open>(int)val1 / (int)val2\<close> traps on the
  host when the quotient does not fit.\<close>

definition apply_op ::
  "cfg \<Rightarrow> 'd env \<Rightarrow> tok \<Rightarrow> u32 \<Rightarrow> u32 \<Rightarrow> bool \<Rightarrow> ('d, 'z) sim_scheme
    \<Rightarrow> abort + u32 \<times> bool \<times> ('d, 'z) sim_scheme" where
  "apply_op c v t val1 val2 ok s =
     (if t = TC CHR ''+'' then Inr (val1 + val2, ok, s)
      else if t = TC CHR ''-'' then Inr (val1 - val2, ok, s)
      else if t = TC CHR ''*'' then Inr (val1 * val2, ok, s)
      else if t = TC CHR ''/'' then
        (if val2 = 0 then Inr (1, False, s)
         else if val1 = 0x80000000 \<and> val2 = - 1 then Inl ArithTrap
         else Inr (of_int (sgn (sint val1) * sgn (sint val2) * (\<bar>sint val1\<bar> div \<bar>sint val2\<bar>)), ok, s))
      else if t = TK_EQ then Inr (of_bool (val1 = val2), ok, s)
      else if t = TK_NEQ then Inr (of_bool (val1 \<noteq> val2), ok, s)
      else if t = TK_AND then Inr (of_bool (val1 \<noteq> 0 \<and> val2 \<noteq> 0), ok, s)
      else if t = TK_INV then Inr (- val2, ok, s)
      else if t = DEREF then rbind (pmem_read c v val2 s) (\<lambda>r. Inr (fst r, ok, snd r))
      else Inl AssertFail)"

function eval ::
  "cfg \<Rightarrow> 'd env \<Rightarrow> (nat \<Rightarrow> token) \<Rightarrow> int \<Rightarrow> int \<Rightarrow> bool \<Rightarrow> ('d, 'z) sim_scheme
    \<Rightarrow> abort + u32 \<times> bool \<times> ('d, 'z) sim_scheme" where
  "eval c v tk p q ok s =
     (if q < p then Inl (Panic ''Invalid format'')
      else if p = q then Inr (host_atoi (str (tk (nat p))), ok \<and> ty (tk (nat p)) = TK_NUM, s)
      else case check_parentheses tk p q ok of
        Inl e \<Rightarrow> Inl e
      | Inr (True, ok1) \<Rightarrow> eval c v tk (p + 1) (q - 1) ok1 s
      | Inr (False, ok1) \<Rightarrow>
          (case find_main_op tk p q ok1 of
             (op, False) \<Rightarrow> Inr (1, False, s)
           | (op, True) \<Rightarrow>
               rbind (if op \<noteq> p then eval c v tk p (op - 1) True s else Inr (0, True, s)) (\<lambda>r1.
               rbind (eval c v tk (op + 1) q (fst (snd r1)) (snd (snd r1))) (\<lambda>r2.
                 apply_op c v (ty (tk (nat op))) (fst r1) (fst r2) (fst (snd r2)) (snd (snd r2))))))"
  by pat_completeness auto
termination
  by (relation "measure (\<lambda>(c, v, tk, p, q, ok, s). nat (q - p + 1))")
     (simp_all, (metis find_main_op_range not_less)+)

declare eval.simps [simp del]

definition expr ::
  "cfg \<Rightarrow> 'd env \<Rightarrow> string \<Rightarrow> bool \<Rightarrow> ('d, 'z) sdb_scheme \<Rightarrow> abort + u32 \<times> bool \<times> ('d, 'z) sdb_scheme" where
  "expr c v e ok s =
     rbind (make_token v e s) (\<lambda>r.
       if \<not> fst r then Inr (0, False, snd r)
       else let s1 = (snd r)\<lparr>tokens := mark_unary (nr_token (snd r)) (tokens (snd r))\<rparr>
         in rbind (eval c v (tokens s1) 0 (int (nr_token s1) - 1) ok s1) (\<lambda>r2.
              Inr (if fst (snd r2) then fst r2 else 0, fst (snd r2), snd (snd r2))))"

end
