(* ===== verification/SdbParse.thy ===== *)
theory SdbParse imports SdbExpr "HOL-Library.Signed_Division" begin

text \<open>
  What the expression evaluator promises: a grammar of expressions with the precedence and
  associativity that \<open>op_hirc\<close> gives the operators, its semantics, and the proof that
  \<open>make_token\<close>, the prefix pass and \<open>eval\<close> compute that semantics on every expression of
  the grammar.
\<close>

section \<open>The grammar\<close>

datatype bop = Add | Sub | Mul | Div | Eq | Neq | And

datatype ast =
    Dec string
  | Hex string
  | Paren ast
  | Neg ast
  | Deref ast
  | Bin bop ast ast

fun bop_tok :: "bop \<Rightarrow> tok" where
  "bop_tok Add = TC CHR ''+''"
| "bop_tok Sub = TC CHR ''-''"
| "bop_tok Mul = TC CHR ''*''"
| "bop_tok Div = TC CHR ''/''"
| "bop_tok Eq = TK_EQ"
| "bop_tok Neq = TK_NEQ"
| "bop_tok And = TK_AND"

fun level :: "ast \<Rightarrow> nat" where
  "level (Dec _) = 0"
| "level (Hex _) = 0"
| "level (Paren _) = 0"
| "level (Neg _) = 1"
| "level (Deref _) = 1"
| "level (Bin b _ _) = op_hirc (bop_tok b)"

text \<open>Binary operators associate to the left; a prefix operator takes a number or a
  parenthesised expression.\<close>

fun wf_ast :: "ast \<Rightarrow> bool" where
  "wf_ast (Dec ds) \<longleftrightarrow> ds \<noteq> [] \<and> length ds \<le> 31 \<and> list_all is_digit ds"
| "wf_ast (Hex ds) \<longleftrightarrow> ds \<noteq> [] \<and> length ds \<le> 29 \<and> list_all is_xdigit ds"
| "wf_ast (Paren e) \<longleftrightarrow> wf_ast e"
| "wf_ast (Neg e) \<longleftrightarrow> wf_ast e \<and> level e = 0"
| "wf_ast (Deref e) \<longleftrightarrow> wf_ast e \<and> level e = 0"
| "wf_ast (Bin b l r) \<longleftrightarrow>
     wf_ast l \<and> wf_ast r \<and> level l \<le> op_hirc (bop_tok b) \<and> level r < op_hirc (bop_tok b)"

text \<open>The tokens of an expression, with the text of the numbers.\<close>

fun toks :: "ast \<Rightarrow> (tok \<times> string) list" where
  "toks (Dec ds) = [(TK_NUM, ds)]"
| "toks (Hex ds) = [(TK_NUM, show_nat (unat (strtoul16 (''0x'' @ ds))))]"
| "toks (Paren e) = (TC CHR ''('', []) # toks e @ [(TC CHR '')'', [])]"
| "toks (Neg e) = (TK_INV, []) # toks e"
| "toks (Deref e) = (DEREF, []) # toks e"
| "toks (Bin b l r) = toks l @ (bop_tok b, []) # toks r"

abbreviation kinds :: "ast \<Rightarrow> tok list" where
  "kinds e \<equiv> map fst (toks e)"

section \<open>The tree semantics of \<open>eval\<close>\<close>

text \<open>The value of an expression with the \<open>success\<close> flag threaded through its operands from
  left to right: a compound operand entered with the flag down returns 1.\<close>

fun sem :: "cfg \<Rightarrow> 'd env \<Rightarrow> ast \<Rightarrow> bool \<Rightarrow> ('d, 'z) sim_scheme
    \<Rightarrow> abort + u32 \<times> bool \<times> ('d, 'z) sim_scheme" where
  "sem c v (Dec ds) ok s = Inr (host_atoi ds, ok, s)"
| "sem c v (Hex ds) ok s = Inr (strtoul16 (''0x'' @ ds), ok, s)"
| "sem c v (Paren e) ok s = sem c v e ok s"
| "sem c v (Neg e) ok s =
     (if ok then rbind (sem c v e True s) (\<lambda>r. Inr (- fst r, snd r)) else Inr (1, False, s))"
| "sem c v (Deref e) ok s =
     (if ok then rbind (sem c v e True s) (\<lambda>r.
        rbind (pmem_read c v (fst r) (snd (snd r))) (\<lambda>m. Inr (fst m, fst (snd r), snd m)))
      else Inr (1, False, s))"
| "sem c v (Bin b l r) ok s =
     (if ok then rbind (sem c v l True s) (\<lambda>r1.
        rbind (sem c v r (fst (snd r1)) (snd (snd r1))) (\<lambda>r2.
          apply_op c v (bop_tok b) (fst r1) (fst r2) (fst (snd r2)) (snd (snd r2))))
      else Inr (1, False, s))"

section \<open>The two scanning loops on the tokens of an expression\<close>

lemma toks_not_Nil [simp]: "toks e \<noteq> []"
  by (cases e) auto

lemma length_toks_pos [simp]: "0 < length (toks e)"
  by simp

lemma bop_tok_simps [simp]:
  "bop_tok b \<noteq> TC CHR ''(''" "bop_tok b \<noteq> TC CHR '')''" "TC CHR ''('' \<noteq> bop_tok b"
  "0 < op_hirc (bop_tok b)"
  by (cases b; simp add: op_hirc_def)+

lemma op_hirc_simps [simp]:
  "op_hirc TK_NUM = 0" "op_hirc TK_INV = Suc 0" "op_hirc DEREF = Suc 0"
  by (simp_all add: op_hirc_def)

lemma op_loop_append: "op_loop (xs @ ys) i st = op_loop ys (i - int (length xs)) (op_loop xs i st)"
proof (induction xs arbitrary: i st)
  case (Cons x xs)
  then show ?case by (cases st) (auto simp: algebra_simps)
qed simp

lemma paren_loop_append: "paren_loop (xs @ ys) st = paren_loop ys (paren_loop xs st)"
proof (induction xs arbitrary: st)
  case (Cons x xs)
  then show ?case by (cases st) (auto simp: Let_def)
qed simp

fun main_pos :: "ast \<Rightarrow> nat" where
  "main_pos (Bin b l r) = length (toks l)"
| "main_pos e = 0"

lemma op_loop_toks:
  assumes "wf_ast e" "0 \<le> k"
  shows "op_loop (rev (kinds e)) i (k, m, lv) =
    (k, if k = 0 \<and> lv < level e then i - int (length (toks e)) + 1 + int (main_pos e) else m,
     if k = 0 then max lv (level e) else lv)"
  using assms
proof (induction e arbitrary: i k m lv)
  case (Paren e)
  then show ?case by (simp add: op_loop_append)
next
  case (Bin b l r)
  then show ?case by (auto simp: op_loop_append max_def)
qed (auto simp: op_loop_append max_def)

lemma paren_loop_inside: "wf_ast e \<Longrightarrow> 0 \<le> c \<Longrightarrow> paren_loop (kinds e) (c, f, ok) = (c, f, ok)"
proof (induction e arbitrary: c f)
qed (auto simp: paren_loop_append Let_def)

lemma paren_loop_outside: "wf_ast e \<Longrightarrow> paren_loop (kinds e) (-1, f, ok) = (-1, True, ok)"
proof (induction e arbitrary: f)
  case (Paren e)
  then show ?case using paren_loop_inside [of e 0] by (simp add: paren_loop_append Let_def)
qed (auto simp: paren_loop_append Let_def)

lemma paren_loop_mono: "paren_loop ts (c, f, ok) = (c', f', ok') \<Longrightarrow> (f \<longrightarrow> f') \<and> (ok' \<longrightarrow> ok)"
  by (induction ts arbitrary: c f ok) (auto simp: Let_def split: if_splits)

lemma paren_loop_bin:
  assumes "wf_ast (Bin b l r)" "kinds (Bin b l r) = TC CHR ''('' # mid @ [TC CHR '')'']"
  shows "paren_loop mid (0, False, ok) = (0, True, ok)"
proof -
  obtain xs where l: "kinds l = TC CHR ''('' # xs"
    using assms(2) by (cases "kinds l") auto
  obtain ys where r: "kinds r = ys @ [TC CHR '')'']"
    using assms(2) by (cases "kinds r" rule: rev_cases) auto
  have mid: "mid = xs @ bop_tok b # ys"
    using assms(2) l r by simp
  have "paren_loop xs (0, False, ok) = (-1, True, ok)"
    using paren_loop_outside [of l False ok] assms(1) l by (simp add: Let_def)
  then have left: "paren_loop (xs @ [bop_tok b]) (0, False, ok) = (-1, True, ok)"
    by (simp add: paren_loop_append Let_def)
  obtain c2 f2 ok2 where y: "paren_loop ys (-1, True, ok) = (c2, f2, ok2)"
    by (cases "paren_loop ys (-1, True, ok)")
  have "paren_loop [TC CHR '')''] (c2, f2, ok2) = (-1, True, ok)"
    using paren_loop_outside [of r True ok] assms(1) r y by (simp add: paren_loop_append)
  with paren_loop_mono [OF y] have "c2 = 0" "f2" "ok2 = ok"
    by (auto simp: Let_def split: if_splits)
  with left y show ?thesis
    using paren_loop_append [of "xs @ [bop_tok b]" ys] by (simp add: mid)
qed

section \<open>A token array that holds the tokens of an expression\<close>

definition holds_toks :: "(nat \<Rightarrow> token) \<Rightarrow> nat \<Rightarrow> (tok \<times> string) list \<Rightarrow> bool" where
  "holds_toks tk p ts \<longleftrightarrow> (\<forall>i < length ts. ty (tk (p + i)) = fst (ts ! i)
     \<and> (fst (ts ! i) = TK_NUM \<longrightarrow> str (tk (p + i)) = snd (ts ! i)))"

lemma holds_toks_Nil [simp]: "holds_toks tk p []"
  by (simp add: holds_toks_def)

lemma holds_toks_Cons [simp]:
  "holds_toks tk p (t # ts) \<longleftrightarrow> ty (tk p) = fst t \<and> (fst t = TK_NUM \<longrightarrow> str (tk p) = snd t)
     \<and> holds_toks tk (Suc p) ts"
  by (auto simp: holds_toks_def nth_Cons less_Suc_eq_0_disj split: nat.splits)

lemma holds_toks_append [simp]:
  "holds_toks tk p (xs @ ys) \<longleftrightarrow> holds_toks tk p xs \<and> holds_toks tk (p + length xs) ys"
  by (induction xs arbitrary: p) auto

lemma types_eq:
  "holds_toks tk p ts \<Longrightarrow> types tk (int p) (int p + int (length ts) - 1) = map fst ts"
  by (rule nth_equalityI) (auto simp: types_def holds_toks_def nat_add_distrib)


text \<open>The same, with the range given as \<open>eval\<close> gives it.\<close>

lemma types_range:
  "holds_toks tk p ts \<Longrightarrow> q = int p + int (length ts) - 1 \<Longrightarrow> types tk (int p) q = map fst ts"
  by (simp add: types_eq)

section \<open>Correctness of \<open>eval\<close>\<close>

lemma host_atoi_digits:
  assumes "list_all is_digit ds" "ds \<noteq> []"
  shows "host_atoi ds = of_int (strtol_clamp (int (digits_val 0 ds)))"
proof -
  obtain c cs where ds: "ds = c # cs" using assms(2) by (cases ds) auto
  have c: "is_digit c" and tw: "takeWhile is_digit cs = cs"
    using assms(1) by (auto simp: ds takeWhile_eq_all_conv list_all_iff)
  from c have "\<not> is_cspace c" "c \<noteq> CHR ''-''" "c \<noteq> CHR ''+''"
    by (auto simp: is_digit_def is_cspace_def is_graph_def)
  with c show ?thesis by (simp add: host_atoi_def ds tw)
qed

lemma host_atoi_show: "host_atoi (show_nat (unat (w :: u32))) = w"
proof -
  have d: "list_all is_digit (show_nat (unat w))"
    by (auto simp: list_all_iff dest: show_nat_digits)
  have "strtol_clamp (int n) = int n" if "n < 4294967296" for n
    using that by (simp add: strtol_clamp_def)
  from this [OF unat_lt32 [of w]] have "strtol_clamp (uint w) = uint w" by simp
  with d show ?thesis by (simp add: host_atoi_digits)
qed

lemma length_one: "length ts = Suc 0 \<Longrightarrow> \<exists>t. ts = [t]"
  by (cases ts) auto

lemma find_main_op_toks:
  assumes "holds_toks tk p (toks e)" "wf_ast e" "0 < level e"
  shows "find_main_op tk (int p) (int p + int (length (toks e)) - 1) ok = (int p + int (main_pos e), ok)"
  using assms op_loop_toks [OF assms(2), of 0 "int p + int (length (toks e)) - 1" "-1" 0]
  by (simp add: find_main_op_def types_eq)

lemma check_parentheses_no_open:
  "p < q \<Longrightarrow> ty (tk (nat p)) \<noteq> TC CHR ''('' \<Longrightarrow> check_parentheses tk p q ok = Inr (False, ok)"
  by (simp add: check_parentheses_def)

lemma check_parentheses_bin:
  assumes "holds_toks tk p (toks (Bin b l r))" "wf_ast (Bin b l r)"
  shows "check_parentheses tk (int p) (int p + int (length (toks (Bin b l r))) - 1) ok = Inr (False, ok)"
proof -
  let ?ts = "kinds (Bin b l r)"
  let ?q = "int p + int (length (toks (Bin b l r))) - 1"
  have len: "3 \<le> length ?ts"
    using toks_not_Nil [of l] toks_not_Nil [of r]
    by (cases "toks l"; cases "toks r") (simp_all del: toks_not_Nil)
  then obtain x mid y where ts: "?ts = x # mid @ [y]"
    by (cases ?ts; cases "tl ?ts" rule: rev_cases) auto
  have "types tk (int p) ?q = x # mid @ [y]"
    using types_eq [OF assms(1)] ts by simp
  moreover have "int p \<le> ?q" "int p + 1 \<le> ?q" using len by auto
  then have "[int p..?q] = int p # [int p + 1..?q - 1] @ [?q]"
    by (metis upto_rec1 upto_rec2)
  ultimately have x: "ty (tk (nat (int p))) = x" and mid: "types tk (int p + 1) (?q - 1) = mid"
    and y: "ty (tk (nat ?q)) = y"
    by (auto simp: types_def)
  show ?thesis
  proof (cases "x = TC CHR ''('' \<and> y = TC CHR '')''")
    case True
    then have "paren_loop mid (0, False, ok) = (0, True, ok)"
      using paren_loop_bin [OF assms(2)] ts by auto
    with x y mid len True show ?thesis by (simp add: check_parentheses_def)
  next
    case False
    with x y len show ?thesis by (auto simp: check_parentheses_def)
  qed
qed



lemma eval_sem:
  fixes s :: "('a, 'b) sim_scheme"
  assumes "wf_ast e" "holds_toks tk p (toks e)"
  shows "eval c v tk (int p) (int p + int (length (toks e)) - 1) ok s = sem c v e ok s"
  using assms
proof (induction e arbitrary: p ok s)
  case (Dec ds)
  then show ?case by (subst eval.simps) simp
next
  case (Hex ds)
  then show ?case by (subst eval.simps) (simp add: host_atoi_show)
next
  case (Paren e)
  let ?q = "int p + int (length (toks (Paren e))) - 1"
  have inner: "holds_toks tk (Suc p) (toks e)" using Paren.prems by simp
  have "types tk (int p + 1) (?q - 1) = kinds e"
    using types_range [OF inner, of "?q - 1"] by (simp add: add.commute)
  then have "check_parentheses tk (int p) ?q ok = Inr (True, ok)"
    using Paren.prems paren_loop_inside [of e 0 False ok]
    by (simp add: check_parentheses_def nat_add_distrib)
  then show ?case
    using Paren.IH [of "Suc p"] Paren.prems by (subst eval.simps) (simp add: add.commute)
next
  case (Neg e)
  then have "check_parentheses tk (int p) (int p + int (length (toks e))) ok = Inr (False, ok)"
    by (simp add: check_parentheses_no_open)
  moreover have "eval c v tk (1 + int p) (int p + int (length (toks e))) True s = sem c v e True s"
    using Neg.IH [of "Suc p"] Neg.prems by (simp add: add.commute)
  ultimately show ?case
    using Neg.prems find_main_op_toks [of tk p "Neg e" ok]
    by (subst eval.simps) (auto simp: apply_op_def add.commute)
next
  case (Deref e)
  then have "check_parentheses tk (int p) (int p + int (length (toks e))) ok = Inr (False, ok)"
    by (simp add: check_parentheses_no_open)
  moreover have "eval c v tk (1 + int p) (int p + int (length (toks e))) True s = sem c v e True s"
    using Deref.IH [of "Suc p"] Deref.prems by (simp add: add.commute)
  ultimately show ?case
    using Deref.prems find_main_op_toks [of tk p "Deref e" ok]
    by (subst eval.simps) (auto simp: apply_op_def add.commute)
next
  case (Bin b l r)
  let ?m = "int p + int (length (toks l))" and ?q = "int p + int (length (toks (Bin b l r))) - 1"
  have wf: "wf_ast l" "wf_ast r"
    and h: "holds_toks tk p (toks l)" "holds_toks tk (Suc (p + length (toks l))) (toks r)"
    and t: "ty (tk (nat ?m)) = bop_tok b"
    using Bin.prems by (auto simp: nat_add_distrib)
  have l: "eval c v tk (int p) (?m - 1) True s = sem c v l True s"
    using Bin.IH(1) [OF wf(1) h(1)] .
  have r: "eval c v tk (?m + 1) ?q ok' s' = sem c v r ok' s'" for ok' and s' :: "('a, 'b) sim_scheme"
    using Bin.IH(2) [OF wf(2) h(2), of ok' s'] by (simp add: algebra_simps)
  have "0 < length (toks l)" by (rule length_toks_pos)
  then have ne: "\<not> ?q < int p" "int p \<noteq> ?q" "?m \<noteq> int p"
    unfolding toks.simps length_append length_Cons by linarith+
  show ?case
    using check_parentheses_bin [OF Bin.prems(2,1), of ok] find_main_op_toks [of tk p "Bin b l r" ok] Bin.prems ne
    by (subst eval.simps) (simp add: l r t del: toks.simps)
qed

section \<open>The tokenizer on a rendered expression\<close>

text \<open>The words of an expression as a user types them, and the text with \<open>n\<close> spaces before
  every word.\<close>

fun words :: "ast \<Rightarrow> string list" where
  "words (Dec ds) = [ds]"
| "words (Hex ds) = [''0x'' @ ds]"
| "words (Paren e) = [''(''] @ words e @ ['')'']"
| "words (Neg e) = [''-''] @ words e"
| "words (Deref e) = [''*''] @ words e"
| "words (Bin b l r) = words l @ [case b of Add \<Rightarrow> ''+'' | Sub \<Rightarrow> ''-'' | Mul \<Rightarrow> ''*'' | Div \<Rightarrow> ''/''
     | Eq \<Rightarrow> ''=='' | Neq \<Rightarrow> ''!='' | And \<Rightarrow> ''&&''] @ words r"

definition spaced :: "nat \<Rightarrow> string list \<Rightarrow> string" where
  "spaced n ws = concat (map (\<lambda>w. replicate n CHR '' '' @ w) ws)"

definition render :: "nat \<Rightarrow> ast \<Rightarrow> string" where
  "render n e = spaced n (words e)"

text \<open>The tokens \<open>make_token\<close> records: a prefix operator is still the binary one.\<close>

fun raw :: "ast \<Rightarrow> (tok \<times> string) list" where
  "raw (Dec ds) = [(TK_NUM, ds)]"
| "raw (Hex ds) = [(TK_NUM, show_nat (unat (strtoul16 (''0x'' @ ds))))]"
| "raw (Paren e) = (TC CHR ''('', []) # raw e @ [(TC CHR '')'', [])]"
| "raw (Neg e) = (TC CHR ''-'', []) # raw e"
| "raw (Deref e) = (TC CHR ''*'', []) # raw e"
| "raw (Bin b l r) = raw l @ (bop_tok b, []) # raw r"

definition push :: "tok \<times> string \<Rightarrow> ('d, 'z) sdb_scheme \<Rightarrow> ('d, 'z) sdb_scheme" where
  "push t s = s\<lparr>tokens := (tokens s)(nr_token s :=
       if fst t = TK_NUM then \<lparr>ty = TK_NUM, str = snd t\<rparr> else (tokens s (nr_token s))\<lparr>ty := fst t\<rparr>),
     nr_token := Suc (nr_token s)\<rparr>"

lemma length_raw [simp]: "length (raw e) = length (toks e)"
  by (induction e) auto

lemma spaced_simps [simp]:
  "spaced n [] = []" "spaced n (w # ws) = replicate n CHR '' '' @ w @ spaced n ws"
  "spaced n (xs @ ys) = spaced n xs @ spaced n ys"
  by (simp_all add: spaced_def)

text \<open>A text that ends a number.\<close>

definition delim :: "string \<Rightarrow> bool" where
  "delim cs \<longleftrightarrow> (case cs of [] \<Rightarrow> True | c # _ \<Rightarrow> \<not> is_xdigit c \<and> c \<noteq> CHR ''x'')"

lemma is_digit_xdigit: "is_digit c \<Longrightarrow> is_xdigit c"
  by (simp add: is_xdigit_def)

lemma takeWhile_delim:
  assumes "list_all P ds" "delim rest" "\<And>c. P c \<Longrightarrow> is_xdigit c"
  shows "takeWhile P (ds @ rest) = ds"
  using assms by (cases rest) (auto simp: delim_def list_all_iff takeWhile_append2 intro!: takeWhile_append2)

lemma match_plus_delim:
  assumes "list_all P ds" "ds \<noteq> []" "delim rest" "\<And>c. P c \<Longrightarrow> is_xdigit c"
  shows "match_plus P (ds @ rest) = Some (length ds)"
  using takeWhile_delim [OF assms(1,3,4)] assms(2) by (cases ds) (auto simp: match_plus_def)

lemma try_rules_Dec:
  assumes "list_all is_digit ds" "ds \<noteq> []" "delim rest"
  shows "try_rules rules (ds @ rest) = Some (length ds, TK_NUM)"
proof -
  obtain c cs where ds: "ds = c # cs" using assms(2) by (cases ds) auto
  have m: "match_plus is_digit (ds @ rest) = Some (length ds)"
    using match_plus_delim [OF assms is_digit_xdigit] .
  have "is_digit c" using assms(1) by (simp add: ds)
  then have c: "c \<noteq> CHR '' ''" "c \<noteq> CHR ''+''" "c \<noteq> CHR ''-''" "c \<noteq> CHR ''*''" "c \<noteq> CHR ''/''"
    by (auto simp: is_digit_def)
  have "take 2 (ds @ rest) \<noteq> ''0x''"
    using assms by (cases cs; cases rest) (auto simp: ds delim_def is_digit_def)
  then have "match_pre_plus ''0x'' is_xdigit (ds @ rest) = None"
    by (simp add: match_pre_plus_def numeral_2_eq_2)
  with c m show ?thesis
    by (simp add: rules_def match_plus_def [of "\<lambda>c. c = CHR '' ''"] match_lit_def ds)
qed

lemma try_rules_Hex:
  assumes "list_all is_xdigit ds" "ds \<noteq> []" "delim rest"
  shows "try_rules rules (''0x'' @ ds @ rest) = Some (length ds + 2, TK_HNUM)"
  using match_plus_delim [OF assms]
  by (simp add: rules_def match_plus_def [of "\<lambda>c. c = CHR '' ''"] match_lit_def match_pre_plus_def)

lemma make_token_space:
  assumes "n \<le> 31" "cs = [] \<or> hd cs \<noteq> CHR '' ''"
  shows "make_token_loop v (replicate n CHR '' '' @ cs) s = make_token_loop v cs s"
proof (cases n)
  case (Suc m)
  have "takeWhile (\<lambda>c. c = CHR '' '') (replicate k CHR '' '' @ cs) = replicate k CHR '' ''" for k
    using assms(2) by (induction k; cases cs) auto
  then have "try_rules rules (replicate n CHR '' '' @ cs) = Some (n, TK_NOTYPE)"
    by (simp add: rules_def match_plus_def Suc)
  then show ?thesis
    using assms(1) Suc by (subst make_token_loop.simps) (simp add: record_token_def)
qed simp


lemma make_token_step:
  assumes "try_rules rules cs = Some (k, t)" "k \<le> 31" "cs \<noteq> []"
    "record_token v t (take k cs) s = Inr (True, s')"
  shows "make_token_loop v cs s = make_token_loop v (drop k cs) s'"
  using assms by (subst make_token_loop.simps) simp

text \<open>One operator or parenthesis.\<close>

definition op_words :: "(string \<times> tok) list" where
  "op_words = [(''('', TC CHR ''(''), ('')'', TC CHR '')''), (''+'', TC CHR ''+''), (''-'', TC CHR ''-''),
     (''*'', TC CHR ''*''), (''/'', TC CHR ''/''), (''=='', TK_EQ), (''!='', TK_NEQ), (''&&'', TK_AND)]"

lemma try_rules_op:
  assumes "(w, t) \<in> set op_words"
  shows "try_rules rules (w @ cs) = Some (length w, t)"
  using assms
  by (auto simp: op_words_def rules_def match_lit_def match_plus_def match_pre_plus_def is_digit_def)

lemma make_token_op:
  assumes "(w, t) \<in> set op_words" "nr_token s < NR_TOKENS" "n \<le> 31"
  shows "make_token_loop v (replicate n CHR '' '' @ w @ cs) s = make_token_loop v cs (push (t, x) s)"
proof -
  have w: "w \<noteq> []" "hd w \<noteq> CHR '' ''" "length w \<le> 31"
    and r: "record_token v t w s = Inr (True, push (t, x) s)"
    using assms(1,2) by (auto simp: op_words_def record_token_def put_type_def push_def)
  have "make_token_loop v (w @ cs) s = make_token_loop v cs (push (t, x) s)"
    using make_token_step [OF try_rules_op [OF assms(1)] w(3), where cs1=cs] w(1) r by simp
  with w show ?thesis using assms(3) by (simp add: make_token_space)
qed

lemma make_token_num:
  assumes "wf_ast e" "e = Dec ds \<or> e = Hex ds" "nr_token s < NR_TOKENS" "n \<le> 31" "delim cs"
  shows "make_token_loop v (replicate n CHR '' '' @ hd (words e) @ cs) s
    = make_token_loop v cs (push (hd (raw e)) s)"
  using assms(2)
proof
  assume e: "e = Dec ds"
  with assms(1) have ds: "list_all is_digit ds" "ds \<noteq> []" "length ds \<le> 31" by auto
  then have "hd ds \<noteq> CHR '' ''" by (cases ds) (auto simp: is_digit_def)
  then show ?thesis
    using make_token_step [OF try_rules_Dec [OF ds(1,2) assms(5)] ds(3), of v s "push (hd (raw e)) s"] ds assms(3,4)
    by (simp add: e make_token_space record_token_def put_num_def push_def)
next
  assume e: "e = Hex ds"
  with assms(1) have ds: "list_all is_xdigit ds" "ds \<noteq> []" "length ds + 2 \<le> 31" by auto
  show ?thesis
    using make_token_step [OF try_rules_Hex [OF ds(1,2) assms(5)] ds(3), of v s "push (hd (raw e)) s"] ds assms(3,4)
    by (simp add: e make_token_space record_token_def put_num_def push_def)
qed

lemma nr_token_push [simp]: "nr_token (push t s) = Suc (nr_token s)"
  by (simp add: push_def)

lemma nr_token_fold_push [simp]: "nr_token (fold push ts s) = nr_token s + length ts"
  by (induction ts arbitrary: s) auto

lemma delim_spaced:
  assumes "(w, t) \<in> set op_words"
  shows "delim (replicate n CHR '' '' @ w @ cs)"
  using assms by (cases n) (auto simp: op_words_def delim_def is_xdigit_def is_digit_def)

lemma make_token_render:
  assumes "wf_ast e" "n \<le> 31" "delim cs" "nr_token s + length (toks e) \<le> NR_TOKENS"
  shows "make_token_loop v (render n e @ cs) s = make_token_loop v cs (fold push (raw e) s)"
  using assms unfolding render_def
proof (induction e arbitrary: cs s)
  case (Dec ds)
  then show ?case using make_token_num [of "Dec ds" ds s n cs v] by simp
next
  case (Hex ds)
  then show ?case using make_token_num [of "Hex ds" ds s n cs v] by simp
next
  case (Paren e)
  have o: "(''('', TC CHR ''('') \<in> set op_words" "('')'', TC CHR '')'') \<in> set op_words"
    by (simp_all add: op_words_def)
  show ?case
    using Paren make_token_op [OF o(1), of s n v _ "[]"] make_token_op [OF o(2), of "fold push (raw e) (push (TC CHR ''('', []) s)" n v cs "[]"]
      delim_spaced [OF o(2), of n cs] by simp
next
  case (Neg e)
  have o: "(''-'', TC CHR ''-'') \<in> set op_words" by (simp add: op_words_def)
  show ?case using Neg make_token_op [OF o, of s n v _ "[]"] by simp
next
  case (Deref e)
  have o: "(''*'', TC CHR ''*'') \<in> set op_words" by (simp add: op_words_def)
  show ?case using Deref make_token_op [OF o, of s n v _ "[]"] by simp
next
  case (Bin b l r)
  define w where "w = (case b of Add \<Rightarrow> ''+'' | Sub \<Rightarrow> ''-'' | Mul \<Rightarrow> ''*'' | Div \<Rightarrow> ''/''
     | Eq \<Rightarrow> ''=='' | Neq \<Rightarrow> ''!='' | And \<Rightarrow> ''&&'')"
  have o: "(w, bop_tok b) \<in> set op_words" by (cases b) (simp_all add: op_words_def w_def)
  show ?case
    using Bin make_token_op [OF o, of "fold push (raw l) s" n v _ "[]"] delim_spaced [OF o, of n]
    by (simp flip: w_def)
qed

section \<open>The prefix pass\<close>

lemma holds_fold_push:
  "holds_toks (tokens (fold push ts s)) (nr_token s) ts
   \<and> (\<forall>i < nr_token s. tokens (fold push ts s) i = tokens s i)"
proof (induction ts arbitrary: s)
  case (Cons t ts)
  have "tokens (push t s) (nr_token s) = (if fst t = TK_NUM then \<lparr>ty = TK_NUM, str = snd t\<rparr>
      else (tokens s (nr_token s))\<lparr>ty := fst t\<rparr>)"
    "\<forall>i < nr_token s. tokens (push t s) i = tokens s i"
    by (simp_all add: push_def)
  with Cons [of "push t s"] show ?case by simp
qed simp

lemma first_kind: "wf_ast e \<Longrightarrow> level e = 0 \<Longrightarrow> fst (hd (toks e)) \<notin> {TK_INV, DEREF}"
  by (cases e) auto

lemma last_kind: "fst (last (toks e)) \<in> {TK_NUM, TC CHR '')''}"
  by (induction e) auto

definition mark_range :: "nat \<Rightarrow> nat \<Rightarrow> (nat \<Rightarrow> token) \<Rightarrow> (nat \<Rightarrow> token)" where
  "mark_range p k tk = fold mark_at [p..<p + k] tk"

lemma mark_range_simps [simp]:
  "mark_range p 0 tk = tk"
  "mark_range p (Suc k) tk = mark_range (Suc p) k (mark_at p tk)"
  by (simp_all add: mark_range_def upt_conv_Cons del: upt_Suc)

lemma mark_range_add [simp]: "mark_range p (j + k) tk = mark_range (p + j) k (mark_range p j tk)"
  by (induction j arbitrary: p tk) auto

lemma mark_at_eq: "ty (tk p) \<noteq> TC CHR ''*'' \<Longrightarrow> ty (tk p) \<noteq> TC CHR ''-'' \<Longrightarrow> mark_at p tk = tk"
  by (simp add: mark_at_def)

lemma mark_at_other: "i \<noteq> p \<Longrightarrow> mark_at p tk i = tk i"
  by (simp add: mark_at_def)

definition marks :: "(nat \<Rightarrow> token) \<Rightarrow> nat \<Rightarrow> ast \<Rightarrow> bool" where
  "marks tk p e \<longleftrightarrow> holds_toks (mark_range p (length (toks e)) tk) p (toks e)
     \<and> (\<forall>i. i < p \<or> p + length (toks e) \<le> i \<longrightarrow> mark_range p (length (toks e)) tk i = tk i)"

lemma holds_toks_cong: "(\<And>i. p \<le> i \<Longrightarrow> i < p + length ts \<Longrightarrow> tk i = tk' i) \<Longrightarrow> holds_toks tk p ts = holds_toks tk' p ts"
  by (simp add: holds_toks_def)

lemma marks_prefix:
  assumes "marks (mark_at p tk) (Suc p) e" "ty (mark_at p tk p) = t" "t \<noteq> TK_NUM"
    "toks e' = (t, x) # toks e"
  shows "marks tk p e'"
proof -
  have "mark_at p tk i = tk i" if "i \<noteq> p" for i using that by (simp add: mark_at_def)
  with assms show ?thesis by (auto simp: marks_def Suc_le_eq)
qed

lemma marks_raw:
  assumes "wf_ast e" "holds_toks tk p (raw e)" "fst (hd (toks e)) \<in> {TK_INV, DEREF} \<longrightarrow> prefix_position tk p"
  shows "marks tk p e"
  using assms
proof (induction e arbitrary: p tk)
  case (Dec ds)
  then show ?case by (simp add: mark_at_def marks_def)
next
  case (Hex ds)
  then show ?case by (simp add: mark_at_def marks_def)
next
  case (Paren e)
  let ?tk = "mark_range (Suc p) (length (toks e)) tk"
  have tk: "mark_at p tk = tk" using Paren.prems by (simp add: mark_at_def)
  have "marks tk (Suc p) e"
    using Paren by (simp add: prefix_position_def)
  moreover from this have "mark_at (Suc p + length (toks e)) ?tk = ?tk"
    using Paren.prems by (simp add: mark_at_def marks_def)
  ultimately have "mark_range p (Suc (length (toks e) + Suc 0)) tk = ?tk"
    unfolding mark_range_simps(2) [of p] mark_range_add tk by simp
  with \<open>marks tk (Suc p) e\<close> Paren.prems show ?case
    by (simp add: marks_def del: mark_range_simps)
next
  case (Neg e)
  let ?tk = "mark_at p tk"
  have t: "ty (?tk p) = TK_INV" using Neg.prems by (simp add: mark_at_def)
  have "holds_toks ?tk (Suc p) (raw e)"
    using Neg.prems holds_toks_cong [of "Suc p" "raw e" tk ?tk] by (simp add: mark_at_other)
  then have "marks ?tk (Suc p) e" using Neg first_kind [of e] by simp
  then show ?case by (rule marks_prefix) (simp_all add: t)
next
  case (Deref e)
  let ?tk = "mark_at p tk"
  have t: "ty (?tk p) = DEREF" using Deref.prems by (simp add: mark_at_def)
  have "holds_toks ?tk (Suc p) (raw e)"
    using Deref.prems holds_toks_cong [of "Suc p" "raw e" tk ?tk] by (simp add: mark_at_other)
  then have "marks ?tk (Suc p) e" using Deref first_kind [of e] by simp
  then show ?case by (rule marks_prefix) (simp_all add: t)
next
  case (Bin b l r)
  define m where "m = p + length (toks l)"
  define tk1 where "tk1 = mark_range p (length (toks l)) tk"
  have "marks tk p l" using Bin by (simp add: m_def)
  then have L: "holds_toks tk1 p (toks l)" "\<And>i. i < p \<or> m \<le> i \<Longrightarrow> tk1 i = tk i"
    by (auto simp: tk1_def m_def marks_def)
  have "ty (tk1 (p + (length (toks l) - 1))) = fst (last (toks l))"
    using L(1) by (auto simp: holds_toks_def last_conv_nth)
  moreover have "p + (length (toks l) - 1) = m - 1" "0 < m"
    using length_toks_pos [of l] unfolding m_def by linarith+
  ultimately have last: "ty (tk1 (m - 1)) \<in> {TK_NUM, TC CHR '')''}" "0 < m"
    using last_kind [of l] by simp_all
  have mtok: "ty (tk1 m) = bop_tok b" using L(2) [of m] Bin.prems by (simp add: m_def)
  have np: "\<not> prefix_position tk1 m" using last by (auto simp: prefix_position_def is_operator_def)
  then have mark: "mark_at m tk1 = tk1" by (simp add: mark_at_def)
  have pr: "prefix_position tk1 (Suc m)"
    using mtok by (cases b) (auto simp: prefix_position_def is_operator_def)
  have "holds_toks tk1 (Suc m) (raw r)"
    using Bin.prems L(2) holds_toks_cong [of "Suc m" "raw r" tk1 tk] by (simp add: m_def)
  then have R: "marks tk1 (Suc m) r" using Bin.prems pr by (intro Bin.IH(2)) auto
  then have "mark_range (Suc m) (length (toks r)) tk1 i = tk1 i" if "i < Suc m" for i
    using that by (simp add: marks_def)
  then have "holds_toks (mark_range (Suc m) (length (toks r)) tk1) p (toks l)"
    by (intro iffD2 [OF holds_toks_cong L(1)]) (simp add: m_def)
  moreover have "mark_range p (length (toks l) + Suc (length (toks r))) tk = mark_range (Suc m) (length (toks r)) tk1"
    unfolding mark_range_add mark_range_simps(2) tk1_def [symmetric] m_def [symmetric] mark ..
  then have "mark_range p (length (toks (Bin b l r))) tk = mark_range (Suc m) (length (toks r)) tk1"
    by (simp del: mark_range_simps mark_range_add)
  moreover have "p + length (toks (Bin b l r)) = Suc m + length (toks r)" by (simp add: m_def)
  moreover have "ty (mark_range (Suc m) (length (toks r)) tk1 m) = bop_tok b"
    using R mtok by (simp add: marks_def)
  moreover have "bop_tok b \<noteq> TK_NUM" by (cases b) auto
  ultimately show ?case
    using R L(2) by (auto simp: marks_def m_def simp del: mark_range_simps mark_range_add)
qed

lemma mark_unary_raw:
  assumes "wf_ast e" "holds_toks tk 0 (raw e)"
  shows "holds_toks (mark_unary (length (toks e)) tk) 0 (toks e)"
  using marks_raw [OF assms] by (simp add: prefix_position_def marks_def mark_unary_def mark_range_def)

section \<open>The value of an expression\<close>

lemma fold_push_frame: "\<exists>tk. fold push ts s = s\<lparr>tokens := tk, nr_token := nr_token s + length ts\<rparr>"
proof (induction ts arbitrary: s)
  case Nil
  have "s = s\<lparr>tokens := tokens s, nr_token := nr_token s + length []\<rparr>" by simp
  then show ?case by (metis fold_simps(1))
next
  case (Cons t ts)
  obtain tk where "fold push ts (push t s) =
      push t s\<lparr>tokens := tk, nr_token := nr_token (push t s) + length ts\<rparr>" using Cons by blast
  moreover have "push t s\<lparr>tokens := tk, nr_token := k\<rparr> = s\<lparr>tokens := tk, nr_token := k\<rparr>" for k
    by (simp add: push_def)
  ultimately show ?case by auto
qed

lemma make_token_correct:
  fixes s :: "('a, 'b) sdb_scheme"
  assumes "wf_ast e" "n \<le> 31" "length (toks e) \<le> NR_TOKENS"
  obtains tk where
    "make_token v (render n e) s = Inr (True, s\<lparr>tokens := tk, nr_token := length (toks e)\<rparr>)"
    "holds_toks tk 0 (raw e)"
proof -
  define s0 where "s0 = s\<lparr>nr_token := 0\<rparr>"
  obtain tk where tk: "fold push (raw e) s0 = s0\<lparr>tokens := tk, nr_token := nr_token s0 + length (raw e)\<rparr>"
    using fold_push_frame by blast
  have "make_token v (render n e) s = Inr (True, fold push (raw e) s0)"
    using make_token_render [OF assms(1,2), of "[]" s0 v] assms(3)
    by (simp add: make_token_def s0_def delim_def make_token_loop.simps)
  moreover have "holds_toks tk 0 (raw e)"
    using holds_fold_push [of "raw e" s0] tk by (simp add: s0_def)
  ultimately show thesis using that [of tk] tk by (simp add: s0_def)
qed

lemma expr_sem:
  fixes s :: "('a, 'b) sdb_scheme"
  assumes "wf_ast e" "n \<le> 31" "length (toks e) \<le> NR_TOKENS"
  obtains tk where "expr c v (render n e) ok s =
    rbind (sem c v e ok (s\<lparr>nr_token := length (toks e), tokens := tk\<rparr>)) (\<lambda>r.
      Inr (if fst (snd r) then fst r else 0, fst (snd r), snd (snd r)))"
proof -
  obtain tk where tk: "holds_toks tk 0 (raw e)"
    "make_token v (render n e) s = Inr (True, s\<lparr>tokens := tk, nr_token := length (toks e)\<rparr>)"
    using make_token_correct [OF assms] .
  have "holds_toks (mark_unary (length (toks e)) tk) 0 (toks e)"
    by (rule mark_unary_raw [OF assms(1) tk(1)])
  note ev = eval_sem [OF assms(1) this, simplified]
  from that [of "mark_unary (length (toks e)) tk"] tk(2)
  show thesis by (simp add: expr_def ev)
qed

text \<open>The value of an expression that reads no memory; \<open>None\<close> when a division has no value: by
  zero, or of the least \<open>int\<close> by -1.\<close>

fun reads_memory :: "ast \<Rightarrow> bool" where
  "reads_memory (Deref _) \<longleftrightarrow> True"
| "reads_memory (Paren e) \<longleftrightarrow> reads_memory e"
| "reads_memory (Neg e) \<longleftrightarrow> reads_memory e"
| "reads_memory (Bin _ l r) \<longleftrightarrow> reads_memory l \<or> reads_memory r"
| "reads_memory _ \<longleftrightarrow> False"

fun bop_val :: "bop \<Rightarrow> u32 \<Rightarrow> u32 \<Rightarrow> u32 option" where
  "bop_val Add x y = Some (x + y)"
| "bop_val Sub x y = Some (x - y)"
| "bop_val Mul x y = Some (x * y)"
| "bop_val Div x y =
     (if y = 0 \<or> sint x sdiv sint y = 2 ^ 31 then None else Some (of_int (sint x sdiv sint y)))"
| "bop_val Eq x y = Some (of_bool (x = y))"
| "bop_val Neq x y = Some (of_bool (x \<noteq> y))"
| "bop_val And x y = Some (of_bool (x \<noteq> 0 \<and> y \<noteq> 0))"

fun denote :: "ast \<Rightarrow> u32 option" where
  "denote (Dec ds) = Some (of_nat (min (2 ^ 63 - 1) (digits_val 0 ds)))"
| "denote (Hex ds) = Some (strtoul16 (''0x'' @ ds))"
| "denote (Paren e) = denote e"
| "denote (Neg e) = map_option uminus (denote e)"
| "denote (Deref e) = None"
| "denote (Bin b l r) =
     Option.bind (denote l) (\<lambda>x. Option.bind (denote r) (\<lambda>y. bop_val b x y))"

definition yields :: "(abort + u32 \<times> bool \<times> ('d, 'z) sim_scheme) \<Rightarrow> u32 option \<Rightarrow> ('d, 'z) sim_scheme \<Rightarrow> bool" where
  "yields r w s \<longleftrightarrow> (case w of
      Some x \<Rightarrow> r = Inr (x, True, s)
    | None \<Rightarrow> r = Inl ArithTrap \<or> (\<exists>x. r = Inr (x, False, s)))"

lemma sint32_bounds: "- (2 ^ 31) \<le> sint (x :: u32)" "sint (x :: u32) < 2 ^ 31"
  using sint_ge [of x] sint_lt [of x] by simp_all

lemma sdiv_int_overflow:
  fixes a b :: int
  assumes "- (2 ^ 31) \<le> a" "a < 2 ^ 31" "- (2 ^ 31) \<le> b" "b < 2 ^ 31"
  shows "a sdiv b = 2 ^ 31 \<longleftrightarrow> a = - (2 ^ 31) \<and> b = - 1"
proof
  assume q: "a sdiv b = 2 ^ 31"
  define k where "k = \<bar>a\<bar> div \<bar>b\<bar>"
  have "0 \<le> k" by (simp add: k_def pos_imp_zdiv_nonneg_iff div_int_pos_iff)
  then have k: "k = 2 ^ 31"
    using q by (auto simp: signed_divide_int_def sgn_if k_def split: if_splits)
  have "k * \<bar>b\<bar> \<le> \<bar>a\<bar>"
  proof (cases "b = 0")
    case False
    then have "0 \<le> \<bar>a\<bar> mod \<bar>b\<bar>" by simp
    then show ?thesis using div_mult_mod_eq [of "\<bar>a\<bar>" "\<bar>b\<bar>"] unfolding k_def by linarith
  qed simp
  then have "\<bar>b\<bar> * 2147483648 \<le> \<bar>a\<bar>" "\<bar>a\<bar> \<le> 2147483648" "b \<noteq> 0"
    using k assms q by (auto simp: signed_divide_int_def mult.commute)
  then have "\<bar>b\<bar> = 1" by linarith
  then have "b = 1 \<or> b = -1" by linarith
  then show "a = - (2 ^ 31) \<and> b = - 1"
    using q assms by (auto simp: signed_divide_int_def sgn_if split: if_splits)
qed (auto simp: signed_divide_int_def)

lemma sdiv_overflow:
  fixes x y :: u32
  assumes "y \<noteq> 0"
  shows "sint x sdiv sint y = 2 ^ 31 \<longleftrightarrow> x = 0x80000000 \<and> y = - 1"
proof -
  have "sint x sdiv sint y = 2 ^ 31 \<longleftrightarrow> sint x = - (2 ^ 31) \<and> sint y = - 1"
    using sdiv_int_overflow [OF sint32_bounds sint32_bounds] .
  moreover have "sint x = - (2 ^ 31) \<longleftrightarrow> x = 0x80000000"
    using signed_word_eqI [of x "0x80000000"] by auto
  moreover have "sint y = - 1 \<longleftrightarrow> y = - 1"
    using signed_word_eqI [of y "- 1"] by auto
  ultimately show ?thesis by simp
qed

lemma apply_op_bop:
  assumes "bop_val b x y = w"
  shows "yields (apply_op c v (bop_tok b) x y True s) w s"
  using assms sdiv_overflow [of y x]
  by (cases b) (auto simp: apply_op_def yields_def signed_divide_int_def split: if_splits)

lemma apply_op_down: "yields (apply_op c v (bop_tok b) x y False s) None s"
  by (cases b) (auto simp: apply_op_def yields_def)

lemma yields_rbind:
  assumes "yields r w s" "\<And>x. w = Some x \<Longrightarrow> yields (g (x, True, s)) u s"
    "\<And>x. w = None \<Longrightarrow> yields (g (x, False, s)) None s" "w = None \<Longrightarrow> u = None"
  shows "yields (rbind r g) u s"
proof (cases w)
  case None
  with assms(1) consider "r = Inl ArithTrap" | x where "r = Inr (x, False, s)"
    by (auto simp: yields_def)
  then show ?thesis
    using assms(3,4) None by cases (auto simp: yields_def)
next
  case (Some x)
  with assms(1,2) show ?thesis by (auto simp: yields_def)
qed

lemma yields_None: "yields (Inr (x, False, s)) None s"
  by (simp add: yields_def)

text \<open>Once the flag is down it stays down.\<close>

lemma sem_pure:
  assumes "\<not> reads_memory e" "wf_ast e"
  shows "yields (sem c v e ok s) (if ok then denote e else None) s"
  using assms
proof (induction e arbitrary: ok)
  case (Dec ds)
  have "of_int (min 9223372036854775807 (int n)) = (of_nat (min 9223372036854775807 n) :: u32)" for n
    by (cases "n \<le> 9223372036854775807") (simp_all add: min_def)
  with Dec show ?case by (auto simp: yields_def host_atoi_digits strtol_clamp_def)
next
  case (Neg e)
  have "yields (rbind (sem c v e True s) (\<lambda>r. Inr (- fst r, snd r))) (map_option uminus (denote e)) s"
  proof (rule yields_rbind [of _ "denote e"])
    show "yields (sem c v e True s) (denote e) s" using Neg.IH [of True] Neg.prems by simp
  qed (simp_all add: yields_def)
  then show ?case by (simp add: yields_None)
next
  case (Bin b l r)
  have L: "yields (sem c v l True s) (denote l) s"
    and R: "\<And>ok. yields (sem c v r ok s) (if ok then denote r else None) s"
    using Bin.IH(1) [of True] Bin.IH(2) Bin.prems by simp_all
  let ?f = "\<lambda>x r2. apply_op c v (bop_tok b) x (fst r2) (fst (snd r2)) (snd (snd r2))"
  have up: "yields (rbind (sem c v r True s) (?f x)) (Option.bind (denote r) (bop_val b x)) s" for x
    using R [of True] by (intro yields_rbind [of _ "denote r"]) (simp_all add: apply_op_bop apply_op_down)
  have down: "yields (rbind (sem c v r False s) (?f x)) None s" for x
    using R [of False] by (intro yields_rbind [of _ None]) (simp_all add: apply_op_down)
  have "yields (sem c v (Bin b l r) True s) (denote (Bin b l r)) s"
    unfolding sem.simps denote.simps if_True
    by (rule yields_rbind [OF L]) (simp_all add: up down)
  then show ?case by (cases ok) (simp_all add: yields_None)
next
  case (Paren e)
  then show ?case using Paren.IH [of True] Paren.IH [of False] by simp
qed (simp_all add: yields_def)

text \<open>C1: on every expression of the grammar, written with up to 31 spaces before each token,
  \<open>expr\<close> computes the tree semantics: precedence, associativity, prefix operators and the
  reads of memory in the order of the tree.\<close>

theorem expr_refines_sem:
  fixes s :: "('a, 'b) sdb_scheme"
  assumes "wf_ast e" "n \<le> 31" "length (toks e) \<le> NR_TOKENS"
  shows "\<exists>tk. expr c v (render n e) ok s =
    rbind (sem c v e ok (s\<lparr>nr_token := length (toks e), tokens := tk\<rparr>)) (\<lambda>r.
      Inr (if fst (snd r) then fst r else 0, snd r))"
proof -
  obtain tk where "expr c v (render n e) ok s =
    rbind (sem c v e ok (s\<lparr>nr_token := length (toks e), tokens := tk\<rparr>)) (\<lambda>r.
      Inr (if fst (snd r) then fst r else 0, fst (snd r), snd (snd r)))"
    using expr_sem [OF assms] .
  then show ?thesis by (intro exI [of _ tk]) simp
qed



definition example_sdb :: "(u32 \<times> (u32 \<Rightarrow> u32)) sdb" where
  "example_sdb = sim.extend example_sim \<lparr>tokens = (\<lambda>_. \<lparr>ty = TK_NOTYPE, str = []\<rparr>), nr_token = 0\<rparr>"

lemma expr_refines_sem_witness:
  "\<exists>s'. expr kconfig_defaults example_env '' * 0x80000000 + 1'' True example_sdb = Inr (1, True, s')"
proof -
  let ?e = "Bin Add (Deref (Hex ''80000000'')) (Dec ''1'')"
  have r: "render 1 ?e = '' * 0x80000000 + 1''" by (simp add: render_def)
  have s: "sem kconfig_defaults example_env ?e True (example_sdb\<lparr>nr_token := k, tokens := tk\<rparr>)
      = Inr (1, True, example_sdb\<lparr>nr_token := k, tokens := tk\<rparr>)" for k tk
    by (simp add: strtoul16_def xdigit_val_def is_digit_def digit_val_def host_atoi_digits strtol_clamp_def
      pmem_read_def in_mem_def MEM_BASE_def MEM_MAX_def load32_def apply_op_def example_sdb_def sim.defs
      example_sim_def sim0_def)
  show ?thesis
    using expr_refines_sem [where e="?e" and n=1 and c=kconfig_defaults and v=example_env and ok=True and s=example_sdb]
    unfolding r s by (auto simp: is_digit_def is_xdigit_def op_hirc_def NR_TOKENS_def)
qed

end
