(* ===== verification/SdbWatch.thy ===== *)
theory SdbWatch imports SdbParse begin

text \<open>
  The watchpoints of the debugger, \<open>core/csrc/monitor/sdb/watchpoint.c\<close>: a pool of 32 nodes,
  threaded into the list of used ones (\<open>head\<close>) and the list of free ones (\<open>free_\<close>, here \<open>free_list\<close>) by their
  \<open>next\<close> pointers.  The pool is a store from node numbers to nodes and a pointer a node number
  or \<open>None\<close> for \<open>NULL\<close>; a loop over a list is a \<open>partial_function\<close>, because it does not end on a
  cyclic list, and the invariant \<open>wp_inv\<close> is what makes the loops end.
\<close>

record wp =
  NO :: int
  "next" :: "nat option"
  e_str :: string
  pre_result :: u32

record 'd wps = "'d sdb" +
  wp_pool :: "nat \<Rightarrow> wp"
  head :: "nat option"
  free_list :: "nat option"

definition NR_WP :: nat where "NR_WP = 32"

definition init_wp_pool :: "('d, 'z) wps_scheme \<Rightarrow> ('d, 'z) wps_scheme" where
  "init_wp_pool s =
     s\<lparr>wp_pool := (\<lambda>i. if i < NR_WP
          then (wp_pool s i)\<lparr>NO := int i, next := (if i = NR_WP - 1 then None else Some (i + 1))\<rparr>
          else wp_pool s i),
       head := None, free_list := Some 0\<rparr>"

text \<open>\<open>new_wp\<close>: the node taken, or \<open>None\<close> for \<open>NULL\<close>.  A signed overflow of \<open>NO\<close>, undefined in C,
  is an abort.\<close>

definition new_wp :: "cfg \<Rightarrow> 'd env \<Rightarrow> string \<Rightarrow> ('d, 'z) wps_scheme
    \<Rightarrow> abort + nat option \<times> ('d, 'z) wps_scheme" where
  "new_wp c v e s =
     (if free_list s = None then Inl AssertFail
      else if 31 < length e then Inr (None, s)
      else rbind (expr c v e True s) (\<lambda>r.
        let s1 = snd (snd r) in
        if \<not> fst (snd r) then Inr (None, s1)
        else case free_list s1 of
          None \<Rightarrow> Inl NullDeref
        | Some w \<Rightarrow>
            let n = (case head s1 of None \<Rightarrow> 1 | Some h \<Rightarrow> NO (wp_pool s1 h) + 1)
            in if 2 ^ 31 \<le> n then Inl ArithTrap
               else Inr (Some w,
                 s1\<lparr>free_list := next (wp_pool s1 w),
                    wp_pool := (wp_pool s1)(w := \<lparr>NO = n, next = head s1, e_str = e, pre_result = fst r\<rparr>),
                    head := Some w\<rparr>)))"

text \<open>The loop of \<open>free_wp\<close> that unlinks a node that is not the first.\<close>

partial_function (option) unlink_loop :: "nat \<Rightarrow> nat option \<Rightarrow> (nat \<Rightarrow> wp) \<Rightarrow> (nat \<Rightarrow> wp) option" where
  "unlink_loop wp current pool =
     (case current of
        None \<Rightarrow> Some pool
      | Some i \<Rightarrow>
          let pool' = (if next (pool i) = Some wp then pool(i := (pool i)\<lparr>next := next (pool wp)\<rparr>) else pool)
          in unlink_loop wp (next (pool' i)) pool')"

definition free_wp :: "nat option \<Rightarrow> ('d, 'z) wps_scheme \<Rightarrow> (abort + ('d, 'z) wps_scheme) option" where
  "free_wp wp s =
     (case wp of
        None \<Rightarrow> Some (Inl AssertFail)
      | Some w \<Rightarrow>
          Option.bind
            (if head s = Some w then Some (s\<lparr>head := next (wp_pool s w)\<rparr>)
             else map_option (\<lambda>p. s\<lparr>wp_pool := p\<rparr>) (unlink_loop w (head s) (wp_pool s)))
            (\<lambda>s1. Some (Inr (s1\<lparr>wp_pool := (wp_pool s1)(w := (wp_pool s1 w)\<lparr>next := free_list s1\<rparr>),
                                free_list := Some w\<rparr>))))"

text \<open>The loop of \<open>scan_wp_diff\<close>.\<close>

partial_function (option) scan_loop :: "cfg \<Rightarrow> 'd env \<Rightarrow> nat option \<Rightarrow> ('d, 'z) wps_scheme
    \<Rightarrow> (abort + bool \<times> ('d, 'z) wps_scheme) option" where
  "scan_loop c v current s =
     (case current of
        None \<Rightarrow> Some (Inr (False, s))
      | Some i \<Rightarrow>
          (case expr c v (e_str (wp_pool s i)) True s of
             Inl e \<Rightarrow> Some (Inl e)
           | Inr (new_result, success, s1) \<Rightarrow>
               if \<not> success then Some (Inl AssertFail)
               else if pre_result (wp_pool s1 i) \<noteq> new_result
               then Some (Inr (True, s1\<lparr>wp_pool := (wp_pool s1)(i := (wp_pool s1 i)\<lparr>pre_result := new_result\<rparr>)\<rparr>))
               else scan_loop c v (next (wp_pool s1 i)) s1))"

definition scan_wp_diff :: "cfg \<Rightarrow> 'd env \<Rightarrow> ('d, 'z) wps_scheme
    \<Rightarrow> (abort + bool \<times> ('d, 'z) wps_scheme) option" where
  "scan_wp_diff c v s = scan_loop c v (head s) s"

text \<open>\<open>set_new_wp\<close>: whether a watchpoint was set, with its number, as it reports.\<close>

definition set_new_wp :: "cfg \<Rightarrow> 'd env \<Rightarrow> string \<Rightarrow> ('d, 'z) wps_scheme
    \<Rightarrow> abort + int option \<times> ('d, 'z) wps_scheme" where
  "set_new_wp c v e s =
     rbind (new_wp c v e s) (\<lambda>r. Inr (map_option (\<lambda>w. NO (wp_pool (snd r) w)) (fst r), snd r))"

partial_function (option) delete_loop :: "int \<Rightarrow> nat option \<Rightarrow> ('d, 'z) wps_scheme
    \<Rightarrow> (abort + bool \<times> ('d, 'z) wps_scheme) option" where
  "delete_loop N current s =
     (case current of
        None \<Rightarrow> Some (Inr (False, s))
      | Some i \<Rightarrow>
          if NO (wp_pool s i) = N
          then map_option (\<lambda>r. rbind r (\<lambda>s1. Inr (True, s1))) (free_wp (Some i) s)
          else delete_loop N (next (wp_pool s i)) s)"

definition delete_wp :: "int \<Rightarrow> ('d, 'z) wps_scheme \<Rightarrow> (abort + bool \<times> ('d, 'z) wps_scheme) option" where
  "delete_wp N s = delete_loop N (head s) s"

text \<open>The lines \<open>print_wp_info\<close> prints.\<close>

partial_function (option) info_loop :: "(nat \<Rightarrow> wp) \<Rightarrow> nat option \<Rightarrow> (int \<times> string \<times> u32) list option" where
  "info_loop pool current =
     (case current of
        None \<Rightarrow> Some []
      | Some i \<Rightarrow> Option.bind (info_loop pool (next (pool i)))
                    (\<lambda>ls. Some ((NO (pool i), e_str (pool i), pre_result (pool i)) # ls)))"

definition print_wp_info :: "('d, 'z) wps_scheme \<Rightarrow> (int \<times> string \<times> u32) list option" where
  "print_wp_info s = info_loop (wp_pool s) (head s)"

section \<open>Lists in the pool\<close>

fun links :: "(nat \<Rightarrow> wp) \<Rightarrow> nat option \<Rightarrow> nat list \<Rightarrow> bool" where
  "links pool p [] \<longleftrightarrow> p = None"
| "links pool p (x # xs) \<longleftrightarrow> p = Some x \<and> links pool (next (pool x)) xs"

definition entry :: "wp \<Rightarrow> int \<times> string \<times> u32" where
  "entry w = (NO w, e_str w, pre_result w)"

definition pool_shape :: "(nat \<Rightarrow> wp) \<Rightarrow> nat option \<Rightarrow> nat option \<Rightarrow> nat list \<Rightarrow> nat list \<Rightarrow> bool" where
  "pool_shape pool h f hs fs \<longleftrightarrow> links pool h hs \<and> links pool f fs \<and> distinct (hs @ fs)
     \<and> set (hs @ fs) = {..<NR_WP} \<and> sorted_wrt (>) (map (\<lambda>i. NO (pool i)) hs)
     \<and> (\<forall>i \<in> set hs. length (e_str (pool i)) \<le> 31 \<and> 1 \<le> NO (pool i) \<and> NO (pool i) < 2 ^ 31)"

text \<open>The pool invariant, and the list of watchpoints the user sees.\<close>

definition wp_inv :: "('d, 'z) wps_scheme \<Rightarrow> bool" where
  "wp_inv s \<longleftrightarrow> (\<exists>hs fs. pool_shape (wp_pool s) (head s) (free_list s) hs fs)"

definition entries :: "('d, 'z) wps_scheme \<Rightarrow> (int \<times> string \<times> u32) list" where
  "entries s = the (print_wp_info s)"

lemma fst_entry [simp]: "fst (entry w) = NO w"
  by (simp add: entry_def)

lemma links_unique: "links pool p xs \<Longrightarrow> links pool p ys \<Longrightarrow> xs = ys"
  by (induction xs arbitrary: p ys) (case_tac ys; auto)+

lemma links_upd [simp]: "i \<notin> set xs \<Longrightarrow> links (pool(i := w)) p xs = links pool p xs"
  by (induction xs arbitrary: p) auto

lemma links_next: "(\<And>i. i \<in> set xs \<Longrightarrow> next (pool' i) = next (pool i)) \<Longrightarrow> links pool' p xs = links pool p xs"
  by (induction xs arbitrary: p) auto

lemma links_append:
  "links pool p (xs @ x # ys) \<Longrightarrow> links pool (Some x) (x # ys)"
  by (induction xs arbitrary: p) auto

lemma info_loop_links: "links pool p xs \<Longrightarrow> info_loop pool p = Some (map (entry \<circ> pool) xs)"
  by (induction xs arbitrary: p) (simp_all add: info_loop.simps entry_def)

lemma pool_shape_entries:
  "pool_shape (wp_pool s) (head s) (free_list s) hs fs \<Longrightarrow> entries s = map (entry \<circ> wp_pool s) hs"
  by (auto simp: entries_def print_wp_info_def pool_shape_def dest!: info_loop_links)

lemma unlink_loop_absent: "links pool p ys \<Longrightarrow> w \<notin> set ys \<Longrightarrow> unlink_loop w p pool = Some pool"
proof (induction ys arbitrary: p)
  case (Cons y ys)
  then have "next (pool y) \<noteq> Some w" by (cases ys) auto
  with Cons show ?case by (simp add: unlink_loop.simps)
qed (simp add: unlink_loop.simps)

lemma unlink_loop_links:
  assumes "links pool p (xs @ w # ys)" "distinct (xs @ w # ys)" "xs \<noteq> []"
  shows "unlink_loop w p pool = Some (pool(last xs := (pool (last xs))\<lparr>next := next (pool w)\<rparr>))"
  using assms
proof (induction xs arbitrary: p)
  case (Cons x xs)
  show ?case
  proof (cases "xs = []")
    case True
    let ?pool = "pool(x := (pool x)\<lparr>next := next (pool w)\<rparr>)"
    have "links ?pool (next (pool w)) ys" using Cons.prems True by simp
    then have "unlink_loop w (next (pool w)) ?pool = Some ?pool"
      using Cons.prems True by (intro unlink_loop_absent) auto
    then show ?thesis using Cons.prems True by (subst unlink_loop.simps) simp
  next
    case False
    with Cons.prems have "next (pool x) \<noteq> Some w" by (cases xs) auto
    moreover have "unlink_loop w (next (pool x)) pool = Some (pool(last xs := (pool (last xs))\<lparr>next := next (pool w)\<rparr>))"
      using Cons.prems False by (intro Cons.IH) auto
    ultimately show ?thesis using Cons.prems False by (subst unlink_loop.simps) simp
  qed
qed simp

text \<open>\<open>free_wp\<close> takes a used node out of the first list and puts it on the second.\<close>

lemma links_remove:
  assumes "links pool p (xs @ w # ys)" "distinct (xs @ w # ys)" "xs \<noteq> []"
  shows "links (pool(last xs := (pool (last xs))\<lparr>next := next (pool w)\<rparr>)) p (xs @ ys)"
  using assms
proof (induction xs arbitrary: p)
  case (Cons x xs)
  show ?case
  proof (cases "xs = []")
    case True
    then have "links (pool(x := (pool x)\<lparr>next := next (pool w)\<rparr>)) (next (pool w)) ys"
      using Cons.prems by simp
    then show ?thesis using True Cons.prems by (simp del: fun_upd_apply add: fun_upd_same)
  next
    case False
    then have "last xs \<noteq> x" using Cons.prems(2) last_in_set [of xs] by auto
    moreover have "links (pool(last xs := (pool (last xs))\<lparr>next := next (pool w)\<rparr>)) (next (pool x)) (xs @ ys)"
      using Cons.prems False by (intro Cons.IH) auto
    ultimately show ?thesis using Cons.prems False
      by (simp del: fun_upd_apply add: fun_upd_other)
  qed
qed simp

lemma free_wp_shape:
  assumes "pool_shape (wp_pool s) (head s) (free_list s) (xs @ w # ys) fs"
  obtains s' where "free_wp (Some w) s = Some (Inr s')"
    "pool_shape (wp_pool s') (head s') (free_list s') (xs @ ys) (w # fs)"
    "\<And>i. entry (wp_pool s' i) = entry (wp_pool s i)"
proof -
  let ?p = "wp_pool s"
  have sh: "links ?p (head s) (xs @ w # ys)" "links ?p (free_list s) fs" "distinct (xs @ w # ys @ fs)"
    using assms by (auto simp: pool_shape_def)
  define q where "q = (if xs = [] then ?p else ?p(last xs := (?p (last xs))\<lparr>next := next (?p w)\<rparr>))"
  define q' where "q' = q(w := (q w)\<lparr>next := free_list s\<rparr>)"
  define h where "h = (if xs = [] then next (?p w) else head s)"
  have hw: "head s = Some w \<longleftrightarrow> xs = []"
    using sh by (cases xs) auto
  have "links q h (xs @ ys)"
    using sh links_remove [of ?p "head s" xs w ys] by (auto simp: q_def h_def)
  then have l1: "links q' h (xs @ ys)" using sh(3) by (auto simp: q'_def)
  have "xs \<noteq> [] \<Longrightarrow> last xs \<notin> set fs" using sh(3) last_in_set [of xs] by (auto simp del: last_in_set)
  then have "links q (free_list s) fs" using sh(2) by (cases "xs = []") (simp_all add: q_def)
  then have l2: "links q' (Some w) (w # fs)" using sh(3) by (auto simp: q'_def)
  have e: "NO (q' i) = NO (?p i)" "e_str (q' i) = e_str (?p i)" "pre_result (q' i) = pre_result (?p i)" for i
    by (auto simp: q'_def q_def)
  have "free_wp (Some w) s = Some (Inr (s\<lparr>head := h, wp_pool := q', free_list := Some w\<rparr>))"
  proof (cases "xs = []")
    case False
    have "unlink_loop w (head s) ?p = Some q"
      using unlink_loop_links [OF sh(1) _ False] sh(3) False by (auto simp: q_def)
    then show ?thesis using hw False by (simp add: free_wp_def q'_def h_def)
  qed (simp add: hw free_wp_def q_def q'_def h_def)
  moreover have "pool_shape q' h (Some w) (xs @ ys) (w # fs)"
    using assms l1 l2 e unfolding pool_shape_def by (auto simp: sorted_wrt_append)
  ultimately show thesis using that e by (simp add: entry_def)
qed


section \<open>What evaluation leaves alone\<close>

lemma pmem_read_more: "pmem_read c v a s = Inr (w, s') \<Longrightarrow> sim.more s' = sim.more s"
  by (auto simp: pmem_read_def mmio_read_def difftest_skip_ref_def get_time_def get_time_internal_def
      npc_rtc_update_def Let_def split: if_splits prod.splits)

lemma apply_op_more: "apply_op c v t x y ok s = Inr (w, ok', s') \<Longrightarrow> sim.more s' = sim.more s"
  by (auto simp: apply_op_def rbind_Inr_iff dest: pmem_read_more split: if_splits)

lemma eval_more: "eval c v tk p q ok s = Inr (w, ok', s') \<Longrightarrow> sim.more s' = sim.more s"
proof (induction c v tk p q ok s arbitrary: w ok' s' rule: eval.induct)
  case (1 c v tk p q ok s)
  note ev = 1(4) [unfolded eval.simps [of c v tk p q ok s]]
  show ?case
  proof (cases "q < p \<or> p = q")
    case True
    with ev show ?thesis by (auto split: if_splits)
  next
    case False
    with ev obtain inner ok1 where cp: "check_parentheses tk p q ok = Inr (inner, ok1)"
      by (cases "check_parentheses tk p q ok") auto
    show ?thesis
    proof (cases inner)
      case True
      with ev cp False 1(1) show ?thesis by auto
    next
      case inner: False
      obtain m mok where m: "find_main_op tk p q ok1 = (m, mok)" by fastforce
      show ?thesis
      proof (cases mok)
        case True
        let ?l = "if m \<noteq> p then eval c v tk p (m - 1) True s else Inr (0, True, s)"
        from ev cp False inner m True obtain x1 k1 s1 x2 k2 s2 where
          l: "?l = Inr (x1, k1, s1)" and r: "eval c v tk (m + 1) q k1 s1 = Inr (x2, k2, s2)"
          and a: "apply_op c v (ty (tk (nat m))) x1 x2 k2 s2 = Inr (w, ok', s')"
          by (auto simp: rbind_Inr_iff)
        have "sim.more s1 = sim.more s"
          using l 1(2) False cp inner m True by (auto split: if_splits)
        moreover have "sim.more s2 = sim.more s1"
          using r 1(3) False cp inner m True by auto
        ultimately show ?thesis using apply_op_more [OF a] by simp
      qed (use ev cp False inner m in auto)
    qed
  qed
qed

lemma eval_sdb_more:
  fixes s :: "('a, 'b) sdb_scheme"
  assumes "eval c v tk p q ok s = Inr (w, ok', s')"
  shows "sdb.more s' = sdb.more s"
  using eval_more [OF assms] by (cases s, cases s'; simp)

lemma record_token_more: "record_token v t e s = Inr (b, s') \<Longrightarrow> sdb.more s' = sdb.more s"
  by (auto simp: record_token_def put_type_def put_num_def rbind_Inr_iff split: tok.splits if_splits option.splits)

lemma make_token_loop_more: "make_token_loop v e s = Inr (b, s') \<Longrightarrow> sdb.more s' = sdb.more s"
proof (induction v e s arbitrary: b s' rule: make_token_loop.induct)
  case (1 v e s)
  show ?case
    using 1(2) record_token_more 1(1)
    by (subst (asm) make_token_loop.simps)
       (fastforce simp: rbind_Inr_iff split: if_splits option.splits)
qed

lemma expr_more: 
  fixes s :: "('a, 'b) sdb_scheme"
  assumes "expr c v e ok s = Inr (w, ok', s')"
  shows "sdb.more s' = sdb.more s"
proof -
  from assms obtain b s1 where m: "make_token_loop v e (s\<lparr>nr_token := 0\<rparr>) = Inr (b, s1)"
    by (auto simp: expr_def make_token_def rbind_Inr_iff)
  have "sdb.more s1 = sdb.more s" using make_token_loop_more [OF m] by simp
  moreover have "sdb.more s' = sdb.more s1"
  proof (cases b)
    case True
    let ?s = "s1\<lparr>tokens := mark_unary (nr_token s1) (tokens s1)\<rparr>"
    from assms m True obtain x k where
      "eval c v (mark_unary (nr_token s1) (tokens s1)) 0 (int (nr_token s1) - 1) ok ?s = Inr (x, k, s')"
      by (auto simp: expr_def make_token_def rbind_Inr_iff Let_def split: if_splits)
    from eval_sdb_more [OF this] show ?thesis by simp
  qed (use assms m in \<open>auto simp: expr_def make_token_def\<close>)
  ultimately show ?thesis by simp
qed

lemma expr_frame:
  fixes s :: "('a, 'b) wps_scheme"
  assumes "expr c v e ok s = Inr (w, ok', s')"
  shows "wp_pool s' = wp_pool s" "head s' = head s" "free_list s' = free_list s"
  using expr_more [OF assms] by (cases s, cases s'; simp)+


section \<open>The operations keep the pool in shape and do what they promise\<close>

lemma init_links:
  "k \<le> NR_WP \<Longrightarrow> links (wp_pool (init_wp_pool s)) (if k = 0 then None else Some (NR_WP - k)) [NR_WP - k..<NR_WP]"
proof (induction k)
  case (Suc k)
  then have "[NR_WP - Suc k..<NR_WP] = (NR_WP - Suc k) # [NR_WP - k..<NR_WP]"
    by (simp add: upt_conv_Cons Suc_diff_Suc)
  moreover have "Suc (NR_WP - Suc k) = NR_WP - k" "NR_WP - Suc k = NR_WP - Suc 0 \<longleftrightarrow> k = 0"
    using Suc.prems by (auto simp: NR_WP_def)
  ultimately show ?case using Suc by (auto simp: init_wp_pool_def)
qed simp

lemma init_shape:
  "pool_shape (wp_pool (init_wp_pool s)) (head (init_wp_pool s)) (free_list (init_wp_pool s)) [] [0..<NR_WP]"
proof -
  have "links (wp_pool (init_wp_pool s)) (Some 0) [0..<NR_WP]"
    using init_links [of NR_WP s] by (simp add: NR_WP_def)
  then show ?thesis by (auto simp: pool_shape_def init_wp_pool_def)
qed

lemma new_wp_cases:
  assumes "new_wp c v e s = Inr (r, s')"
  obtains (refused) "r = None" "wp_pool s' = wp_pool s" "head s' = head s" "free_list s' = free_list s"
  | (taken) w n x s1 where "r = Some w" "length e \<le> 31" "expr c v e True s = Inr (x, True, s1)"
      "free_list s = Some w" "n = (case head s of None \<Rightarrow> 1 | Some h \<Rightarrow> NO (wp_pool s h) + 1)" "n < 2 ^ 31"
      "wp_pool s' = (wp_pool s)(w := \<lparr>NO = n, next = head s, e_str = e, pre_result = x\<rparr>)"
      "head s' = Some w" "free_list s' = next (wp_pool s w)"
proof (cases "free_list s = None \<or> 31 < length e")
  case True
  with assms refused show ?thesis by (auto simp: new_wp_def split: if_splits)
next
  case False
  with assms obtain x ok s1 where ex: "expr c v e True s = Inr (x, ok, s1)"
    by (auto simp: new_wp_def rbind_Inr_iff)
  note fr = expr_frame [OF ex]
  show ?thesis
  proof (cases ok)
    case True
    from False obtain w where w: "free_list s = Some w" by auto
    from True assms False ex w show ?thesis
      by (intro taken [of w x s1 "case head s of None \<Rightarrow> 1 | Some h \<Rightarrow> NO (wp_pool s h) + 1"])
         (auto simp: new_wp_def Let_def fr split: if_splits option.splits)
  qed (use assms False ex fr refused in \<open>auto simp: new_wp_def Let_def\<close>)
qed

lemma new_wp_shape:
  assumes sh: "pool_shape (wp_pool s) (head s) (free_list s) hs (w # fs)"
    and n: "n = (case head s of None \<Rightarrow> 1 | Some h \<Rightarrow> NO (wp_pool s h) + 1)" "n < 2 ^ 31" "length e \<le> 31"
    and p: "p = (wp_pool s)(w := \<lparr>NO = n, next = head s, e_str = e, pre_result = x\<rparr>)"
  shows "pool_shape p (Some w) (next (wp_pool s w)) (w # hs) fs"
proof -
  have w: "w \<notin> set hs" "w \<notin> set fs" using sh by (auto simp: pool_shape_def)
  have "\<forall>i \<in> set hs. NO (wp_pool s i) < n" "1 \<le> n"
    using sh n(1) by (cases hs; auto simp: pool_shape_def)+
  moreover have "p i = wp_pool s i" if "i \<in> set hs" for i using that w by (auto simp: p)
  moreover from this have m: "map (\<lambda>i. NO (p i)) hs = map (\<lambda>i. NO (wp_pool s i)) hs" by simp
  moreover have "links p (head s) hs" "links p (next (wp_pool s w)) fs"
    using sh w by (simp_all add: p pool_shape_def)
  moreover have "p w = \<lparr>NO = n, next = head s, e_str = e, pre_result = x\<rparr>" by (simp add: p)
  ultimately show ?thesis
    using sh n(2,3) w unfolding pool_shape_def list.map(2) m by auto
qed


text \<open>\<open>delete_wp\<close> on a pool in shape.\<close>

lemma delete_loop_shape:
  assumes "pool_shape (wp_pool s) (head s) (free_list s) (xs @ ys) fs" "\<forall>i \<in> set xs. NO (wp_pool s i) \<noteq> N"
    "links (wp_pool s) p ys"
  shows "\<exists>s' hs' fs'. delete_loop N p s = Some (Inr (N \<in> set (map (NO \<circ> wp_pool s) (xs @ ys)), s'))
    \<and> pool_shape (wp_pool s') (head s') (free_list s') hs' fs'
    \<and> map (entry \<circ> wp_pool s') hs' = filter (\<lambda>x. fst x \<noteq> N) (map (entry \<circ> wp_pool s) (xs @ ys))"
  using assms
proof (induction ys arbitrary: p xs)
  case Nil
  then have "delete_loop N p s = Some (Inr (False, s))" "N \<notin> set (map (NO \<circ> wp_pool s) (xs @ []))"
    "map (entry \<circ> wp_pool s) xs = filter (\<lambda>x. fst x \<noteq> N) (map (entry \<circ> wp_pool s) (xs @ []))"
    by (auto simp: delete_loop.simps filter_id_conv)
  with Nil.prems(1) show ?case by fastforce
next
  case (Cons y ys)
  note sh = Cons.prems(1)
  show ?case
  proof (cases "NO (wp_pool s y) = N")
    case True
    obtain s' where f: "free_wp (Some y) s = Some (Inr s')"
      and s': "pool_shape (wp_pool s') (head s') (free_list s') (xs @ ys) (y # fs)"
      and e: "\<And>i. entry (wp_pool s' i) = entry (wp_pool s i)"
      using free_wp_shape [OF sh] by blast
    have "\<forall>i \<in> set ys. NO (wp_pool s i) \<noteq> N"
      using sh True by (auto simp: pool_shape_def sorted_wrt_append)
    with Cons.prems(2) True e have eq: "map (entry \<circ> wp_pool s') (xs @ ys)
        = filter (\<lambda>x. fst x \<noteq> N) (map (entry \<circ> wp_pool s) (xs @ y # ys))"
      by (simp add: filter_map comp_def)
    have "delete_loop N p s = Some (Inr (N \<in> set (map (NO \<circ> wp_pool s) (xs @ y # ys)), s'))"
      using f True Cons.prems(3) by (simp add: delete_loop.simps)
    then show ?thesis using s' eq by blast
  next
    case False
    have "\<forall>i \<in> set (xs @ [y]). NO (wp_pool s i) \<noteq> N" using False Cons.prems(2) by auto
    moreover have "pool_shape (wp_pool s) (head s) (free_list s) ((xs @ [y]) @ ys) fs" using sh by simp
    moreover have "links (wp_pool s) (next (wp_pool s y)) ys" using Cons.prems(3) by simp
    moreover have "delete_loop N p s = delete_loop N (next (wp_pool s y)) s"
      using Cons.prems(3) False by (simp add: delete_loop.simps)
    ultimately show ?thesis
      using Cons.IH [of "xs @ [y]" "next (wp_pool s y)"] by simp
  qed
qed

text \<open>\<open>scan_wp_diff\<close> on a pool in shape, against its specification on the list of entries.\<close>

fun scan_spec :: "cfg \<Rightarrow> 'd env \<Rightarrow> (int \<times> string \<times> u32) list \<Rightarrow> ('d, 'z) sdb_scheme
    \<Rightarrow> abort + bool \<times> (int \<times> string \<times> u32) list" where
  "scan_spec c v [] s = Inr (False, [])"
| "scan_spec c v ((n, e, old) # xs) s =
     rbind (expr c v e True s) (\<lambda>(new, ok, s1).
       if \<not> ok then Inl AssertFail
       else if old \<noteq> new then Inr (True, (n, e, new) # xs)
       else rbind (scan_spec c v xs s1) (\<lambda>(b, ys). Inr (b, (n, e, old) # ys)))"

lemma pool_shape_pre:
  "pool_shape p h f hs fs \<Longrightarrow> pool_shape (p(i := (p i)\<lparr>pre_result := x\<rparr>)) h f hs fs"
proof -
  assume sh: "pool_shape p h f hs fs"
  let ?q = "p(i := (p i)\<lparr>pre_result := x\<rparr>)"
  have "NO (?q j) = NO (p j)" "next (?q j) = next (p j)" "e_str (?q j) = e_str (p j)" for j by auto
  moreover from this have "links ?q a xs = links p a xs" for a xs by (intro links_next) 
  ultimately show ?thesis using sh unfolding pool_shape_def by presburger
qed

lemma scan_loop_spec:
  fixes s :: "('a, 'b) wps_scheme"
  assumes "links (wp_pool s) p ys" "distinct ys"
  shows "\<exists>r. scan_loop c v p s = Some r \<and> (case r of
      Inl e \<Rightarrow> scan_spec c v (map (entry \<circ> wp_pool s) ys) s = Inl e
    | Inr (b, s') \<Rightarrow> scan_spec c v (map (entry \<circ> wp_pool s) ys) s
          = Inr (b, map (entry \<circ> wp_pool s') ys)
        \<and> head s' = head s \<and> free_list s' = free_list s
        \<and> (\<exists>i x. wp_pool s' = wp_pool s \<or> i \<in> set ys \<and> wp_pool s' = (wp_pool s)(i := (wp_pool s i)\<lparr>pre_result := x\<rparr>)))"
  using assms
proof (induction ys arbitrary: p s)
  case Nil
  then show ?case by (simp add: scan_loop.simps)
next
  case (Cons y ys)
  have p: "p = Some y" "links (wp_pool s) (next (wp_pool s y)) ys" using Cons.prems(1) by auto
  show ?case
  proof (cases "expr c v (e_str (wp_pool s y)) True s")
    case (Inl e)
    then show ?thesis using p by (subst scan_loop.simps) (simp add: entry_def)
  next
    case (Inr r)
    obtain new ok s1 where r: "r = (new, ok, s1)" by (cases r)
    note ex = Inr [unfolded r]
    note fr = expr_frame [OF ex]
    show ?thesis
    proof (cases "ok \<and> pre_result (wp_pool s y) = new")
      case True
      have "links (wp_pool s1) (next (wp_pool s1 y)) ys" using p(2) fr by simp
      from Cons.IH [OF this] Cons.prems(2) obtain q where
        q: "scan_loop c v (next (wp_pool s1 y)) s1 = Some q" and sp: "(case q of
          Inl e \<Rightarrow> scan_spec c v (map (entry \<circ> wp_pool s1) ys) s1 = Inl e
        | Inr (b, s') \<Rightarrow> scan_spec c v (map (entry \<circ> wp_pool s1) ys) s1
              = Inr (b, map (entry \<circ> wp_pool s') ys)
            \<and> head s' = head s1 \<and> free_list s' = free_list s1
            \<and> (\<exists>i x. wp_pool s' = wp_pool s1 \<or> i \<in> set ys \<and> wp_pool s' = (wp_pool s1)(i := (wp_pool s1 i)\<lparr>pre_result := x\<rparr>)))"
        by auto
      have "scan_loop c v p s = Some q" using q True ex p(1) fr by (subst scan_loop.simps) simp
      moreover have "e y = e' y" if "\<forall>x. x \<noteq> i \<longrightarrow> e x = e' x" "i \<in> set ys" for i and e e' :: "nat \<Rightarrow> 'c"
        using that Cons.prems(2) by auto
      ultimately show ?thesis
        using sp True ex fr Cons.prems(2)
        by (cases q) (auto simp: entry_def)
    next
      case False
      with ex p fr Cons.prems(2) show ?thesis
        by (subst scan_loop.simps) (auto simp: entry_def)
    qed
  qed
qed


section \<open>No operation loops or follows a null pointer\<close>

definition tame :: "abort + 'a \<Rightarrow> bool" where
  "tame r \<longleftrightarrow> r \<noteq> Inl Diverge \<and> r \<noteq> Inl NullDeref"

lemma tame_Inr [simp]: "tame (Inr x)" "tame (Inl AssertFail)" "tame (Inl OutOfBounds)"
  "tame (Inl ArithTrap)" "tame (Inl (Panic m))"
  by (simp_all add: tame_def)

lemma tame_rbind [intro]: "tame r \<Longrightarrow> (\<And>x. r = Inr x \<Longrightarrow> tame (f x)) \<Longrightarrow> tame (rbind r f)"
  by (cases r) (auto simp: tame_def)

lemma tame_pmem_read: "tame (pmem_read c v a s)"
  by (simp add: pmem_read_def mmio_read_def Let_def)

lemma tame_apply_op: "tame (apply_op c v t x y ok s)"
  by (auto simp: apply_op_def tame_pmem_read)

lemma tame_eval:
  fixes s :: "('a, 'b) sim_scheme"
  shows "tame (eval c v tk p q ok s)"
proof (induction c v tk p q ok s rule: eval.induct)
  case (1 c v tk p q ok s)
  show ?case
  proof (cases "q < p \<or> p = q")
    case True
    then show ?thesis by (subst eval.simps) auto
  next
    case False
    then obtain inner ok1 where cp: "check_parentheses tk p q ok = Inr (inner, ok1)"
      by (cases "check_parentheses tk p q ok") (auto simp: check_parentheses_def split: if_splits prod.splits)
    obtain m mok where m: "find_main_op tk p q ok1 = (m, mok)" by fastforce
    show ?thesis
    proof (cases "\<not> inner \<and> mok")
      case True
      with 1(2) False cp m have "m \<noteq> p \<Longrightarrow> tame (eval c v tk p (m - 1) True s)" by auto
      moreover have "tame (eval c v tk (m + 1) q k t)" for k and t :: "('a, 'b) sim_scheme"
        using 1(3) [where b="(inner, ok1)" and x=inner and y=ok1 and xa=m and ya=mok and xb="(0, k, t)"] True False cp m by simp
      ultimately have "m \<noteq> p \<Longrightarrow> tame (eval c v tk p (m - 1) True s)"
        "\<And>k (t :: ('a, 'b) sim_scheme). tame (eval c v tk (m + 1) q k t)" by auto
      with True False cp m show ?thesis
        by (subst eval.simps) (auto simp: tame_apply_op intro!: tame_rbind)
    next
      case other: False
      with False cp m 1(1) show ?thesis
        by (cases inner; subst eval.simps) auto
    qed
  qed
qed

lemma tame_reg_str2val: "tame (reg_str2val v n s)"
proof -
  have "tame (reg_search v n ns i s)" for ns i
    by (induction v n ns i s rule: reg_search.induct) (auto simp: core_read_reg_def)
  then show ?thesis by (simp add: reg_str2val_def)
qed

lemma tame_record_token: "tame (record_token v t w s)"
  by (auto simp: record_token_def put_type_def put_num_def tame_reg_str2val split: tok.splits option.splits)

lemma tame_make_token_loop: "tame (make_token_loop v e s)"
proof (induction v e s rule: make_token_loop.induct)
  case (1 v e s)
  then show ?case by (subst make_token_loop.simps) (auto simp: tame_record_token split: option.splits)
qed

lemma tame_expr: "tame (expr c v e ok s)"
  unfolding expr_def make_token_def Let_def
  by (intro tame_rbind tame_make_token_loop) (auto intro!: tame_rbind tame_eval)

datatype watch_op = SetWp string | DeleteWp int | ScanWp

text \<open>One operation of the debugger on its watchpoints.\<close>

definition watch_step :: "cfg \<Rightarrow> 'd env \<Rightarrow> watch_op \<Rightarrow> ('d, 'z) wps_scheme \<Rightarrow> abort + ('d, 'z) wps_scheme" where
  "watch_step c v x s =
     (case x of
        SetWp e \<Rightarrow> rbind (set_new_wp c v e s) (\<lambda>r. Inr (snd r))
      | DeleteWp N \<Rightarrow> rbind (of_loop (delete_wp N s)) (\<lambda>r. Inr (snd r))
      | ScanWp \<Rightarrow> rbind (of_loop (scan_wp_diff c v s)) (\<lambda>r. Inr (snd r)))"

lemma set_new_wp_inv:
  assumes "wp_inv s" "set_new_wp c v e s = Inr (r, s')"
  shows "wp_inv s'"
proof -
  from assms(1) obtain hs fs where sh: "pool_shape (wp_pool s) (head s) (free_list s) hs fs"
    by (auto simp: wp_inv_def)
  from assms(2) obtain w where nw: "new_wp c v e s = Inr (w, s')"
    by (auto simp: set_new_wp_def rbind_Inr_iff)
  from nw show ?thesis
  proof (cases rule: new_wp_cases)
    case refused
    then show ?thesis using assms(1) by (simp add: wp_inv_def)
  next
    case (taken w n x s1)
    then obtain fs' where "fs = w # fs'" using sh by (cases fs) (auto simp: pool_shape_def)
    with sh new_wp_shape [OF _ taken(5,6,2,7), of hs fs'] taken show ?thesis
      by (auto simp: wp_inv_def)
  qed
qed

lemma tame_new_wp: "tame (new_wp c v e s)"
  unfolding new_wp_def using expr_frame [of c v e True s]
  by (auto simp: tame_expr Let_def split: option.splits)

lemma delete_wp_entries:
  assumes "wp_inv s"
  shows "\<exists>s'. delete_wp N s = Some (Inr (N \<in> fst ` set (entries s), s')) \<and> wp_inv s'
    \<and> entries s' = filter (\<lambda>x. fst x \<noteq> N) (entries s)"
proof -
  from assms obtain hs fs where sh: "pool_shape (wp_pool s) (head s) (free_list s) ([] @ hs) fs"
    by (auto simp: wp_inv_def)
  then have "links (wp_pool s) (head s) hs" by (simp add: pool_shape_def)
  from delete_loop_shape [OF sh _ this, of N] obtain s' hs' fs' where
    "delete_wp N s = Some (Inr (N \<in> set (map (NO \<circ> wp_pool s) hs), s'))"
    and sh': "pool_shape (wp_pool s') (head s') (free_list s') hs' fs'"
    "map (entry \<circ> wp_pool s') hs' = filter (\<lambda>x. fst x \<noteq> N) (map (entry \<circ> wp_pool s) hs)"
    by (auto simp: delete_wp_def)
  moreover have "fst ` set (entries s) = set (map (NO \<circ> wp_pool s) hs)"
    using pool_shape_entries [OF sh] by (simp add: image_comp comp_def)
  ultimately show ?thesis
    using pool_shape_entries [OF sh] pool_shape_entries [OF sh'(1)] unfolding wp_inv_def by auto
qed

lemma scan_wp_diff_entries:
  assumes "wp_inv s"
  shows "\<exists>r. scan_wp_diff c v s = Some r \<and> (case r of
      Inl e \<Rightarrow> scan_spec c v (entries s) s = Inl e
    | Inr (b, s') \<Rightarrow> scan_spec c v (entries s) s = Inr (b, entries s') \<and> wp_inv s')"
proof -
  from assms obtain hs fs where sh: "pool_shape (wp_pool s) (head s) (free_list s) hs fs"
    by (auto simp: wp_inv_def)
  then have l: "links (wp_pool s) (head s) hs" "distinct hs" by (auto simp: pool_shape_def)
  from scan_loop_spec [OF this, of c v] obtain r where r: "scan_wp_diff c v s = Some r" 
    and sp: "case r of
      Inl e \<Rightarrow> scan_spec c v (map (entry \<circ> wp_pool s) hs) s = Inl e
    | Inr (b, s') \<Rightarrow> scan_spec c v (map (entry \<circ> wp_pool s) hs) s
          = Inr (b, map (entry \<circ> wp_pool s') hs)
        \<and> head s' = head s \<and> free_list s' = free_list s
        \<and> (\<exists>i x. wp_pool s' = wp_pool s \<or> i \<in> set hs \<and> wp_pool s' = (wp_pool s)(i := (wp_pool s i)\<lparr>pre_result := x\<rparr>))"
    unfolding scan_wp_diff_def by blast
  have sh': "pool_shape (wp_pool s') (head s') (free_list s') hs fs" if "r = Inr (b, s')" for b s'
    using sp that sh pool_shape_pre [OF sh] by auto
  show ?thesis
  proof (cases r)
    case (Inl e)
    then show ?thesis using r sp pool_shape_entries [OF sh] by simp
  next
    case (Inr bs)
    obtain b s' where bs: "bs = (b, s')" by (cases bs)
    note sh' = sh' [OF Inr [unfolded bs]]
    then have "wp_inv s'" unfolding wp_inv_def by blast
    then show ?thesis
      using r sp pool_shape_entries [OF sh] pool_shape_entries [OF sh'] Inr bs by simp
  qed
qed

lemma tame_scan_spec: "tame (scan_spec c v xs s)"
proof (induction c v xs s rule: scan_spec.induct)
  case (2 c v n e old xs s)
  then show ?case by (auto intro!: tame_rbind tame_expr split: prod.splits)
qed simp

interpretation watch: safe_machine "watch_step c v" wp_inv "\<lambda>e. e \<noteq> Diverge \<and> e \<noteq> NullDeref"
  for c v
proof (unfold_locales, goal_cases)
  case (1 s x s')
  show ?case
  proof (cases x)
    case (SetWp e)
    with 1 show ?thesis by (auto simp: watch_step_def rbind_Inr_iff dest: set_new_wp_inv)
  next
    case (DeleteWp N)
    with 1 delete_wp_entries [OF 1(1), of N] show ?thesis by (auto simp: watch_step_def)
  next
    case ScanWp
    with 1 scan_wp_diff_entries [OF 1(1), of c v] show ?thesis
      by (auto simp: watch_step_def rbind_Inr_iff)
  qed
next
  case (2 s x e)
  have "tame (watch_step c v x s)"
  proof (cases x)
    case (SetWp e)
    then show ?thesis by (auto simp: watch_step_def set_new_wp_def intro!: tame_rbind tame_new_wp)
  next
    case (DeleteWp N)
    with 2 delete_wp_entries [OF 2(1), of N] show ?thesis by (auto simp: watch_step_def)
  next
    case ScanWp
    obtain r where r: "scan_wp_diff c v s = Some r" and sp: "case r of
          Inl e \<Rightarrow> scan_spec c v (entries s) s = Inl e
        | Inr (b, s') \<Rightarrow> scan_spec c v (entries s) s = Inr (b, entries s') \<and> wp_inv s'"
      using scan_wp_diff_entries [OF 2(1), of c v] by blast
    then have "tame r" using tame_scan_spec [of c v "entries s" s] by (cases r) (auto simp: tame_def)
    with r ScanWp show ?thesis by (auto simp: watch_step_def intro!: tame_rbind)
  qed
  with 2 show ?case by (simp add: tame_def)
qed


section \<open>Properties\<close>

lemma watch_init_inv: "wp_inv (init_wp_pool s)"
  using init_shape [of s] by (auto simp: wp_inv_def)

text \<open>C2: from the initial pool, no sequence of operations loops forever or follows a null
  pointer, and after it the pool is two disjoint lists of its 32 nodes again, the used ones in
  strictly decreasing order of their numbers.\<close>

theorem watch_run_safe:
  "case run_ops (watch_step c v) ops (init_wp_pool s) of
     Inl e \<Rightarrow> e \<noteq> Diverge \<and> e \<noteq> NullDeref
   | Inr s' \<Rightarrow> wp_inv s'"
proof (cases "run_ops (watch_step c v) ops (init_wp_pool s)")
  case (Inl e)
  with watch.run_allowed [OF watch_init_inv this] show ?thesis by simp
next
  case (Inr s')
  with watch.run_inv [OF watch_init_inv this] show ?thesis by simp
qed

definition example_wps :: "(u32 \<times> (u32 \<Rightarrow> u32)) wps" where
  "example_wps = init_wp_pool (sdb.extend example_sdb
     \<lparr>wp_pool = (\<lambda>_. \<lparr>NO = 0, next = None, e_str = [], pre_result = 0\<rparr>), head = None, free_list = None\<rparr>)"

lemma example_wps_simps: "wp_inv example_wps" "head example_wps = None" "free_list example_wps = Some 0"
  "entries example_wps = []"
  by (simp_all add: example_wps_def watch_init_inv) (simp_all add: init_wp_pool_def entries_def print_wp_info_def info_loop.simps)

lemma example_set:
  "\<exists>s'. set_new_wp kconfig_defaults example_env ''7'' example_wps = Inr (Some 1, s')
     \<and> entries s' = [(1, ''7'', 7)] \<and> wp_inv s'"
proof -
  obtain tk where "expr kconfig_defaults example_env (render 0 (Dec ''7'')) True example_wps =
    rbind (sem kconfig_defaults example_env (Dec ''7'') True (example_wps\<lparr>nr_token := length (toks (Dec ''7'')), tokens := tk\<rparr>))
      (\<lambda>r. Inr (if fst (snd r) then fst r else 0, fst (snd r), snd (snd r)))"
    by (rule expr_sem [of "Dec ''7''" 0 kconfig_defaults example_env True example_wps])
       (auto simp: is_digit_def NR_TOKENS_def)
  then have ex: "expr kconfig_defaults example_env ''7'' True example_wps
      = Inr (7, True, example_wps\<lparr>nr_token := 1, tokens := tk\<rparr>)"
    by (simp add: render_def host_atoi_digits is_digit_def digit_val_def strtol_clamp_def)
  then obtain s' where s': "set_new_wp kconfig_defaults example_env ''7'' example_wps = Inr (Some 1, s')"
    "head s' = Some 0" "wp_pool s' 0 = \<lparr>NO = 1, next = None, e_str = ''7'', pre_result = 7\<rparr>"
    by (auto simp: set_new_wp_def new_wp_def example_wps_simps)
  then show ?thesis
    using set_new_wp_inv [OF example_wps_simps(1) s'(1)]
    by (simp add: entries_def print_wp_info_def info_loop.simps)
qed

text \<open>Setting a watchpoint that succeeds adds it, with the current value of its expression
  and the next number, in front of the list the user sees; a refused one changes nothing.\<close>

theorem set_new_wp_spec:
  assumes "wp_inv s" "set_new_wp c v e s = Inr (r, s')"
  shows "case r of
      None \<Rightarrow> entries s' = entries s
    | Some n \<Rightarrow> \<exists>x s1. expr c v e True s = Inr (x, True, s1) \<and> entries s' = (n, e, x) # entries s
        \<and> n = (case entries s of [] \<Rightarrow> 1 | (k, _) # _ \<Rightarrow> k + 1) \<and> n \<notin> fst ` set (entries s)"
proof -
  from assms(1) obtain hs fs where sh: "pool_shape (wp_pool s) (head s) (free_list s) hs fs"
    by (auto simp: wp_inv_def)
  note ent = pool_shape_entries [OF sh]
  from assms(2) obtain w where nw: "new_wp c v e s = Inr (w, s')" and r: "r = map_option (\<lambda>w. NO (wp_pool s' w)) w"
    by (auto simp: set_new_wp_def rbind_Inr_iff)
  from nw show ?thesis
  proof (cases rule: new_wp_cases)
    case refused
    then show ?thesis using r by (simp add: entries_def print_wp_info_def)
  next
    case (taken w n x s1)
    then obtain fs' where fs: "fs = w # fs'" using sh by (cases fs) (auto simp: pool_shape_def)
    have w: "w \<notin> set hs" using sh fs by (auto simp: pool_shape_def)
    from sh new_wp_shape [OF _ taken(5,6,2,7), of hs fs'] taken fs
    have sh': "pool_shape (wp_pool s') (head s') (free_list s') (w # hs) fs'" by simp
    have "map (entry \<circ> wp_pool s') hs = map (entry \<circ> wp_pool s) hs"
      using w taken(7) by auto
    then have "entries s' = (n, e, x) # entries s"
      using pool_shape_entries [OF sh'] ent taken(7) by (simp add: entry_def)
    moreover have "n = (case entries s of [] \<Rightarrow> 1 | (k, _) # _ \<Rightarrow> k + 1)"
      using taken(5) sh ent by (cases hs) (auto simp: pool_shape_def entry_def)
    moreover have "n \<notin> fst ` set (entries s)"
      using taken(5) sh ent by (cases hs) (auto simp: pool_shape_def entry_def)
    ultimately show ?thesis using taken r by (auto simp: taken(7))
  qed
qed

lemma set_new_wp_spec_witness:
  "\<exists>s'. set_new_wp kconfig_defaults example_env ''7'' example_wps = Inr (Some 1, s')
     \<and> (\<exists>x. entries s' = [(1, ''7'', x)])"
proof -
  obtain s' where s': "set_new_wp kconfig_defaults example_env ''7'' example_wps = Inr (Some 1, s')"
    using example_set by blast
  from set_new_wp_spec [OF example_wps_simps(1) this] s' show ?thesis
    by (auto simp: example_wps_simps)
qed

text \<open>Deleting watchpoint \<open>N\<close> returns, reports whether there was one, and removes exactly
  that one from the list the user sees.\<close>

theorem delete_wp_spec:
  assumes "wp_inv s"
  shows "\<exists>s'. delete_wp N s = Some (Inr (N \<in> fst ` set (entries s), s'))
    \<and> entries s' = filter (\<lambda>x. fst x \<noteq> N) (entries s)"
  using delete_wp_entries [OF assms] by blast

lemma delete_wp_spec_witness:
  "\<exists>s s' s''. entries s = [(1, ''7'', 7)]
     \<and> delete_wp 1 (s :: (u32 \<times> (u32 \<Rightarrow> u32)) wps) = Some (Inr (True, s')) \<and> entries s' = []
     \<and> delete_wp 2 s = Some (Inr (False, s'')) \<and> entries s'' = entries s"
proof -
  obtain s :: "(u32 \<times> (u32 \<Rightarrow> u32)) wps" where s: "wp_inv s" "entries s = [(1, ''7'', 7)]"
    using example_set by blast
  show ?thesis using delete_wp_spec [OF s(1), of 1] delete_wp_spec [OF s(1), of 2] s(2) by auto
qed

text \<open>C32: a scan returns and refines its specification on the list of watchpoints: it
  reports the first one whose expression has a new value, and records that value.\<close>

theorem scan_wp_diff_refines:
  assumes "wp_inv s"
  shows "map_option (map_sum id (\<lambda>(b, s'). (b, entries s'))) (scan_wp_diff c v s)
    = Some (scan_spec c v (entries s) s)"
proof -
  obtain r where r: "scan_wp_diff c v s = Some r" and sp: "case r of
          Inl e \<Rightarrow> scan_spec c v (entries s) s = Inl e
        | Inr (b, s') \<Rightarrow> scan_spec c v (entries s) s = Inr (b, entries s') \<and> wp_inv s'"
    using scan_wp_diff_entries [OF assms] by blast
  then show ?thesis by (cases r) auto
qed


lemma scan_wp_diff_refines_witness:
  "\<exists>s. entries s = [(1, ''7'', 7)] \<and>
    map_option (map_sum id (\<lambda>(b, s'). (b, entries s'))) (scan_wp_diff kconfig_defaults example_env s)
      = Some (scan_spec kconfig_defaults example_env [(1, ''7'', 7)] (s :: (u32 \<times> (u32 \<Rightarrow> u32)) wps))"
proof -
  obtain s :: "(u32 \<times> (u32 \<Rightarrow> u32)) wps" where s: "wp_inv s" "entries s = [(1, ''7'', 7)]"
    using example_set by blast
  show ?thesis using scan_wp_diff_refines [OF s(1), of kconfig_defaults example_env] s(2) by auto
qed

end
