(* ===== verification/NpcTrace.thy ===== *)
theory NpcTrace imports SdbWatch begin

text \<open>
  The instruction ring of \<open>core/csrc/cpu/cpu-exec.cpp\<close> and the function tracer of
  \<open>core/csrc/monitor/sdb/ftrace.cpp\<close>: its list of functions, read from the image's ELF
  symbol tables, and its ring of call and return messages.  The list grows at the head only, so it
  is a HOL list and a \<open>FPOOL *\<close> a position in it.  The \<open>Decode\<close> record's \<open>dnpc\<close>, which
  \<open>ftrace_rcd\<close> reads, is never assigned by the simulator: here it is whatever the record holds.
\<close>

unbundle bit_operations_syntax

section \<open>Rings\<close>

text \<open>What a ring buffer promises: it holds the last \<open>size\<close> things pushed.\<close>

locale ring_buffer =
  fixes push :: "'o \<Rightarrow> 'r \<Rightarrow> 'r"
    and img :: "'o \<Rightarrow> 'a"
    and newest :: "'r \<Rightarrow> 'a list"
    and wf :: "'r \<Rightarrow> bool"
    and size_of :: nat
  assumes wf_push: "wf r \<Longrightarrow> wf (push x r)"
    and length_newest: "wf r \<Longrightarrow> length (newest r) = size_of"
    and newest_push: "wf r \<Longrightarrow> newest (push x r) = take size_of (img x # newest r)"
begin

lemma newest_pushes:
  "wf r \<Longrightarrow> wf (fold push xs r) \<and> newest (fold push xs r) = take size_of (rev (map img xs) @ newest r)"
proof (induction xs rule: rev_induct)
  case (snoc x xs)
  then have "newest (push x (fold push xs r)) = take size_of (img x # take size_of (rev (map img xs) @ newest r))"
    using newest_push by simp
  also have "\<dots> = take size_of (img x # rev (map img xs) @ newest r)"
    by (cases size_of) (simp_all add: min_def)
  finally show ?case using snoc wf_push by simp
qed (simp add: length_newest)

end

text \<open>The ring both tracers use: an array, a current position, and an increment that wraps.\<close>

definition ring_next :: "nat \<Rightarrow> nat \<Rightarrow> nat" where
  "ring_next n p = (if n \<le> p + 1 then 0 else p + 1)"

text \<open>The \<open>n\<close> entries of a ring from position \<open>p\<close> backwards.\<close>

definition ring_back :: "nat \<Rightarrow> (nat \<Rightarrow> 'a) \<Rightarrow> nat \<Rightarrow> 'a list" where
  "ring_back n buf p = map (\<lambda>k. buf ((p + n - k) mod n)) [0..<n]"

lemma length_ring_back [simp]: "length (ring_back n buf p) = n"
  by (simp add: ring_back_def)

lemma ring_next_mod: "p < n \<Longrightarrow> ring_next n p = (p + 1) mod n"
  by (auto simp: ring_next_def mod_Suc)

lemma ring_next_less: "p < n \<Longrightarrow> ring_next n p < n"
  by (auto simp: ring_next_def)

lemma ring_back_write:
  assumes "p < n"
  shows "ring_back n (buf(ring_next n p := x)) (ring_next n p) = take n (x # ring_back n buf p)"
proof (rule nth_equalityI)
  fix i assume "i < length (ring_back n (buf(ring_next n p := x)) (ring_next n p))"
  then have i: "i < n" by simp
  have n0: "0 < n" using assms by simp
  have q: "ring_next n p < n" using ring_next_less [OF assms] .
  show "ring_back n (buf(ring_next n p := x)) (ring_next n p) ! i = take n (x # ring_back n buf p) ! i"
  proof (cases i)
    case 0
    have "(ring_next n p + n) mod n = ring_next n p" using q by simp
    then show ?thesis using n0 0 by (simp add: ring_back_def)
  next
    case (Suc k)
    have "(ring_next n p + n - i) mod n = (p + n - k) mod n"
    proof (cases "p + 1 = n")
      case True
      then have "ring_next n p + n - i = p - k" "p + n - k = (p - k) + n"
        using Suc i by (auto simp: ring_next_def)
      then show ?thesis by simp
    next
      case False
      with assms have "ring_next n p = p + 1" by (simp add: ring_next_def)
      then have "ring_next n p + n - i = p + n - k" using Suc by simp
      then show ?thesis by simp
    qed
    moreover have "(ring_next n p + n - i) mod n \<noteq> ring_next n p"
    proof (cases "i \<le> ring_next n p")
      case True
      then have e: "ring_next n p + n - i = (ring_next n p - i) + n" by simp
      have "(ring_next n p + n - i) mod n = ring_next n p - i" unfolding e using q by simp
      then show ?thesis using True Suc by linarith
    next
      case False
      then have "(ring_next n p + n - i) mod n = ring_next n p + n - i" using i by (intro mod_less) linarith
      then show ?thesis using i by linarith
    qed
    ultimately show ?thesis using i Suc by (simp add: ring_back_def)
  qed
qed simp

section \<open>State\<close>

record decode =
  d_pc :: u32
  d_dnpc :: u32
  d_inst :: u32
  logbuf :: string

datatype inst_type = TYPE_OTHER | TYPE_CALL | TYPE_RET

record fpool =
  fname :: string
  faddr :: u32
  fsize :: u32

record fbuf =
  num :: int
  pcbuf :: string
  message :: string
  btype :: inst_type

record 'd trc = "'d wps" +
  iringbuf :: "nat \<Rightarrow> string"
  iring_ptr :: nat
  fringbuf :: "nat \<Rightarrow> fbuf"
  fringbuf_ptr :: nat
  stack_ptr :: int
  fhead :: "fpool list"

definition IRING_SIZE :: nat where "IRING_SIZE = 16"
definition FRING_SIZE :: nat where "FRING_SIZE = 50"

section \<open>The instruction ring\<close>

definition iringbuf_push :: "string \<Rightarrow> ('d, 'z) trc_scheme \<Rightarrow> ('d, 'z) trc_scheme" where
  "iringbuf_push ibuf s =
     (let p = (if IRING_SIZE \<le> iring_ptr s + 1 then 0 else iring_ptr s + 1)
      in s\<lparr>iring_ptr := p, iringbuf := (iringbuf s)(p := ibuf)\<rparr>)"

text \<open>The lines \<open>iringbuf_print\<close> prints; the flag is the arrow at the last instruction.\<close>

definition iringbuf_print :: "('d, 'z) trc_scheme \<Rightarrow> (bool \<times> string) list" where
  "iringbuf_print s =
     map (\<lambda>i. (i = iring_ptr s, iringbuf s i)) (filter (\<lambda>i. iringbuf s i \<noteq> []) [0..<IRING_SIZE])"

definition iring_recent :: "('d, 'z) trc_scheme \<Rightarrow> string list" where
  "iring_recent s = ring_back IRING_SIZE (iringbuf s) (iring_ptr s)"

interpretation iring: ring_buffer iringbuf_push id iring_recent "\<lambda>s. iring_ptr s < IRING_SIZE" IRING_SIZE
proof
  fix s :: "('a, 'b) trc_scheme" and x
  assume "iring_ptr s < IRING_SIZE"
  from ring_back_write [OF this, of "iringbuf s" x]
  show "iring_recent (iringbuf_push x s) = take IRING_SIZE (id x # iring_recent s)"
    by (simp add: iringbuf_push_def iring_recent_def Let_def ring_next_def)
qed (auto simp: iringbuf_push_def iring_recent_def IRING_SIZE_def Let_def)


section \<open>The function list\<close>

definition new_fp :: "string \<Rightarrow> u32 \<Rightarrow> u32 \<Rightarrow> ('d, 'z) trc_scheme \<Rightarrow> abort + ('d, 'z) trc_scheme" where
  "new_fp name addr sz s =
     (if 32 \<le> length name then Inl OutOfBounds
      else Inr (s\<lparr>fhead := \<lparr>fname = name, faddr = addr, fsize = sz\<rparr> # fhead s\<rparr>))"

definition free_fp :: "('d, 'z) trc_scheme \<Rightarrow> ('d, 'z) trc_scheme" where
  "free_fp s = s\<lparr>fhead := []\<rparr>"

text \<open>\<open>pc_compare\<close>: the position of the first function whose range, in 32 bit arithmetic,
  holds \<open>pc\<close>.\<close>

fun pc_compare_from :: "nat \<Rightarrow> u32 \<Rightarrow> fpool list \<Rightarrow> nat option" where
  "pc_compare_from i p [] = None"
| "pc_compare_from i p (f # fs) =
     (if faddr f \<le> p \<and> p < faddr f + fsize f then Some i else pc_compare_from (Suc i) p fs)"

definition pc_compare :: "u32 \<Rightarrow> ('d, 'z) trc_scheme \<Rightarrow> nat option" where
  "pc_compare p s = pc_compare_from 0 p (fhead s)"

definition pc_compare_off :: "u32 \<Rightarrow> ('d, 'z) trc_scheme \<Rightarrow> bool" where
  "pc_compare_off p s = list_ex (\<lambda>f. p = faddr f) (fhead s)"

definition print_funct_info :: "('d, 'z) trc_scheme \<Rightarrow> string list" where
  "print_funct_info s = map fname (fhead s)"

section \<open>The ring of calls and returns\<close>

definition hex_digit :: "u32 \<Rightarrow> char" where
  "hex_digit w = (if w < 10 then char_of (48 + unat w) else char_of (87 + unat w))"

text \<open>\<open>%08x\<close> of a 32 bit value.\<close>

definition hex8 :: "u32 \<Rightarrow> string" where
  "hex8 w = map (\<lambda>i. hex_digit (drop_bit (4 * i) w AND 0xf)) [7, 6, 5, 4, 3, 2, 1, 0]"

definition fringbuf_push :: "inst_type \<Rightarrow> u32 \<Rightarrow> string \<Rightarrow> int \<Rightarrow> ('d, 'z) trc_scheme \<Rightarrow> ('d, 'z) trc_scheme" where
  "fringbuf_push t p msg stack_num s =
     (let i = fringbuf_ptr s in
      s\<lparr>fringbuf := (fringbuf s)(i := \<lparr>num = stack_num, pcbuf = ''0x'' @ hex8 p @ '':'', message = msg, btype = t\<rparr>),
        fringbuf_ptr := (if FRING_SIZE \<le> i + 1 then 0 else i + 1)\<rparr>)"

text \<open>The lines \<open>ftrace_print\<close> prints: the program counter, the spaces, the message.\<close>

definition ftrace_print :: "('d, 'z) trc_scheme \<Rightarrow> (string \<times> string \<times> string) list" where
  "ftrace_print s =
     map (\<lambda>b. (pcbuf b, replicate (nat (num b)) CHR '' '', message b))
       (filter (\<lambda>b. message b \<noteq> [])
         (map (\<lambda>i. fringbuf s (if fringbuf_ptr s + i < FRING_SIZE then fringbuf_ptr s + i
            else fringbuf_ptr s + i - FRING_SIZE)) [0..<FRING_SIZE]))"

text \<open>\<open>ftrace_rcd\<close>.  Two functions have the same \<open>name\<close> pointer when they are the same node; a
  null \<open>current_fp\<close> differs from every node and is dereferenced by the message of a return.\<close>

definition ftrace_rcd :: "decode \<Rightarrow> ('d, 'z) trc_scheme \<Rightarrow> abort + ('d, 'z) trc_scheme" where
  "ftrace_rcd d s =
     (let inst = d_inst d; rd = (drop_bit 7 inst AND 0x1f) in
      if fhead s = [] then Inr s
      else if inst AND 0x77 \<noteq> 0x67 then Inr s
      else case pc_compare (d_dnpc d) s of
        None \<Rightarrow> Inr (fringbuf_push TYPE_OTHER (d_pc d) ''call/ret [???]'' (stack_ptr s) s)
      | Some nxt \<Rightarrow>
          if rd \<noteq> 0 \<and> pc_compare_off (d_dnpc d) s then
            Inr (fringbuf_push TYPE_CALL (d_pc d)
                   (''call ['' @ fname (fhead s ! nxt) @ ''@0x'' @ hex8 (faddr (fhead s ! nxt)) @ '']'')
                   (stack_ptr s) s \<lparr>stack_ptr := stack_ptr s + 1\<rparr>)
          else if inst AND 0x7f = 0x67 \<and> rd = 0 \<and> faddr (fhead s ! nxt) \<noteq> d_dnpc d
              \<and> pc_compare (d_pc d) s \<noteq> Some nxt then
            (case pc_compare (d_pc d) s of
               None \<Rightarrow> Inl NullDeref
             | Some cur \<Rightarrow>
                 if stack_ptr s = 0 then Inl (Panic ''return before call'')
                 else Inr (fringbuf_push TYPE_RET (d_pc d) (''ret ['' @ fname (fhead s ! cur) @ '']'')
                             (stack_ptr s - 1) s \<lparr>stack_ptr := stack_ptr s - 1\<rparr>))
          else Inr s)"

definition fring_recent :: "('d, 'z) trc_scheme \<Rightarrow> fbuf list" where
  "fring_recent s = ring_back FRING_SIZE (fringbuf s) ((fringbuf_ptr s + FRING_SIZE - 1) mod FRING_SIZE)"


interpretation fring: ring_buffer "\<lambda>(t, p, msg, n). fringbuf_push t p msg n"
    "\<lambda>(t, p, msg, n). \<lparr>num = n, pcbuf = ''0x'' @ hex8 p @ '':'', message = msg, btype = t\<rparr>"
    fring_recent "\<lambda>s. fringbuf_ptr s < FRING_SIZE" FRING_SIZE
proof
  fix s :: "('a, 'b) trc_scheme" and x :: "inst_type \<times> u32 \<times> string \<times> int"
  assume s: "fringbuf_ptr s < FRING_SIZE"
  obtain t p msg n where x: "x = (t, p, msg, n)" by (cases x)
  let ?q = "(fringbuf_ptr s + FRING_SIZE - 1) mod FRING_SIZE"
  have q: "?q < FRING_SIZE" "ring_next FRING_SIZE ?q = fringbuf_ptr s"
    using s by (cases "fringbuf_ptr s"; simp add: FRING_SIZE_def ring_next_def)+
  have n: "((if FRING_SIZE \<le> fringbuf_ptr s + 1 then 0 else fringbuf_ptr s + 1) + FRING_SIZE - 1) mod FRING_SIZE = fringbuf_ptr s"
    using s by (auto simp: FRING_SIZE_def)
  from ring_back_write [OF q(1), of "fringbuf s"] q(2) n
  show "fring_recent ((\<lambda>(t, p, msg, n). fringbuf_push t p msg n) x s)
    = take FRING_SIZE ((\<lambda>(t, p, msg, n). \<lparr>num = n, pcbuf = ''0x'' @ hex8 p @ '':'', message = msg, btype = t\<rparr>) x # fring_recent s)"
    by (simp add: fringbuf_push_def fring_recent_def Let_def x)
qed (auto simp: fringbuf_push_def fring_recent_def FRING_SIZE_def Let_def)

section \<open>The symbol tables of an ELF file\<close>

text \<open>Little endian fields of the file; a read outside the buffer is an abort.\<close>

definition rd_bytes :: "u8 list \<Rightarrow> int \<Rightarrow> nat \<Rightarrow> abort + u8 list" where
  "rd_bytes buf off n =
     (if 0 \<le> off \<and> nat off + n \<le> length buf then Inr (take n (drop (nat off) buf)) else Inl OutOfBounds)"

definition le_val :: "u8 list \<Rightarrow> int" where
  "le_val bs = foldr (\<lambda>b n. uint b + 256 * n) bs 0"

definition rd_le :: "u8 list \<Rightarrow> int \<Rightarrow> nat \<Rightarrow> abort + int" where
  "rd_le buf off n = rbind (rd_bytes buf off n) (\<lambda>bs. Inr (le_val bs))"

text \<open>A C string of the file.\<close>

definition rd_str :: "u8 list \<Rightarrow> int \<Rightarrow> abort + string" where
  "rd_str buf off =
     (if off < 0 \<or> int (length buf) \<le> off then Inl OutOfBounds
      else let cs = drop (nat off) buf in
        if 0 \<in> set cs then Inr (map (\<lambda>b. char_of (unat b)) (takeWhile (\<lambda>b. b \<noteq> 0) cs))
        else Inl OutOfBounds)"

text \<open>The loop over the \<open>k\<close> symbols from \<open>sym\<close> on.\<close>

fun sym_loop :: "u8 list \<Rightarrow> int \<Rightarrow> int \<Rightarrow> nat \<Rightarrow> ('d, 'z) trc_scheme \<Rightarrow> abort + ('d, 'z) trc_scheme" where
  "sym_loop buf strtab sm 0 s = Inr s"
| "sym_loop buf strtab sm (Suc k) s =
     rbind (rd_le buf (sm + 12) 1) (\<lambda>info.
     rbind (rd_le buf (sm + 14) 2) (\<lambda>shndx.
     rbind (if info mod 16 = 2 \<and> shndx \<noteq> 0 then
              rbind (rd_le buf sm 4) (\<lambda>name.
                if name = 0 then Inr s
                else rbind (rd_str buf (strtab + name)) (\<lambda>str.
                     rbind (rd_le buf (sm + 4) 4) (\<lambda>value.
                     rbind (rd_le buf (sm + 8) 4) (\<lambda>sz.
                       new_fp str (of_int value) (of_int sz) s))))
            else Inr s) (\<lambda>s'. sym_loop buf strtab (sm + 16) k s')))"

text \<open>The loop over the \<open>k\<close> section headers from \<open>shdr\<close> on.\<close>

fun section_loop :: "u8 list \<Rightarrow> int \<Rightarrow> int \<Rightarrow> int \<Rightarrow> nat \<Rightarrow> ('d, 'z) trc_scheme \<Rightarrow> abort + ('d, 'z) trc_scheme" where
  "section_loop buf shoff shentsize shdr 0 s = Inr s"
| "section_loop buf shoff shentsize shdr (Suc k) s =
     rbind (rd_le buf (shdr + 4) 4) (\<lambda>sh_type.
     rbind (if sh_type \<noteq> 2 \<and> sh_type \<noteq> 11 then Inr s
            else
              rbind (rd_le buf (shdr + 16) 4) (\<lambda>sh_offset.
              rbind (rd_le buf (shdr + 20) 4) (\<lambda>sh_size.
              rbind (rd_le buf (shdr + 36) 4) (\<lambda>sh_entsize.
                if sh_entsize = 0 then Inl ArithTrap
                else rbind (rd_le buf (shdr + 24) 4) (\<lambda>sh_link.
                     rbind (rd_le buf (shoff + sint (of_int sh_link :: u32) * shentsize + 16) 4) (\<lambda>str_offset.
                       sym_loop buf str_offset sh_offset (nat (sint (of_int (sh_size div sh_entsize) :: u32))) s))))))
       (\<lambda>s'. section_loop buf shoff shentsize (shdr + 40) k s'))"

text \<open>\<open>init_ftrace (buffer)\<close>: \<open>None\<close> is the null pointer.\<close>

definition init_ftrace :: "u8 list option \<Rightarrow> ('d, 'z) trc_scheme \<Rightarrow> abort + ('d, 'z) trc_scheme" where
  "init_ftrace buffer s =
     (case buffer of
        None \<Rightarrow> Inr s
      | Some buf \<Rightarrow>
          rbind (rd_bytes buf 0 4) (\<lambda>ident.
            if ident \<noteq> [0x7f, 0x45, 0x4c, 0x46] then Inl AssertFail
            else rbind (rd_le buf 32 4) (\<lambda>shoff.
                 rbind (rd_le buf 46 2) (\<lambda>shentsize.
                 rbind (rd_le buf 48 2) (\<lambda>shnum.
                   section_loop buf shoff shentsize shoff (nat shnum) s)))))"


section \<open>Properties\<close>

text \<open>After any pushes the instruction ring holds the last 16 instructions: the newest
  \<open>16\<close> of those pushed, and behind them what it held before.\<close>

theorem iring_holds_last:
  assumes "iring_ptr s < IRING_SIZE"
  shows "iring_recent (fold iringbuf_push xs s) = take IRING_SIZE (rev xs @ iring_recent s)"
  using iring.newest_pushes [OF assms, of xs] by simp

text \<open>The state of the tracer before the first instruction, for closed examples.\<close>

definition example_trc :: "(u32 \<times> (u32 \<Rightarrow> u32)) trc" where
  "example_trc = wps.extend example_wps
     \<lparr>iringbuf = (\<lambda>_. []), iring_ptr = 0,
      fringbuf = (\<lambda>_. \<lparr>num = 0, pcbuf = [], message = [], btype = TYPE_OTHER\<rparr>), fringbuf_ptr = 0,
      stack_ptr = 0, fhead = []\<rparr>"

lemma iring_holds_last_witness:
  "iring_recent (fold iringbuf_push [''a'', ''b''] example_trc) = [''b'', ''a''] @ replicate 14 []"
proof -
  have "iring_recent example_trc = replicate 16 []"
    by (simp add: iring_recent_def ring_back_def example_trc_def wps.defs map_replicate_const IRING_SIZE_def)
  moreover have "iring_ptr example_trc < IRING_SIZE"
    by (simp add: example_trc_def wps.defs IRING_SIZE_def)
  ultimately show ?thesis
    using iring_holds_last [of example_trc "[''a'', ''b'']"] by (simp add: IRING_SIZE_def)
qed

text \<open>The depth of the call stack as \<open>ftrace_rcd\<close> counts it.\<close>

definition ftrace_inv :: "('d, 'z) trc_scheme \<Rightarrow> bool" where
  "ftrace_inv s \<longleftrightarrow> fringbuf_ptr s < FRING_SIZE \<and> 0 \<le> stack_ptr s
     \<and> (\<forall>i < FRING_SIZE. 0 \<le> num (fringbuf s i))"

lemma ftrace_inv_push: "ftrace_inv s \<Longrightarrow> 0 \<le> n \<Longrightarrow> ftrace_inv (fringbuf_push t p msg n s)"
  by (auto simp: ftrace_inv_def fringbuf_push_def Let_def FRING_SIZE_def)

interpretation ftrace: guarded_machine ftrace_rcd ftrace_inv
proof
  fix s s' :: "('a, 'b) trc_scheme" and d
  assume inv: "ftrace_inv s" and r: "ftrace_rcd d s = Inr s'"
  have st: "ftrace_inv (s1\<lparr>stack_ptr := n\<rparr>)" if "ftrace_inv s1" "0 \<le> n" for s1 :: "('a, 'b) trc_scheme" and n
    using that by (simp add: ftrace_inv_def)
  have "0 \<le> stack_ptr s" using inv by (simp add: ftrace_inv_def)
  with r inv show "ftrace_inv s'"
    by (auto simp: ftrace_rcd_def Let_def intro!: ftrace_inv_push st split: if_splits option.splits)
qed


lemma ftrace_run_inv: "ftrace_inv s \<Longrightarrow> run_ops ftrace_rcd ds s = Inr s' \<Longrightarrow> ftrace_inv s'"
  by (rule ftrace.run_inv)

text \<open>Over any run the tracer's ring index stays inside the ring and its call depth, which
  \<open>ftrace_print\<close> uses as a number of spaces, never goes below zero: a return without a call
  panics instead.\<close>

theorem ftrace_depth:
  assumes "ftrace_inv s" "run_ops ftrace_rcd ds s = Inr s'"
  shows "fringbuf_ptr s' < FRING_SIZE \<and> 0 \<le> stack_ptr s'
    \<and> (\<forall>b \<in> set (fring_recent s'). 0 \<le> num b)"
proof -
  have "ftrace_inv s'" using ftrace.run_inv [OF assms] .
  then show ?thesis by (auto simp: ftrace_inv_def fring_recent_def ring_back_def FRING_SIZE_def)
qed

lemma ftrace_depth_witness:
  "let s = example_trc\<lparr>fhead := [\<lparr>fname = ''f'', faddr = 0x80000010, fsize = 8\<rparr>]\<rparr>;
       call = \<lparr>d_pc = 0x80000000, d_dnpc = 0x80000010, d_inst = 0x010000ef, logbuf = []\<rparr>
   in \<exists>s'. run_ops ftrace_rcd [call] s = Inr s' \<and> stack_ptr s' = 1 \<and> fringbuf_ptr s' < FRING_SIZE"
proof -
  let ?s = "example_trc\<lparr>fhead := [\<lparr>fname = ''f'', faddr = 0x80000010, fsize = 8\<rparr>]\<rparr>"
  let ?call = "\<lparr>d_pc = 0x80000000, d_dnpc = 0x80000010, d_inst = 0x010000ef, logbuf = []\<rparr>"
  have inv: "ftrace_inv ?s" by (simp add: ftrace_inv_def example_trc_def wps.defs FRING_SIZE_def)
  obtain s' where s': "run_ops ftrace_rcd [?call] ?s = Inr s'" "stack_ptr s' = 1"
    by (simp add: ftrace_rcd_def Let_def pc_compare_def pc_compare_off_def example_trc_def wps.defs fringbuf_push_def)
  from ftrace_depth [OF inv s'(1)] s' show ?thesis by (auto simp: Let_def)
qed

text \<open>A function symbol of an ELF file: a defined symbol of type \<open>STT_FUNC\<close> with a name.\<close>

definition func_symbol :: "u8 list \<Rightarrow> fpool \<Rightarrow> bool" where
  "func_symbol buf f \<longleftrightarrow> (\<exists>sm strtab info shndx name value sz.
     rd_le buf (sm + 12) 1 = Inr info \<and> info mod 16 = 2 \<and> rd_le buf (sm + 14) 2 = Inr shndx \<and> shndx \<noteq> 0
     \<and> rd_le buf sm 4 = Inr name \<and> name \<noteq> 0 \<and> rd_str buf (strtab + name) = Inr (fname f)
     \<and> rd_le buf (sm + 4) 4 = Inr value \<and> faddr f = of_int value
     \<and> rd_le buf (sm + 8) 4 = Inr sz \<and> fsize f = of_int sz \<and> length (fname f) < 32)"

definition adds_funcs :: "u8 list \<Rightarrow> ('d, 'z) trc_scheme \<Rightarrow> ('d, 'z) trc_scheme \<Rightarrow> bool" where
  "adds_funcs buf s s' \<longleftrightarrow>
     (\<exists>fs. s' = s\<lparr>fhead := fs @ fhead s\<rparr> \<and> (\<forall>f \<in> set fs. func_symbol buf f))"

lemma adds_funcs_refl: "adds_funcs buf s s"
  unfolding adds_funcs_def by (rule exI [of _ "[]"]) simp

lemma adds_funcs_trans: "adds_funcs buf s t \<Longrightarrow> adds_funcs buf t u \<Longrightarrow> adds_funcs buf s u"
  unfolding adds_funcs_def
  by (elim exE conjE, rule_tac x="fsa @ fs" in exI) auto

lemma sym_loop_adds: "sym_loop buf strtab sm k s = Inr s' \<Longrightarrow> adds_funcs buf s s'"
proof (induction k arbitrary: sm s)
  case (Suc k)
  then obtain info shndx t where r: "rd_le buf (sm + 12) 1 = Inr info" "rd_le buf (sm + 14) 2 = Inr shndx"
    and t: "(if info mod 16 = 2 \<and> shndx \<noteq> 0 then
              rbind (rd_le buf sm 4) (\<lambda>name.
                if name = 0 then Inr s
                else rbind (rd_str buf (strtab + name)) (\<lambda>str.
                     rbind (rd_le buf (sm + 4) 4) (\<lambda>value.
                     rbind (rd_le buf (sm + 8) 4) (\<lambda>sz.
                       new_fp str (of_int value) (of_int sz) s))))
            else Inr s) = Inr t" and l: "sym_loop buf strtab (sm + 16) k t = Inr s'"
    by (auto simp: rbind_Inr_iff)
  have "adds_funcs buf s t"
  proof (cases "t = s")
    case False
    with t obtain nam nm val sz where *: "info mod 16 = 2" "shndx \<noteq> 0" "rd_le buf sm 4 = Inr nam" "nam \<noteq> 0"
      "rd_str buf (strtab + nam) = Inr nm" "rd_le buf (sm + 4) 4 = Inr val" "rd_le buf (sm + 8) 4 = Inr sz"
      "new_fp nm (of_int val) (of_int sz) s = Inr t"
      by (auto simp: rbind_Inr_iff split: if_splits)
    let ?f = "\<lparr>fname = nm, faddr = of_int val, fsize = of_int sz\<rparr>"
    have "func_symbol buf ?f"
      unfolding func_symbol_def using r * by (fastforce simp: new_fp_def split: if_splits)
    moreover have "t = s\<lparr>fhead := [?f] @ fhead s\<rparr>" using * by (auto simp: new_fp_def split: if_splits)
    ultimately show ?thesis unfolding adds_funcs_def by fastforce
  qed (simp add: adds_funcs_refl)
  from adds_funcs_trans [OF this Suc.IH [OF l]] show ?case .
qed (simp add: adds_funcs_refl)

lemma section_loop_adds: "section_loop buf shoff ent shdr k s = Inr s' \<Longrightarrow> adds_funcs buf s s'"
proof (induction k arbitrary: shdr s)
  case (Suc k)
  then obtain t where a: "adds_funcs buf s t" and l: "section_loop buf shoff ent (shdr + 40) k t = Inr s'"
    by (force simp: rbind_Inr_iff intro: adds_funcs_refl dest: sym_loop_adds split: if_splits)
  from adds_funcs_trans [OF a Suc.IH [OF l]] show ?case .
qed (simp add: adds_funcs_refl)

text \<open>Whatever the bytes of the file, \<open>init_ftrace\<close> puts only function symbols of the file on
  the tracer's list, in front of what was there, and changes nothing else.\<close>

theorem init_ftrace_symbols:
  assumes "init_ftrace (Some buf) s = Inr s'"
  shows "\<exists>fs. s' = s\<lparr>fhead := fs @ fhead s\<rparr> \<and> (\<forall>f \<in> set fs. func_symbol buf f)"
  using assms by (auto simp: init_ftrace_def rbind_Inr_iff adds_funcs_def dest!: section_loop_adds split: if_splits)


lemma init_ftrace_symbols_witness:
  "init_ftrace (Some ([0x7f, 0x45, 0x4c, 0x46] @ replicate 48 0)) example_trc = Inr example_trc
   \<and> (\<exists>fs. example_trc = example_trc\<lparr>fhead := fs @ fhead example_trc\<rparr>)"
proof -
  have "init_ftrace (Some ([0x7f, 0x45, 0x4c, 0x46] @ replicate 48 0)) example_trc = Inr example_trc"
    by (simp add: init_ftrace_def rd_bytes_def rd_le_def le_val_def take_replicate numeral_eq_Suc)
  with init_ftrace_symbols [OF this] show ?thesis by blast
qed

end
