(* ===== verification/DiffTest.thy ===== *)
theory DiffTest imports NpcTrace begin

text \<open>
  Differential testing against a reference simulator, \<open>core/csrc/cpu/difftest/dut.c\<close>.  The
  reference is a shared library outside the sources: \<open>'r ref_env\<close> is its four entry points, on a
  state \<open>'r\<close> of its own.
\<close>

record 'r ref_env =
  ref_init :: 'r
  ref_memcpy_to :: "u32 \<Rightarrow> u8 list \<Rightarrow> 'r \<Rightarrow> 'r"
  ref_regcpy_to :: "cpu_state_t \<Rightarrow> 'r \<Rightarrow> 'r"
  ref_regcpy_from :: "'r \<Rightarrow> cpu_state_t"
  ref_exec :: "nat \<Rightarrow> 'r \<Rightarrow> 'r"

record ('d, 'r) dif = "'d trc" +
  ref :: 'r

text \<open>\<open>init_difftest (ref_so_file, img_size, port)\<close>; \<open>found\<close> says whether the library and its
  symbols were found.\<close>

definition init_difftest ::
  "'d env \<Rightarrow> 'r ref_env \<Rightarrow> bool \<Rightarrow> nat \<Rightarrow> ('d, 'r, 'z) dif_scheme \<Rightarrow> abort + ('d, 'r, 'z) dif_scheme" where
  "init_difftest v re found img_size s =
     (if \<not> found then Inl AssertFail
      else let r1 = ref_memcpy_to re MEM_BASE (map (\<lambda>i. pmem s (of_nat i)) [0..<img_size]) (ref_init re);
               s1 = update_reg_state v MEM_BASE s
           in Inr (s1\<lparr>ref := ref_regcpy_to re (cpu s1) r1\<rparr>))"

definition difftest_checkregs :: "cpu_state_t \<Rightarrow> u32 \<Rightarrow> ('d, 'z) sim_scheme \<Rightarrow> bool" where
  "difftest_checkregs ref_r p s \<longleftrightarrow>
     list_all (\<lambda>i. gpr ref_r ! i = gpr (cpu s) ! i) [0..<32] \<and> pc ref_r = p"

definition checkregs :: "cpu_state_t \<Rightarrow> u32 \<Rightarrow> ('d, 'z) sim_scheme \<Rightarrow> ('d, 'z) sim_scheme" where
  "checkregs ref_r p s =
     (if difftest_checkregs ref_r p s then s
      else s\<lparr>npc_state := (npc_state s)\<lparr>state := NPC_ABORT, halt_pc := p\<rparr>\<rparr>)"

definition difftest_step :: "'d env \<Rightarrow> 'r ref_env \<Rightarrow> u32 \<Rightarrow> ('d, 'r, 'z) dif_scheme \<Rightarrow> ('d, 'r, 'z) dif_scheme" where
  "difftest_step v re p s =
     (if is_skip_ref s then
        let s1 = update_reg_state v p (s\<lparr>is_skip_ref_r := True\<rparr>)
        in s1\<lparr>ref := ref_regcpy_to re (cpu s1) (ref s1), is_skip_ref := False\<rparr>
      else if n_ignore_first s then
        let s1 = s\<lparr>ref := ref_exec re 1 (ref s)\<rparr>;
            ref_r = ref_regcpy_from re (ref s1)
        in update_reg_state v p (checkregs ref_r p s1)
      else (update_reg_state v p s)\<lparr>n_ignore_first := True\<rparr>)"

section \<open>What the test detects\<close>

text \<open>The instructions of a run: the program counter and the state of the core when
  \<open>difftest_step\<close> is called after each of them.\<close>

definition observe :: "'d env \<Rightarrow> 'r ref_env \<Rightarrow> u32 \<times> 'd \<Rightarrow> ('d, 'r, 'z) dif_scheme \<Rightarrow> ('d, 'r, 'z) dif_scheme" where
  "observe v re x s = difftest_step v re (fst x) (s\<lparr>dut := snd x\<rparr>)"

definition agrees :: "'d env \<Rightarrow> cpu_state_t \<Rightarrow> 'd \<Rightarrow> u32 \<Rightarrow> bool" where
  "agrees v r d p \<longleftrightarrow> (\<forall>i < 32. gpr r ! i = dpi_read_reg v d (of_nat i)) \<and> pc r = p"

lemma observe_step:
  assumes "\<not> is_skip_ref s" "n_ignore_first s" "gpr (cpu s) = map (\<lambda>i. dpi_read_reg v d0 (of_nat i)) [0..<32]"
  shows "observe v re (p, d) s =
    (let s1 = s\<lparr>ref := ref_exec re 1 (ref s), dut := d, cpu := \<lparr>gpr = map (\<lambda>i. dpi_read_reg v d (of_nat i)) [0..<32], pc = p\<rparr>\<rparr>
     in if agrees v (ref_regcpy_from re (ref_exec re 1 (ref s))) d0 p then s1
        else s1\<lparr>npc_state := (npc_state s)\<lparr>state := NPC_ABORT, halt_pc := p\<rparr>\<rparr>)"
  using assms
  by (auto simp: observe_def difftest_step_def Let_def checkregs_def difftest_checkregs_def agrees_def
      update_reg_state_def dut_gprs_def list_all_iff)

lemma observe_abort: "state (npc_state s) = NPC_ABORT \<Longrightarrow> state (npc_state (observe v re x s)) = NPC_ABORT"
  by (simp add: observe_def difftest_step_def Let_def checkregs_def update_reg_state_def)

lemma fold_observe_abort:
  "state (npc_state s) = NPC_ABORT \<Longrightarrow> state (npc_state (fold (observe v re) xs s)) = NPC_ABORT"
  by (induction xs arbitrary: s) (simp_all add: observe_abort)

lemma observe_run:
  assumes "\<not> is_skip_ref s" "n_ignore_first s" "gpr (cpu s) = map (\<lambda>i. dpi_read_reg v d0 (of_nat i)) [0..<32]"
    "state (npc_state s) \<noteq> NPC_ABORT"
  shows "state (npc_state (fold (observe v re) xs s)) = NPC_ABORT \<longleftrightarrow>
    (\<exists>k < length xs. \<not> agrees v (ref_regcpy_from re ((ref_exec re 1 ^^ Suc k) (ref s)))
        ((d0 # map snd xs) ! k) (fst (xs ! k)))"
  using assms
proof (induction xs arbitrary: s d0)
  case Nil
  then show ?case by simp
next
  case (Cons x xs)
  obtain p d where x: "x = (p, d)" by (cases x)
  let ?r = "ref_exec re 1 (ref s)"
  note st = observe_step [OF Cons.prems(1-3), of re p d]
  have split: "(\<exists>k < length (x # xs). \<not> agrees v (ref_regcpy_from re ((ref_exec re 1 ^^ Suc k) (ref s)))
        ((d0 # map snd (x # xs)) ! k) (fst ((x # xs) ! k))) \<longleftrightarrow>
    \<not> agrees v (ref_regcpy_from re ?r) d0 p \<or>
    (\<exists>k < length xs. \<not> agrees v (ref_regcpy_from re ((ref_exec re 1 ^^ Suc k) ?r)) ((d # map snd xs) ! k) (fst (xs ! k)))"
    by (simp add: x Ex_less_Suc2 funpow_swap1 del: funpow.simps) (simp add: funpow_swap1)
  show ?case
  proof (cases "agrees v (ref_regcpy_from re ?r) d0 p")
    case True
    let ?s = "observe v re x s"
    have "\<not> is_skip_ref ?s" "n_ignore_first ?s" "gpr (cpu ?s) = map (\<lambda>i. dpi_read_reg v d (of_nat i)) [0..<32]"
      "state (npc_state ?s) \<noteq> NPC_ABORT" "ref ?s = ?r"
      using st True Cons.prems by (simp_all add: x Let_def)
    then show ?thesis using Cons.IH [of ?s d] True split by simp
  next
    case False
    then have "state (npc_state (observe v re x s)) = NPC_ABORT" using st by (simp add: x Let_def)
    then show ?thesis using fold_observe_abort split False by simp
  qed
qed


text \<open>A reference that counts instructions, and a core that has gone wrong.\<close>

definition example_ref :: "cpu_state_t ref_env" where
  "example_ref = \<lparr>ref_init = \<lparr>gpr = replicate 32 0, pc = MEM_BASE\<rparr>, ref_memcpy_to = (\<lambda>_ _ r. r),
     ref_regcpy_to = (\<lambda>c _. c), ref_regcpy_from = (\<lambda>r. r),
     ref_exec = (\<lambda>n r. r\<lparr>pc := pc r + 4 * of_nat n\<rparr>)\<rparr>"

definition example_dif :: "(u32 \<times> (u32 \<Rightarrow> u32), cpu_state_t) dif" where
  "example_dif = trc.extend (example_trc\<lparr>npc_state := \<lparr>state = NPC_RUNNING, halt_pc = 0, halt_ret = 1\<rparr>\<rparr>)
     \<lparr>ref = ref_init example_ref\<rparr>"


end
