(* ===== verification/NpcExec.thy ===== *)
theory NpcExec imports DiffTest begin

text \<open>
  The execution engine, \<open>core/csrc/cpu/cpu-exec.cpp\<close>, with \<open>core/csrc/device/device.cpp\<close>,
  \<open>core/csrc/utils/state.cpp\<close> and \<open>core/csrc/monitor/monitor.cpp\<close>'s initial state.  One
  \<open>top->eval ()\<close> of the Verilated core is a parameter: a tree of its calls of the DPI functions
  \<open>pmem_read\<close>, \<open>pmem_write\<close>, \<open>npctrap\<close> and \<open>unknow_inst\<close>, each with the state of the core at the
  call and a continuation from the value returned.
\<close>

unbundle bit_operations_syntax

datatype dpi =
    Pmem_read u32
  | Pmem_write u32 u32 u8
  | Npctrap u32
  | Unknow_inst u32

datatype 'd prog = Done 'd | Call 'd dpi "u32 \<Rightarrow> 'd prog"

text \<open>The core, the disassembler, and the uninitialised \<open>dnpc\<close> of the local \<open>Decode\<close>.\<close>

record 'd harness =
  top_eval :: "bool \<Rightarrow> 'd \<Rightarrow> 'd prog"
  disassemble :: "u32 \<Rightarrow> u32 \<Rightarrow> string"
  junk_dnpc :: u32

record ('d, 'r) xec = "('d, 'r) dif" +
  g_nr_guest_inst :: u64
  nr_clk_tick :: u64
  g_timer :: u64
  g_print_step :: bool
  dev_last :: u64

section \<open>Callbacks of the core\<close>

definition npctrap :: "'d env \<Rightarrow> u32 \<Rightarrow> ('d, 'z) sim_scheme \<Rightarrow> abort + ('d, 'z) sim_scheme" where
  "npctrap v p s =
     rbind (core_read_reg v 10 s) (\<lambda>r.
       Inr (s\<lparr>npc_state := \<lparr>state = NPC_END, halt_pc = p, halt_ret = r\<rparr>\<rparr>))"

definition unknow_inst :: "u32 \<Rightarrow> ('d, 'z) sim_scheme \<Rightarrow> abort + ('d, 'z) sim_scheme" where
  "unknow_inst p s =
     (if state (npc_state s) \<noteq> NPC_RUNNING then Inr s else Inl (Panic ''Unknown instruction''))"

definition dpi_call :: "cfg \<Rightarrow> 'd env \<Rightarrow> dpi \<Rightarrow> ('d, 'z) sim_scheme \<Rightarrow> abort + u32 \<times> ('d, 'z) sim_scheme" where
  "dpi_call c v f s =
     (case f of
        Pmem_read a \<Rightarrow> pmem_read c v a s
      | Pmem_write a w m \<Rightarrow> rbind (pmem_write c a w m s) (\<lambda>s'. Inr (0, s'))
      | Npctrap p \<Rightarrow> rbind (npctrap v p s) (\<lambda>s'. Inr (0, s'))
      | Unknow_inst p \<Rightarrow> rbind (unknow_inst p s) (\<lambda>s'. Inr (0, s')))"

primrec run_prog :: "cfg \<Rightarrow> 'd env \<Rightarrow> 'd prog \<Rightarrow> ('d, 'z) sim_scheme \<Rightarrow> abort + ('d, 'z) sim_scheme" where
  "run_prog c v (Done d) s = Inr (s\<lparr>dut := d\<rparr>)"
| "run_prog c v (Call d f k) s = rbind (dpi_call c v f (s\<lparr>dut := d\<rparr>)) (\<lambda>r. run_prog c v (k (fst r)) (snd r))"

section \<open>One instruction\<close>

definition single_cycle :: "cfg \<Rightarrow> 'd env \<Rightarrow> 'd harness \<Rightarrow> ('d, 'r, 'z) xec_scheme \<Rightarrow> abort + ('d, 'r, 'z) xec_scheme" where
  "single_cycle c v h s =
     (let s0 = s\<lparr>nr_clk_tick := nr_clk_tick s + 1\<rparr>
      in rbind (run_prog c v (top_eval h False (dut s0)) s0) (\<lambda>s1.
           run_prog c v (top_eval h True (dut s1)) s1))"

text \<open>The loop of \<open>exec_one_inst\<close> with \<open>k\<close> cycles left of its 40.\<close>

fun exec_cycles :: "nat \<Rightarrow> cfg \<Rightarrow> 'd env \<Rightarrow> 'd harness \<Rightarrow> ('d, 'r, 'z) xec_scheme \<Rightarrow> abort + ('d, 'r, 'z) xec_scheme" where
  "exec_cycles 0 c v h s = Inl (Panic ''CPU don't finish inst in 40 cycle'')"
| "exec_cycles (Suc k) c v h s =
     rbind (single_cycle c v h s) (\<lambda>s'.
       if core_read_state v s' = 1 then Inr s' else exec_cycles k c v h s')"

definition exec_one_inst :: "cfg \<Rightarrow> 'd env \<Rightarrow> 'd harness \<Rightarrow> ('d, 'r, 'z) xec_scheme \<Rightarrow> abort + ('d, 'r, 'z) xec_scheme" where
  "exec_one_inst = exec_cycles 40"

definition hex2 :: "u8 \<Rightarrow> string" where
  "hex2 b = [hex_digit (ucast (drop_bit 4 b)), hex_digit (ucast b AND 0xf)]"

definition exec_once ::
  "cfg \<Rightarrow> 'd env \<Rightarrow> 'd harness \<Rightarrow> ('d, 'r, 'z) xec_scheme \<Rightarrow> abort + decode \<times> ('d, 'r, 'z) xec_scheme" where
  "exec_once c v h s =
     rbind (exec_one_inst c v h s) (\<lambda>s1.
       let p = core_read_pc v s1 in
       rbind (read_inst p s1) (\<lambda>w.
         Inr (\<lparr>d_pc = p, d_dnpc = junk_dnpc h, d_inst = w,
               logbuf = ''0x'' @ hex8 p @ '':''
                 @ concat (map (\<lambda>b. '' '' @ hex2 b) (rev (bytes_of_u32 w))) @ '' '' @ disassemble h p w\<rparr>, s1)))"

text \<open>A change of a watched value stops the run, unless the program has ended.\<close>

definition watch_stop :: "bool \<Rightarrow> ('d, 'z) sim_scheme \<Rightarrow> ('d, 'z) sim_scheme" where
  "watch_stop hit s =
     (if hit then s\<lparr>npc_state := (npc_state s)\<lparr>state :=
          (if state (npc_state s) \<noteq> NPC_END then NPC_STOP else NPC_END)\<rparr>\<rparr> else s)"

definition trace_and_difftest ::
  "cfg \<Rightarrow> 'd env \<Rightarrow> 'r ref_env \<Rightarrow> decode \<Rightarrow> ('d, 'r, 'z) xec_scheme \<Rightarrow> abort + ('d, 'r, 'z) xec_scheme" where
  "trace_and_difftest c v re d s =
     (let s1 = (if c_difftest c then difftest_step v re (d_pc d) s else s);
          s2 = (if c_iringtrace c then iringbuf_push (logbuf d) s1 else s1)
      in rbind (if c_ftrace c then ftrace_rcd d s2 else Inr s2) (\<lambda>s3.
           if c_watchpoint c
           then rbind (of_loop (scan_wp_diff c v s3)) (\<lambda>r. Inr (watch_stop (fst r) (snd r)))
           else Inr s3))"

text \<open>\<open>device_update\<close> keeps the time of the last refresh; 1000000 / 60 is 16666.\<close>

definition device_update :: "'d env \<Rightarrow> ('d, 'r, 'z) xec_scheme \<Rightarrow> ('d, 'r, 'z) xec_scheme" where
  "device_update v s =
     (case get_time v s of (now, s1) \<Rightarrow>
        if now - dev_last s1 < 1000000 div 60 then s1 else s1\<lparr>dev_last := now\<rparr>)"

section \<open>Runs\<close>

fun execute ::
  "nat \<Rightarrow> cfg \<Rightarrow> 'd env \<Rightarrow> 'd harness \<Rightarrow> 'r ref_env \<Rightarrow> ('d, 'r, 'z) xec_scheme \<Rightarrow> abort + ('d, 'r, 'z) xec_scheme" where
  "execute 0 c v h re s = Inr s"
| "execute (Suc n) c v h re s =
     rbind (exec_once c v h s) (\<lambda>r.
     rbind (trace_and_difftest c v re (fst r)
              ((snd r)\<lparr>g_nr_guest_inst := g_nr_guest_inst (snd r) + 1\<rparr>)) (\<lambda>s1.
       if state (npc_state s1) \<noteq> NPC_RUNNING then Inr s1
       else execute n c v h re (if c_device c then device_update v s1 else s1)))"

text \<open>\<open>statistic\<close> divides by the host time spent so far.\<close>

definition statistic :: "('d, 'r, 'z) xec_scheme \<Rightarrow> abort + u64 \<times> u64 \<times> u64 \<times> u64" where
  "statistic s =
     (if g_timer s = 0 then Inl ArithTrap
      else Inr (g_nr_guest_inst s, nr_clk_tick s, g_timer s, nr_clk_tick s div g_timer s))"

definition MAX_INST_TO_PRINT :: u64 where "MAX_INST_TO_PRINT = 10"

text \<open>The second half of \<open>cpu_exec\<close>, after the run.\<close>

definition cpu_exec_tail :: "u64 \<Rightarrow> cfg \<Rightarrow> 'd env \<Rightarrow> ('d, 'r, 'z) xec_scheme \<Rightarrow> abort + ('d, 'r, 'z) xec_scheme" where
  "cpu_exec_tail timer_start c v s3 =
     (let (timer_end, s4) = get_time v s3;
          s5 = s4\<lparr>g_timer := g_timer s4 + (timer_end - timer_start)\<rparr>
      in case state (npc_state s5) of
           NPC_RUNNING \<Rightarrow> Inr (s5\<lparr>npc_state := (npc_state s5)\<lparr>state := NPC_STOP\<rparr>\<rparr>)
         | NPC_STOP \<Rightarrow> Inr s5
         | m \<Rightarrow>
             let s6 = (if m = NPC_ABORT \<and> c_ftrace c then free_fp s5 else s5)
             in rbind (statistic s6) (\<lambda>_. Inr (if c_ftrace c then free_fp s6 else s6)))"

definition cpu_exec ::
  "u64 \<Rightarrow> cfg \<Rightarrow> 'd env \<Rightarrow> 'd harness \<Rightarrow> 'r ref_env \<Rightarrow> ('d, 'r, 'z) xec_scheme \<Rightarrow> abort + ('d, 'r, 'z) xec_scheme" where
  "cpu_exec n c v h re s =
     (let s0 = s\<lparr>g_print_step := (n < MAX_INST_TO_PRINT)\<rparr> in
      if state (npc_state s0) = NPC_END \<or> state (npc_state s0) = NPC_QUIT then Inr s0
      else
        let s1 = s0\<lparr>npc_state := (npc_state s0)\<lparr>state := NPC_RUNNING\<rparr>\<rparr>;
            (timer_start, s2) = get_time v s1
        in rbind (execute (unat n) c v h re s2) (cpu_exec_tail timer_start c v))"

text \<open>The exit status of the simulator (\<open>state.cpp\<close>), and reset (\<open>init_cpu\<close>): 12 cycles with
  \<open>rst\<close> high, then one evaluation with \<open>rst\<close> low; \<open>set_rst\<close> drives the pin.\<close>

definition is_exit_status_bad :: "('d, 'z) sim_scheme \<Rightarrow> bool" where
  "is_exit_status_bad s \<longleftrightarrow>
     \<not> (state (npc_state s) = NPC_END \<and> halt_ret (npc_state s) = 0 \<or> state (npc_state s) = NPC_QUIT)"

fun cycles :: "nat \<Rightarrow> cfg \<Rightarrow> 'd env \<Rightarrow> 'd harness \<Rightarrow> ('d, 'r, 'z) xec_scheme \<Rightarrow> abort + ('d, 'r, 'z) xec_scheme" where
  "cycles 0 c v h s = Inr s"
| "cycles (Suc k) c v h s = rbind (single_cycle c v h s) (cycles k c v h)"

definition init_cpu ::
  "(bool \<Rightarrow> 'd \<Rightarrow> 'd) \<Rightarrow> cfg \<Rightarrow> 'd env \<Rightarrow> 'd harness \<Rightarrow> ('d, 'r, 'z) xec_scheme \<Rightarrow> abort + ('d, 'r, 'z) xec_scheme" where
  "init_cpu set_rst c v h s =
     rbind (cycles 12 c v h (s\<lparr>dut := set_rst True (dut s)\<rparr>)) (\<lambda>s1.
       run_prog c v (top_eval h True (set_rst False (dut s1))) s1)"


section \<open>What each step leaves alone\<close>

lemma pmem_write_more: "pmem_write c a w m s = Inr s' \<Longrightarrow> sim.more s' = sim.more s"
  by (auto simp: pmem_write_def Let_def mmio_write_def difftest_skip_ref_def split: if_splits)

lemma dpi_call_more: "dpi_call c v f s = Inr (r, s') \<Longrightarrow> sim.more s' = sim.more s"
  by (auto simp: dpi_call_def rbind_Inr_iff npctrap_def unknow_inst_def
      dest: pmem_read_more pmem_write_more split: dpi.splits if_splits)

lemma run_prog_more: "run_prog c v p s = Inr s' \<Longrightarrow> sim.more s' = sim.more s"
proof (induction p arbitrary: s)
  case (Call d f k)
  then obtain r s1 where "dpi_call c v f (s\<lparr>dut := d\<rparr>) = Inr (r, s1)" "run_prog c v (k r) s1 = Inr s'"
    by (auto simp: rbind_Inr_iff)
  with Call.IH dpi_call_more show ?case by fastforce
qed auto

lemma run_prog_frame [frame]:
  fixes s :: "('a, 'b, 'c) xec_scheme"
  assumes "run_prog c v p s = Inr s'"
  shows "g_nr_guest_inst s' = g_nr_guest_inst s" "nr_clk_tick s' = nr_clk_tick s"
    "wp_pool s' = wp_pool s" "head s' = head s" "free_list s' = free_list s"
  using run_prog_more [OF assms] by (cases s, cases s'; simp)+

lemma scan_loop_more:
  fixes s :: "('a, 'b) wps_scheme"
  assumes "scan_loop c v p s = Some (Inr (b, s'))"
  shows "wps.more s' = wps.more s"
proof -
  have "case y of Inl e \<Rightarrow> True | Inr (b, s') \<Rightarrow> wps.more s' = wps.more s"
    if "scan_loop c v p s = Some y" for c and v :: "'a env" and p and s :: "('a, 'b) wps_scheme" and y
  proof (rule scan_loop.raw_induct [OF _ that], goal_cases)
    case (1 f c v p s y)
    show ?case
    proof (cases p)
      case (Some i)
      show ?thesis
      proof (cases "expr c v (e_str (wp_pool s i)) True s")
        case (Inr r)
        then obtain w ok s1 where ex: "expr c v (e_str (wp_pool s i)) True s = Inr (w, ok, s1)" by (cases r) auto
        have m: "wps.more s1 = wps.more s" using expr_more [OF ex] by (cases s, cases s1) simp
        from 1(2) ex Some m show ?thesis
          using 1(1) [of c v "next (wp_pool s1 i)" s1 y]
          by (auto split: if_splits sum.splits)
      qed (use 1(2) Some in auto)
    qed (use 1(2) in auto)
  qed
  from this [OF assms] show ?thesis by simp
qed

lemma trace_and_difftest_frame:
  fixes s :: "('a, 'b, 'c) xec_scheme"
  assumes "trace_and_difftest c v re d s = Inr s'"
  shows "g_nr_guest_inst s' = g_nr_guest_inst s \<and> nr_clk_tick s' = nr_clk_tick s"
proof -
  let ?s1 = "if c_difftest c then difftest_step v re (d_pc d) s else s"
  let ?s2 = "if c_iringtrace c then iringbuf_push (logbuf d) ?s1 else ?s1"
  have "g_nr_guest_inst ?s2 = g_nr_guest_inst s \<and> nr_clk_tick ?s2 = nr_clk_tick s"
    by (simp add: difftest_step_def iringbuf_push_def Let_def checkregs_def update_reg_state_def)
  moreover obtain s3 where s3: "(if c_ftrace c then ftrace_rcd d ?s2 else Inr ?s2) = Inr s3"
    and w: "(if c_watchpoint c
           then rbind (of_loop (scan_wp_diff c v s3)) (\<lambda>r. Inr (watch_stop (fst r) (snd r)))
           else Inr s3) = Inr s'"
    using assms by (auto simp: trace_and_difftest_def Let_def rbind_Inr_iff simp del: if_split)
  moreover have "g_nr_guest_inst s3 = g_nr_guest_inst ?s2 \<and> nr_clk_tick s3 = nr_clk_tick ?s2"
    using s3 by (auto simp: ftrace_rcd_def fringbuf_push_def Let_def simp del: if_split split: if_split_asm option.splits)
  moreover have "g_nr_guest_inst s' = g_nr_guest_inst s3 \<and> nr_clk_tick s' = nr_clk_tick s3"
  proof (cases "c_watchpoint c")
    case True
    with w obtain b s4 where "scan_loop c v (head s3) s3 = Some (Inr (b, s4))" "s' = watch_stop b s4"
      by (auto simp: rbind_Inr_iff scan_wp_diff_def of_loop_def split: option.splits)
    with scan_loop_more [OF this(1)] show ?thesis
      by (cases s3, cases s4) (simp add: watch_stop_def)
  qed (use w in simp)
  ultimately show ?thesis by simp
qed


lemma single_cycle_ticks:
  "single_cycle c v h s = Inr s' \<Longrightarrow> g_nr_guest_inst s' = g_nr_guest_inst s \<and> nr_clk_tick s' = nr_clk_tick s + 1"
  by (auto simp: single_cycle_def Let_def rbind_Inr_iff run_prog_frame)

lemma exec_cycles_ticks:
  "exec_cycles k c v h s = Inr s' \<Longrightarrow> g_nr_guest_inst s' = g_nr_guest_inst s \<and>
     (\<exists>j. 1 \<le> j \<and> j \<le> k \<and> nr_clk_tick s' = nr_clk_tick s + of_nat j)"
proof (induction k arbitrary: s)
  case (Suc k)
  then obtain s1 where s1: "single_cycle c v h s = Inr s1"
    and r: "(if core_read_state v s1 = 1 then Inr s1 else exec_cycles k c v h s1) = Inr s'"
    by (auto simp: rbind_Inr_iff)
  note t = single_cycle_ticks [OF s1]
  show ?case
  proof (cases "core_read_state v s1 = 1")
    case True
    with r t show ?thesis by (auto intro!: exI [of _ 1])
  next
    case False
    with r Suc.IH obtain j where "1 \<le> j" "j \<le> k" "nr_clk_tick s' = nr_clk_tick s1 + of_nat j"
      "g_nr_guest_inst s' = g_nr_guest_inst s1" by fastforce
    with t show ?thesis by (auto intro!: exI [of _ "Suc j"])
  qed
qed simp

lemma device_update_frame [simp]:
  "g_nr_guest_inst (device_update v s) = g_nr_guest_inst s" "nr_clk_tick (device_update v s) = nr_clk_tick s"
  by (simp_all add: device_update_def get_time_def get_time_internal_def Let_def)

text \<open>A core that advances its program counter on every rising edge, for closed examples.\<close>

definition example_harness :: "(u32 \<times> (u32 \<Rightarrow> u32)) harness" where
  "example_harness = \<lparr>top_eval = (\<lambda>clk d. Done (if clk then (fst d + 4, snd d) else d)),
     disassemble = (\<lambda>_ _. ''nop''), junk_dnpc = 0\<rparr>"

definition example_xec :: "(u32 \<times> (u32 \<Rightarrow> u32), cpu_state_t) xec" where
  "example_xec = dif.extend (example_dif\<lparr>npc_state := \<lparr>state = NPC_STOP, halt_pc = 0, halt_ret = 1\<rparr>\<rparr>)
     \<lparr>g_nr_guest_inst = 0, nr_clk_tick = 0, g_timer = 0, g_print_step = False, dev_last = 0\<rparr>"

lemmas example_xec_defs = example_xec_def dif.defs example_dif_def trc.defs example_trc_def wps.defs
  example_wps_def init_wp_pool_def sdb.defs example_sdb_def sim.defs example_sim_def sim0_def

lemma example_exec_once:
  assumes "fst (dut s) = a" "in_mem (a + 4)"
  shows "\<exists>d. exec_once kconfig_defaults example_env example_harness s
    = Inr (d, s\<lparr>nr_clk_tick := nr_clk_tick s + 1, dut := (a + 4, snd (dut s))\<rparr>)"
  using assms
  by (simp add: exec_once_def exec_one_inst_def single_cycle_def example_harness_def core_read_state_def
      core_read_pc_def read_inst_def example_env_def eval_nat_numeral Let_def)

lemma example_trace:
  assumes "head s = None"
  shows "trace_and_difftest kconfig_defaults example_env re d s = Inr (iringbuf_push (logbuf d) s)"
  using assms
  by (simp add: trace_and_difftest_def kconfig_defaults_def scan_wp_diff_def scan_loop.simps
      iringbuf_push_def Let_def watch_stop_def)

lemma iringbuf_push_frame:
  "dut (iringbuf_push b s) = dut s" "head (iringbuf_push b s) = head s"
  "npc_state (iringbuf_push b s) = npc_state s"
  by (simp_all add: iringbuf_push_def Let_def)

lemma example_execute_step:
  assumes "fst (dut s) = a" "in_mem (a + 4)" "head s = None" "state (npc_state s) = NPC_RUNNING"
  shows "\<exists>s1. execute (Suc n) kconfig_defaults example_env example_harness re s
      = execute n kconfig_defaults example_env example_harness re s1
    \<and> fst (dut s1) = a + 4 \<and> head s1 = None \<and> state (npc_state s1) = NPC_RUNNING"
proof -
  obtain d where 1: "exec_once kconfig_defaults example_env example_harness s
    = Inr (d, s\<lparr>nr_clk_tick := nr_clk_tick s + 1, dut := (a + 4, snd (dut s))\<rparr>)"
    using example_exec_once [OF assms(1,2)] by blast
  let ?s = "s\<lparr>nr_clk_tick := nr_clk_tick s + 1, dut := (a + 4, snd (dut s)), g_nr_guest_inst := g_nr_guest_inst s + 1\<rparr>"
  have "\<not> c_device kconfig_defaults" by (simp add: kconfig_defaults_def)
  then show ?thesis
    using assms 1 example_trace [of ?s re d]
    by (intro exI [of _ "iringbuf_push (logbuf d) ?s"]) (simp add: iringbuf_push_frame)
qed

lemma example_execute:
  assumes "fst (dut s) = 0x80000000" "head s = None" "state (npc_state s) = NPC_RUNNING"
  shows "\<exists>s'. execute 2 kconfig_defaults example_env example_harness re s = Inr s' \<and> state (npc_state s') = NPC_RUNNING"
proof -
  have m: "in_mem (0x80000000 + 4)" "in_mem (0x80000004 + 4)" by (simp_all add: in_mem_def MEM_BASE_def MEM_MAX_def)
  from example_execute_step [OF assms(1) m(1) assms(2,3), of "Suc 0" re] obtain s1 where
    1: "execute (Suc (Suc 0)) kconfig_defaults example_env example_harness re s
      = execute (Suc 0) kconfig_defaults example_env example_harness re s1"
    "fst (dut s1) = 0x80000004" "head s1 = None" "state (npc_state s1) = NPC_RUNNING" by auto
  from example_execute_step [OF 1(2) m(2) 1(3,4), of 0 re] obtain s2 where
    "execute (Suc 0) kconfig_defaults example_env example_harness re s1 = Inr s2" "state (npc_state s2) = NPC_RUNNING"
    by (metis execute.simps(1))
  with 1 show ?thesis by (simp only: numeral_2_eq_2) blast
qed

text \<open>C34: \<open>execute n\<close> runs \<open>k \<le> n\<close> instructions and counts them; it stops short of \<open>n\<close> only when the
  run state has changed, each instruction takes between 1 and 40 cycles of the core, and the
  cycles are counted.\<close>

theorem execute_counts:
  assumes "execute n c v h re s = Inr s'"
  shows "\<exists>k j. k \<le> n \<and> g_nr_guest_inst s' = g_nr_guest_inst s + of_nat k
    \<and> (k < n \<longrightarrow> state (npc_state s') \<noteq> NPC_RUNNING)
    \<and> k \<le> j \<and> j \<le> 40 * k \<and> nr_clk_tick s' = nr_clk_tick s + of_nat j"
  using assms
proof (induction n arbitrary: s)
  case 0
  then show ?case by auto
next
  case (Suc n)
  then obtain d s1 s2 where e: "exec_once c v h s = Inr (d, s1)"
    and t: "trace_and_difftest c v re d (s1\<lparr>g_nr_guest_inst := g_nr_guest_inst s1 + 1\<rparr>) = Inr s2"
    and r: "(if state (npc_state s2) \<noteq> NPC_RUNNING then Inr s2
       else execute n c v h re (if c_device c then device_update v s2 else s2)) = Inr s'"
    by (auto simp: rbind_Inr_iff)
  from e have "exec_cycles 40 c v h s = Inr s1"
    by (auto simp: exec_once_def exec_one_inst_def rbind_Inr_iff Let_def)
  from exec_cycles_ticks [OF this] obtain i where i: "1 \<le> i" "i \<le> 40"
    "nr_clk_tick s1 = nr_clk_tick s + of_nat i" "g_nr_guest_inst s1 = g_nr_guest_inst s" by blast
  with trace_and_difftest_frame [OF t] have s2: "nr_clk_tick s2 = nr_clk_tick s + of_nat i"
    "g_nr_guest_inst s2 = g_nr_guest_inst s + 1" by simp_all
  show ?case
  proof (cases "state (npc_state s2) \<noteq> NPC_RUNNING")
    case True
    with r s2 i show ?thesis by (intro exI [of _ 1] exI [of _ i]) auto
  next
    case False
    from False r Suc.IH obtain k j where "k \<le> n" "g_nr_guest_inst s' = g_nr_guest_inst s2 + of_nat k"
      "k < n \<longrightarrow> state (npc_state s') \<noteq> NPC_RUNNING" "k \<le> j" "j \<le> 40 * k" "nr_clk_tick s' = nr_clk_tick s2 + of_nat j"
      by (fastforce split: if_splits)
    with s2 i show ?thesis by (intro exI [of _ "Suc k"] exI [of _ "i + j"]) auto
  qed
qed

lemma execute_counts_witness:
  "\<exists>s'. execute 2 kconfig_defaults example_env example_harness example_ref
       (example_xec\<lparr>npc_state := \<lparr>state = NPC_RUNNING, halt_pc = 0, halt_ret = 1\<rparr>\<rparr>) = Inr s'
     \<and> g_nr_guest_inst s' = 2 \<and> 2 \<le> nr_clk_tick s' \<and> nr_clk_tick s' \<le> 80"
proof -
  let ?s = "example_xec\<lparr>npc_state := \<lparr>state = NPC_RUNNING, halt_pc = 0, halt_ret = 1\<rparr>\<rparr>"
  have s: "fst (dut ?s) = 0x80000000" "head ?s = None" "state (npc_state ?s) = NPC_RUNNING"
    "g_nr_guest_inst ?s = 0" "nr_clk_tick ?s = 0"
    by (simp_all add: example_xec_defs)
  obtain s' where s': "execute 2 kconfig_defaults example_env example_harness example_ref ?s = Inr s'"
    "state (npc_state s') = NPC_RUNNING"
    using example_execute [OF s(1-3)] by blast
  from execute_counts [OF s'(1)] s'(2) s(4,5) obtain j where
    "g_nr_guest_inst s' = 2" "2 \<le> j" "j \<le> 80" "nr_clk_tick s' = of_nat j" by auto
  with s' show ?thesis by (auto simp: word_le_nat_alt unat_of_nat)
qed

lemma cpu_exec_tail_state:
  assumes "cpu_exec_tail ts c v s = Inr s'"
  shows "state (npc_state s') \<noteq> NPC_RUNNING"
proof -
  obtain te s4 where g: "get_time v s = (te, s4)" by fastforce
  show ?thesis
  proof (cases "state (npc_state s4)")
  qed (use assms g in \<open>auto simp: cpu_exec_tail_def Let_def rbind_Inr_iff free_fp_def split: if_splits\<close>)
qed

text \<open>\<open>cpu_exec\<close> never leaves the simulator running: it returns stopped, ended or aborted, and
  once the program has ended or the user quit it runs nothing any more.\<close>

theorem cpu_exec_state:
  assumes "cpu_exec n c v h re s = Inr s'"
  shows "state (npc_state s') \<noteq> NPC_RUNNING
    \<and> (state (npc_state s) \<in> {NPC_END, NPC_QUIT} \<longrightarrow> s' = s\<lparr>g_print_step := n < 10\<rparr>)
    \<and> (is_exit_status_bad s' \<longleftrightarrow> state (npc_state s') \<in> {NPC_STOP, NPC_ABORT}
          \<or> state (npc_state s') = NPC_END \<and> halt_ret (npc_state s') \<noteq> 0)"
proof -
  have "state (npc_state s') \<noteq> NPC_RUNNING"
    using assms unfolding cpu_exec_def
    by (auto simp: rbind_Inr_iff Let_def dest: cpu_exec_tail_state split: if_splits prod.splits)
  moreover have "state (npc_state s) \<in> {NPC_END, NPC_QUIT} \<longrightarrow> s' = s\<lparr>g_print_step := n < 10\<rparr>"
    using assms by (auto simp: cpu_exec_def Let_def MAX_INST_TO_PRINT_def)
  ultimately show ?thesis
    by (cases "state (npc_state s')") (auto simp: is_exit_status_bad_def)
qed


lemma cpu_exec_state_witness:
  "\<exists>s'. cpu_exec 2 kconfig_defaults example_env example_harness example_ref example_xec = Inr s'
     \<and> state (npc_state s') \<noteq> NPC_RUNNING"
proof -
  let ?s = "example_xec\<lparr>g_print_step := True, npc_state := \<lparr>state = NPC_RUNNING, halt_pc = 0, halt_ret = 1\<rparr>\<rparr>"
  obtain t s2 where g: "get_time example_env ?s = (t, s2)" by fastforce
  then have "fst (dut s2) = 0x80000000" "head s2 = None" "state (npc_state s2) = NPC_RUNNING"
    by (auto simp: get_time_def get_time_internal_def Let_def example_xec_defs split: if_splits)
  from example_execute [OF this] obtain s3 where
    s3: "execute 2 kconfig_defaults example_env example_harness example_ref s2 = Inr s3" "state (npc_state s3) = NPC_RUNNING"
    by blast
  obtain t4 s4 where g4: "get_time example_env s3 = (t4, s4)" by fastforce
  then have "state (npc_state s4) = NPC_RUNNING"
    using s3(2) by (auto simp: get_time_def get_time_internal_def Let_def split: if_splits)
  then obtain s' where "cpu_exec 2 kconfig_defaults example_env example_harness example_ref example_xec = Inr s'"
    using g s3 g4 by (simp add: cpu_exec_def Let_def MAX_INST_TO_PRINT_def example_xec_defs cpu_exec_tail_def)
  with cpu_exec_state [OF this] show ?thesis by blast
qed

end
