(* ===== verification/SdbCmd.thy ===== *)
theory SdbCmd imports NpcExec begin

text \<open>
  The debugger's command loop, \<open>core/csrc/monitor/sdb/sdb.cpp\<close>: splitting a line with
  \<open>strtok\<close>, the command table, its handlers and \<open>sdb_mainloop\<close>.  The lines typed are the argument
  of the loop (their end is the end of input); what the commands print is kept in \<open>out\<close>.
\<close>

datatype line =
    Text string
  | HelpLine string string
  | RegLine string u32
  | WpLine int string u32
  | WpSet "int option"
  | WpDeleted bool
  | FuncLine string
  | MemLine u32 u32 u32
  | ValueLine u32
  | RingLine bool string
  | FtraceLine string string string

record ('d, 'r) sh = "('d, 'r) xec" +
  strtok_rest :: string
  is_batch_mode :: bool
  out :: "line list"

definition say :: "line list \<Rightarrow> ('d, 'r, 'z) sh_scheme \<Rightarrow> ('d, 'r, 'z) sh_scheme" where
  "say ls s = s\<lparr>out := out s @ ls\<rparr>"

text \<open>\<open>strtok (str, " ")\<close>; \<open>strtok (NULL, " ")\<close> goes on with what the last call left.\<close>

definition strtok :: "string \<Rightarrow> string option \<times> string" where
  "strtok ln =
     (case dropWhile (\<lambda>c. c = CHR '' '') ln of
        [] \<Rightarrow> (None, [])
      | c # cs \<Rightarrow> (Some (takeWhile (\<lambda>c. c \<noteq> CHR '' '') (c # cs)),
                   drop 1 (dropWhile (\<lambda>c. c \<noteq> CHR '' '') (c # cs))))"

definition strtok_next :: "('d, 'r, 'z) sh_scheme \<Rightarrow> string option \<times> ('d, 'r, 'z) sh_scheme" where
  "strtok_next s = (case strtok (strtok_rest s) of (t, r) \<Rightarrow> (t, s\<lparr>strtok_rest := r\<rparr>))"

section \<open>The commands\<close>

datatype cmd = C_help | C_c | C_q | C_si | C_info | C_x | C_p | C_w | C_d | C_t

definition cmd_table :: "(string \<times> string \<times> cmd) list" where
  "cmd_table =
    [(''help'', ''Display information about all supported commands'', C_help),
     (''c'', ''Continue the execution of the program'', C_c),
     (''q'', ''Exit npc'', C_q),
     (''si'', ''Execute N instruction(s) and stop, default N = 1'', C_si),
     (''info'', ''Print register status(r), print watch point messages(w)'', C_info),
     (''x'', ''Scan the memory from the given expression in heximal for N times of 4 bytes'', C_x),
     (''p'', ''Print the expression's result'', C_p),
     (''w'', ''Set a watchpoint for given expression'', C_w),
     (''d'', ''Delete a watchpoint for given watchpoint number N'', C_d),
     (''t'', ''Print tracer info itrace(i) ftrace(f)'', C_t)]"

text \<open>What the handlers use of the rest of the simulator: its configuration, core, reference.\<close>

record ('d, 'r) rig =
  kcfg :: cfg
  kenv :: "'d env"
  kharness :: "'d harness"
  kref :: "'r ref_env"

definition run_cpu :: "('d, 'r) rig \<Rightarrow> u64 \<Rightarrow> ('d, 'r, 'z) sh_scheme \<Rightarrow> abort + ('d, 'r, 'z) sh_scheme" where
  "run_cpu k n s = cpu_exec n (kcfg k) (kenv k) (kharness k) (kref k) s"

text \<open>A handler returns its \<open>int\<close> and the new state.\<close>

definition cmd_q :: "('d, 'r, 'z) sh_scheme \<Rightarrow> abort + int \<times> ('d, 'r, 'z) sh_scheme" where
  "cmd_q s = Inr (-1, s\<lparr>npc_state := (npc_state s)\<lparr>state := NPC_QUIT\<rparr>\<rparr>)"

definition cmd_c :: "('d, 'r) rig \<Rightarrow> ('d, 'r, 'z) sh_scheme \<Rightarrow> abort + int \<times> ('d, 'r, 'z) sh_scheme" where
  "cmd_c k s = rbind (run_cpu k (- 1) s) (\<lambda>s'. Inr (0, s'))"

definition cmd_si :: "('d, 'r) rig \<Rightarrow> ('d, 'r, 'z) sh_scheme \<Rightarrow> abort + int \<times> ('d, 'r, 'z) sh_scheme" where
  "cmd_si k s =
     (case strtok_next s of (N_str, s1) \<Rightarrow>
        let N_num = (case N_str of None \<Rightarrow> 1 | Some t \<Rightarrow> host_atoi t)
        in rbind (run_cpu k (scast N_num) s1) (\<lambda>s'. Inr (0, s')))"

definition cmd_info :: "('d, 'r) rig \<Rightarrow> ('d, 'r, 'z) sh_scheme \<Rightarrow> abort + int \<times> ('d, 'r, 'z) sh_scheme" where
  "cmd_info k s =
     (case strtok_next s of (arg, s1) \<Rightarrow>
        (case arg of
           None \<Rightarrow> Inr (0, say [Text ''An argument r or w is required''] s1)
         | Some a \<Rightarrow>
             if a = ''r'' then Inr (0, say (map (\<lambda>(r, w). RegLine r w) (reg_display (kenv k) s1)) s1)
             else if a = ''w'' then
               rbind (of_loop (map_option Inr (print_wp_info s1))) (\<lambda>ls.
                 Inr (0, say ((if head s1 = None then [Text ''NO watchpoint''] else [])
                              @ map (\<lambda>(n, e, w). WpLine n e w) ls) s1))
             else if a = ''f'' then Inr (0, say (map FuncLine (print_funct_info s1)) s1)
             else Inr (0, say [Text ''Invalid argument''] s1)))"

text \<open>The loop of \<open>cmd_x\<close> from \<open>i\<close> on, with \<open>k\<close> words left.\<close>

fun x_loop :: "nat \<Rightarrow> u32 \<Rightarrow> u32 \<Rightarrow> cfg \<Rightarrow> 'd env \<Rightarrow> ('d, 'r, 'z) sh_scheme \<Rightarrow> abort + ('d, 'r, 'z) sh_scheme" where
  "x_loop 0 i result c v s = Inr s"
| "x_loop (Suc k) i result c v s =
     rbind (pmem_read c v (i * 4 + result) s) (\<lambda>r.
       x_loop k (i + 1) result c v
         (say [MemLine i ((i * 4 + result) AND NOT 3) (fst r)] (snd r)))"

definition cmd_x :: "('d, 'r) rig \<Rightarrow> ('d, 'r, 'z) sh_scheme \<Rightarrow> abort + int \<times> ('d, 'r, 'z) sh_scheme" where
  "cmd_x k s =
     (case strtok_next s of (N_str, s1) \<Rightarrow> case strtok_next s1 of (expression, s2) \<Rightarrow>
        (case (N_str, expression) of
           (Some ns, Some e) \<Rightarrow>
             rbind (expr (kcfg k) (kenv k) e True s2) (\<lambda>r.
               if fst (snd r)
               then rbind (x_loop (unat (host_atoi ns)) 0 (fst r) (kcfg k) (kenv k) (snd (snd r))) (\<lambda>s'. Inr (0, s'))
               else Inr (0, say [Text ''parse expression fail''] (snd (snd r))))
         | _ \<Rightarrow> Inr (0, say [Text ''require 2 arguments N and EXPR''] s2)))"

definition cmd_p :: "('d, 'r) rig \<Rightarrow> string option \<Rightarrow> ('d, 'r, 'z) sh_scheme \<Rightarrow> abort + int \<times> ('d, 'r, 'z) sh_scheme" where
  "cmd_p k args s =
     (case args of
        None \<Rightarrow> Inl NullDeref
      | Some e \<Rightarrow> rbind (expr (kcfg k) (kenv k) e True s) (\<lambda>r.
          Inr (0, say [if fst (snd r) then ValueLine (fst r) else Text ''try again''] (snd (snd r)))))"

definition cmd_w :: "('d, 'r) rig \<Rightarrow> string option \<Rightarrow> ('d, 'r, 'z) sh_scheme \<Rightarrow> abort + int \<times> ('d, 'r, 'z) sh_scheme" where
  "cmd_w k args s =
     (case args of
        None \<Rightarrow> Inl (if free_list s = None then AssertFail else NullDeref)
      | Some e \<Rightarrow> rbind (set_new_wp (kcfg k) (kenv k) e s) (\<lambda>r. Inr (0, say [WpSet (fst r)] (snd r))))"

definition cmd_d :: "('d, 'r, 'z) sh_scheme \<Rightarrow> abort + int \<times> ('d, 'r, 'z) sh_scheme" where
  "cmd_d s =
     (case strtok_next s of (N_str, s1) \<Rightarrow>
        (case N_str of
           None \<Rightarrow> Inr (0, say [Text ''require an arguments N''] s1)
         | Some t \<Rightarrow> rbind (of_loop (delete_wp (sint (host_atoi t)) s1)) (\<lambda>r.
             Inr (0, say [WpDeleted (fst r)] (snd r)))))"

definition cmd_t :: "('d, 'r) rig \<Rightarrow> ('d, 'r, 'z) sh_scheme \<Rightarrow> abort + int \<times> ('d, 'r, 'z) sh_scheme" where
  "cmd_t k s =
     (case strtok_next s of (arg, s1) \<Rightarrow>
        (case arg of
           None \<Rightarrow> Inr (0, say [Text ''An argument i or f is required''] s1)
         | Some a \<Rightarrow>
             if a = ''i'' then
               Inr (0, say (if c_iringtrace (kcfg k) then map (\<lambda>(b, l). RingLine b l) (iringbuf_print s1) else []) s1)
             else if a = ''f'' then Inr (0, say (map (\<lambda>(p, n, m). FtraceLine p n m) (ftrace_print s1)) s1)
             else Inr (0, say [Text ''Invalid argument''] s1)))"

definition cmd_help :: "('d, 'r, 'z) sh_scheme \<Rightarrow> abort + int \<times> ('d, 'r, 'z) sh_scheme" where
  "cmd_help s =
     (case strtok_next s of (arg, s1) \<Rightarrow>
        (case arg of
           None \<Rightarrow> Inr (0, say (map (\<lambda>(n, d, _). HelpLine n d) cmd_table) s1)
         | Some a \<Rightarrow>
             (case find (\<lambda>(n, _, _). n = a) cmd_table of
                Some (n, d, _) \<Rightarrow> Inr (0, say [HelpLine n d] s1)
              | None \<Rightarrow> Inr (0, say [Text (''Unknown command '' @ a)] s1))))"

definition handler ::
  "('d, 'r) rig \<Rightarrow> cmd \<Rightarrow> string option \<Rightarrow> ('d, 'r, 'z) sh_scheme \<Rightarrow> abort + int \<times> ('d, 'r, 'z) sh_scheme" where
  "handler k c args s =
     (case c of
        C_help \<Rightarrow> cmd_help s | C_c \<Rightarrow> cmd_c k s | C_q \<Rightarrow> cmd_q s | C_si \<Rightarrow> cmd_si k s
      | C_info \<Rightarrow> cmd_info k s | C_x \<Rightarrow> cmd_x k s | C_p \<Rightarrow> cmd_p k args s | C_w \<Rightarrow> cmd_w k args s
      | C_d \<Rightarrow> cmd_d s | C_t \<Rightarrow> cmd_t k s)"

text \<open>One line: the result of its handler, 0 when there is no command.\<close>

definition sdb_line :: "('d, 'r) rig \<Rightarrow> string \<Rightarrow> ('d, 'r, 'z) sh_scheme \<Rightarrow> abort + int \<times> ('d, 'r, 'z) sh_scheme" where
  "sdb_line k ln s =
     (case strtok ln of
        (None, r) \<Rightarrow> Inr (0, s\<lparr>strtok_rest := r\<rparr>)
      | (Some c, r) \<Rightarrow>
          (case find (\<lambda>(n, _, _). n = c) cmd_table of
             Some (_, _, h) \<Rightarrow> handler k h (if r = [] then None else Some r) (s\<lparr>strtok_rest := r\<rparr>)
           | None \<Rightarrow> Inr (0, say [Text (''Unknow command '' @ c)] (s\<lparr>strtok_rest := r\<rparr>))))"

fun sdb_loop :: "('d, 'r) rig \<Rightarrow> string list \<Rightarrow> ('d, 'r, 'z) sh_scheme \<Rightarrow> abort + ('d, 'r, 'z) sh_scheme" where
  "sdb_loop k [] s = Inr s"
| "sdb_loop k (l # ls) s =
     rbind (sdb_line k l s) (\<lambda>r. if fst r < 0 then Inr (snd r) else sdb_loop k ls (snd r))"

definition sdb_mainloop :: "('d, 'r) rig \<Rightarrow> string list \<Rightarrow> ('d, 'r, 'z) sh_scheme \<Rightarrow> abort + ('d, 'r, 'z) sh_scheme" where
  "sdb_mainloop k ls s =
     (if is_batch_mode s then rbind (cmd_c k s) (\<lambda>r. Inr (snd r)) else sdb_loop k ls s)"

definition init_sdb :: "('d, 'r, 'z) sh_scheme \<Rightarrow> ('d, 'r, 'z) sh_scheme" where
  "init_sdb s = init_wp_pool s"


section \<open>A session keeps the watchpoints in shape and always answers\<close>

text \<open>A step that returns a state in shape, or stops for a reason other than a loop without end.\<close>

definition keeps :: "('a \<Rightarrow> bool) \<Rightarrow> abort + 'a \<Rightarrow> bool" where
  "keeps P r \<longleftrightarrow> (case r of Inl e \<Rightarrow> e \<noteq> Diverge | Inr x \<Rightarrow> P x)"

lemma keeps_simps [simp]: "keeps P (Inr x) = P x" "keeps P (Inl e) \<longleftrightarrow> e \<noteq> Diverge"
  by (simp_all add: keeps_def)

lemma keeps_rbind: "keeps P r \<Longrightarrow> (\<And>x. P x \<Longrightarrow> keeps Q (f x)) \<Longrightarrow> keeps Q (rbind r f)"
  by (cases r) auto

lemma keepsI: "tame r \<Longrightarrow> (\<And>x. r = Inr x \<Longrightarrow> P x) \<Longrightarrow> keeps P r"
  by (cases r) (auto simp: tame_def)

lemma wp_inv_cong:
  fixes s s' :: "('d, 'z) wps_scheme"
  shows "wp_pool s' = wp_pool s \<Longrightarrow> head s' = head s \<Longrightarrow> free_list s' = free_list s \<Longrightarrow> wp_inv s' = wp_inv s"
  by (simp add: wp_inv_def)

lemma wp_inv_sim_more:
  fixes s s' :: "('d, 'z) wps_scheme"
  assumes "sim.more s' = sim.more s"
  shows "wp_inv s' = wp_inv s"
  using assms by (intro wp_inv_cong; cases s; cases s'; simp)

lemma wp_inv_sdb_more:
  fixes s s' :: "('d, 'z) wps_scheme"
  assumes "sdb.more s' = sdb.more s"
  shows "wp_inv s' = wp_inv s"
  using assms by (intro wp_inv_cong; cases s; cases s'; simp)

lemma keeps_expr:
  fixes s :: "('d, 'z) wps_scheme"
  assumes "wp_inv s"
  shows "keeps (\<lambda>(w, ok, s'). wp_inv s') (expr c v e ok s)"
  by (rule keepsI [OF tame_expr]) (auto simp: assms dest: wp_inv_sdb_more [OF expr_more])

lemma keeps_scan:
  assumes "wp_inv s"
  shows "keeps (\<lambda>(b, s'). wp_inv s') (of_loop (scan_wp_diff c v s))"
proof -
  obtain r where r: "scan_wp_diff c v s = Some r" and sp: "case r of
          Inl e \<Rightarrow> scan_spec c v (entries s) s = Inl e
        | Inr (b, s') \<Rightarrow> scan_spec c v (entries s) s = Inr (b, entries s') \<and> wp_inv s'"
    using scan_wp_diff_entries [OF assms] by blast
  then show ?thesis using tame_scan_spec [of c v "entries s" s] by (cases r) (auto simp: tame_def)
qed

lemma keeps_run_prog:
  fixes s :: "('d, 'z) wps_scheme"
  assumes "wp_inv s"
  shows "keeps wp_inv (run_prog c v p s)"
proof -
  have t: "tame (run_prog c v p s)"
  proof (induction p arbitrary: s)
    case (Call d f k)
    have "tame (dpi_call c v f (s\<lparr>dut := d\<rparr>))"
      by (auto simp: dpi_call_def tame_pmem_read pmem_write_def mmio_write_def npctrap_def unknow_inst_def
          core_read_reg_def Let_def intro!: tame_rbind split: dpi.splits)
    with Call.IH show ?case by (auto intro!: tame_rbind)
  qed simp
  then show ?thesis
    by (rule keepsI) (auto simp: assms dest: wp_inv_sim_more [OF run_prog_more])
qed

lemma wp_inv_updates [simp]:
  fixes s :: "('d, 'r, 'z) xec_scheme"
  shows "wp_inv (nr_clk_tick_update f s) = wp_inv s" "wp_inv (g_nr_guest_inst_update g s) = wp_inv s"
    "wp_inv (g_timer_update f s) = wp_inv s" "wp_inv (g_print_step_update b s) = wp_inv s"
    "wp_inv (dev_last_update f s) = wp_inv s" "wp_inv (npc_state_update m s) = wp_inv s"
  by (simp_all add: wp_inv_def)

lemma keeps_single_cycle:
  fixes s :: "('d, 'r, 'z) xec_scheme"
  assumes "wp_inv s"
  shows "keeps wp_inv (single_cycle c v h s)"
  unfolding single_cycle_def Let_def
  by (intro keeps_rbind [OF keeps_run_prog] keeps_run_prog) (simp_all add: assms)

lemma keeps_exec_cycles:
  fixes s :: "('d, 'r, 'z) xec_scheme"
  assumes "wp_inv s"
  shows "keeps wp_inv (exec_cycles k c v h s)"
  using assms
proof (induction k arbitrary: s)
  case (Suc k)
  then show ?case by (auto intro!: keeps_rbind [OF keeps_single_cycle [OF Suc.prems]])
qed simp

lemma keeps_exec_once:
  fixes s :: "('d, 'r, 'z) xec_scheme"
  assumes "wp_inv s"
  shows "keeps (\<lambda>(d, s'). wp_inv s') (exec_once c v h s)"
  unfolding exec_once_def exec_one_inst_def
  by (rule keeps_rbind [OF keeps_exec_cycles [OF assms]]) (simp add: read_inst_def Let_def)

lemma wp_inv_difftest [simp]:
  fixes s :: "('d, 'r, 'z) dif_scheme"
  shows "wp_inv (difftest_step v re p s) = wp_inv s"
  by (simp add: wp_inv_def difftest_step_def Let_def checkregs_def update_reg_state_def)

lemma wp_inv_iring [simp]: "wp_inv (iringbuf_push b s) = wp_inv s"
  by (simp add: wp_inv_def iringbuf_push_def Let_def)

lemma keeps_ftrace:
  assumes "wp_inv s"
  shows "keeps wp_inv (ftrace_rcd d s)"
  using assms by (auto simp: ftrace_rcd_def fringbuf_push_def Let_def wp_inv_def split: option.splits)

lemma keeps_trace:
  fixes s :: "('d, 'r, 'z) xec_scheme"
  assumes "wp_inv s"
  shows "keeps wp_inv (trace_and_difftest c v re d s)"
  unfolding trace_and_difftest_def Let_def
proof (rule keeps_rbind [where P=wp_inv])
  fix s3 :: "('d, 'r, 'z) xec_scheme"
  assume s3: "wp_inv s3"
  have "wp_inv (watch_stop b s)" if "wp_inv s" for b and s :: "('d, 'r, 'z) xec_scheme"
    using that by (simp add: watch_stop_def)
  then show "keeps wp_inv (if c_watchpoint c
           then rbind (of_loop (scan_wp_diff c v s3)) (\<lambda>r. Inr (watch_stop (fst r) (snd r))) else Inr s3)"
    using s3 by (auto intro!: keeps_rbind [OF keeps_scan])
qed (auto simp: assms keeps_ftrace)

lemma wp_inv_get_time:
  fixes s :: "('d, 'z) wps_scheme"
  shows "get_time v s = (t, s') \<Longrightarrow> wp_inv s' = wp_inv s"
  by (rule wp_inv_cong) (auto simp: get_time_def get_time_internal_def Let_def split: if_splits)

lemma wp_inv_device [simp]: "wp_inv (device_update v s) = wp_inv s"
  by (auto simp: device_update_def dest: wp_inv_get_time split: prod.splits)

lemma keeps_execute:
  fixes s :: "('d, 'r, 'z) xec_scheme"
  assumes "wp_inv s"
  shows "keeps wp_inv (execute n c v h re s)"
  using assms
proof (induction n arbitrary: s)
  case (Suc n)
  show ?case unfolding execute.simps
  proof (rule keeps_rbind [OF keeps_exec_once [OF Suc.prems]])
    fix r :: "decode \<times> ('d, 'r, 'z) xec_scheme"
    assume "case r of (d, s') \<Rightarrow> wp_inv s'"
    then have "wp_inv ((snd r)\<lparr>g_nr_guest_inst := g_nr_guest_inst (snd r) + 1\<rparr>)" by auto
    from keeps_trace [OF this, of c v re "fst r"] Suc.IH
    show "keeps wp_inv (rbind (trace_and_difftest c v re (fst r)
              ((snd r)\<lparr>g_nr_guest_inst := g_nr_guest_inst (snd r) + 1\<rparr>)) (\<lambda>s1.
       if state (npc_state s1) \<noteq> NPC_RUNNING then Inr s1
       else execute n c v h re (if c_device c then device_update v s1 else s1)))"
      by (intro keeps_rbind [where P=wp_inv]) auto
  qed
qed simp

lemma keeps_cpu_exec:
  fixes s :: "('d, 'r, 'z) xec_scheme"
  assumes "wp_inv s"
  shows "keeps wp_inv (cpu_exec n c v h re s)"
proof -
  have tail: "keeps wp_inv (cpu_exec_tail ts c v s)" if "wp_inv s" for ts and s :: "('d, 'r, 'z) xec_scheme"
  proof -
    obtain te s4 where g: "get_time v s = (te, s4)" by fastforce
    have "wp_inv s4" using wp_inv_get_time [OF g] that by simp
    then show ?thesis
      by (cases "state (npc_state s4)")
         (auto simp: g cpu_exec_tail_def Let_def free_fp_def wp_inv_def statistic_def)
  qed
  show ?thesis
  proof (cases "state (npc_state s) = NPC_END \<or> state (npc_state s) = NPC_QUIT")
    case False
    obtain ts s2 where g: "get_time v (s\<lparr>g_print_step := (n < MAX_INST_TO_PRINT),
        npc_state := (npc_state s)\<lparr>state := NPC_RUNNING\<rparr>\<rparr>) = (ts, s2)" by fastforce
    have "wp_inv s2" using wp_inv_get_time [OF g] assms by simp
    with g False show ?thesis
      by (auto simp: cpu_exec_def Let_def intro!: keeps_rbind [OF keeps_execute] tail)
  qed (use assms in \<open>auto simp: cpu_exec_def\<close>)
qed


abbreviation keeps2 :: "abort + int \<times> ('d, 'r, 'z) sh_scheme \<Rightarrow> bool" where
  "keeps2 \<equiv> keeps (\<lambda>(i, s'). wp_inv s')"

lemma wp_inv_say [simp]: "wp_inv (say ls s) = wp_inv s" "wp_inv (s\<lparr>strtok_rest := r\<rparr>) = wp_inv s"
  by (simp_all add: say_def wp_inv_def)

lemma wp_inv_strtok: "strtok_next s = (t, s') \<Longrightarrow> wp_inv s' = wp_inv s"
  by (auto simp: strtok_next_def split: prod.splits)

lemma keeps_run_cpu:
  fixes s :: "('d, 'r, 'z) sh_scheme"
  assumes "wp_inv s"
  shows "keeps2 (rbind (run_cpu k n s) (\<lambda>s'. Inr (0, s')))"
  unfolding run_cpu_def by (rule keeps_rbind [OF keeps_cpu_exec [OF assms]]) simp

lemma keeps_x_loop:
  assumes "wp_inv s"
  shows "keeps wp_inv (x_loop n i a c v s)"
  using assms
proof (induction n arbitrary: i s)
  case (Suc n)
  have "keeps (\<lambda>(w, s'). wp_inv s') (pmem_read c v (i * 4 + a) s)"
    by (rule keepsI [OF tame_pmem_read]) (auto simp: Suc.prems dest: wp_inv_sim_more [OF pmem_read_more])
  then show ?case by (auto intro!: keeps_rbind Suc.IH elim: keeps_rbind)
qed simp

lemma keeps_info:
  assumes "wp_inv s"
  shows "keeps2 (cmd_info k s)"
proof -
  obtain a s1 where n: "strtok_next s = (a, s1)" by fastforce
  have s1: "wp_inv s1" using wp_inv_strtok [OF n] assms by simp
  then obtain hs fs where "pool_shape (wp_pool s1) (head s1) (free_list s1) hs fs" by (auto simp: wp_inv_def)
  then have "print_wp_info s1 = Some (map (entry \<circ> wp_pool s1) hs)"
    by (simp add: print_wp_info_def pool_shape_def info_loop_links)
  with n s1 show ?thesis by (cases a) (auto simp: cmd_info_def)
qed

lemma keeps_cmd_x:
  assumes "wp_inv s"
  shows "keeps2 (cmd_x k s)"
proof -
  obtain a s1 where n1: "strtok_next s = (a, s1)" by fastforce
  obtain b s2 where n2: "strtok_next s1 = (b, s2)" by fastforce
  have s2: "wp_inv s2" using wp_inv_strtok [OF n1] wp_inv_strtok [OF n2] assms by simp
  then show ?thesis
    by (cases a; cases b)
       (auto simp: cmd_x_def n1 n2 intro!: keeps_rbind [OF keeps_expr] keeps_rbind [OF keeps_x_loop])
qed

lemma keeps_delete:
  assumes "wp_inv s"
  shows "keeps2 (cmd_d s)"
proof -
  obtain a s1 where n: "strtok_next s = (a, s1)" by fastforce
  have s1: "wp_inv s1" using wp_inv_strtok [OF n] assms by simp
  show ?thesis
  proof (cases a)
    case (Some t)
    from delete_wp_entries [OF s1, of "sint (host_atoi t)"] show ?thesis by (auto simp: cmd_d_def n Some)
  qed (use s1 in \<open>simp add: cmd_d_def n\<close>)
qed

lemma keeps_cmd_w:
  assumes "wp_inv s"
  shows "keeps2 (cmd_w k args s)"
proof (cases args)
  case (Some e)
  have "tame (set_new_wp (kcfg k) (kenv k) e s)" by (auto simp: set_new_wp_def intro!: tame_rbind tame_new_wp)
  then have "keeps (\<lambda>(r, s'). wp_inv s') (set_new_wp (kcfg k) (kenv k) e s)"
    by (rule keepsI) (auto dest: set_new_wp_inv [OF assms])
  then show ?thesis by (auto simp: cmd_w_def Some intro!: keeps_rbind elim: keeps_rbind)
qed (simp add: cmd_w_def)

lemma keeps_handler:
  assumes "wp_inv s"
  shows "keeps2 (handler k c args s)"
proof (cases c)
  case C_help
  then show ?thesis using assms
    by (auto simp: handler_def cmd_help_def dest: wp_inv_strtok split: prod.splits option.splits)
next
  case C_c
  then show ?thesis using keeps_run_cpu [OF assms] by (simp add: handler_def cmd_c_def)
next
  case C_q
  then show ?thesis using assms by (simp add: handler_def cmd_q_def)
next
  case C_si
  obtain a s1 where n: "strtok_next s = (a, s1)" by fastforce
  then show ?thesis using C_si wp_inv_strtok [OF n] assms keeps_run_cpu [of s1] by (simp add: handler_def cmd_si_def Let_def)
next
  case C_p
  then show ?thesis using assms
    by (cases args) (auto simp: handler_def cmd_p_def intro!: keeps_rbind [OF keeps_expr])
next
  case C_t
  obtain a s1 where n: "strtok_next s = (a, s1)" by fastforce
  then show ?thesis using C_t wp_inv_strtok [OF n] assms by (cases a) (simp_all add: handler_def cmd_t_def)
qed (simp_all add: handler_def keeps_info keeps_cmd_x keeps_delete keeps_cmd_w assms)

lemma keeps_line:
  assumes "wp_inv s"
  shows "keeps2 (sdb_line k l s)"
proof -
  obtain t r where "strtok l = (t, r)" by fastforce
  with assms show ?thesis
    by (cases t) (auto simp: sdb_line_def intro!: keeps_handler split: option.splits)
qed

lemma keeps_loop: "wp_inv s \<Longrightarrow> keeps wp_inv (sdb_loop k ls s)"
proof (induction ls arbitrary: s)
  case (Cons l ls)
  then show ?case by (auto intro!: keeps_rbind [OF keeps_line])
qed simp

text \<open>C3: after \<open>init_sdb\<close> no input, of any number of lines with any arguments, makes a loop of
  the debugger or of the simulator run forever, and the watchpoint pool is in shape whenever the
  command loop returns.\<close>

theorem sdb_session:
  "case sdb_mainloop k ls (init_sdb s) of Inl e \<Rightarrow> e \<noteq> Diverge | Inr s' \<Rightarrow> wp_inv s'"
proof -
  have i: "wp_inv (init_sdb s)" by (simp add: init_sdb_def watch_init_inv)
  have "keeps wp_inv (rbind (cmd_c k (init_sdb s)) (\<lambda>r. Inr (snd r)))"
    unfolding cmd_c_def by (rule keeps_rbind [OF keeps_run_cpu [OF i]]) auto
  with keeps_loop [OF i, of k ls] show ?thesis
    by (simp add: sdb_mainloop_def keeps_def)
qed

text \<open>A line whose first word is not a command, or a blank line.\<close>

definition no_command :: "string \<Rightarrow> bool" where
  "no_command l \<longleftrightarrow> (case fst (strtok l) of None \<Rightarrow> True | Some c \<Rightarrow> c \<notin> fst ` set cmd_table)"

lemma find_cmd_None: "c \<notin> fst ` set cmd_table \<Longrightarrow> find (\<lambda>(n, _, _). n = c) cmd_table = None"
  by (force simp: find_None_iff)

lemma no_command_line:
  assumes "no_command l"
  shows "\<exists>o' r. sdb_line k l s = Inr (0, s\<lparr>strtok_rest := r, out := o'\<rparr>)"
proof -
  obtain t r where t: "strtok l = (t, r)" by fastforce
  show ?thesis
  proof (cases t)
    case None
    have "sdb_line k l s = Inr (0, s\<lparr>strtok_rest := r\<rparr>)" by (simp add: sdb_line_def t None)
    also have "s\<lparr>strtok_rest := r\<rparr> = s\<lparr>strtok_rest := r, out := out s\<rparr>" by simp
    finally show ?thesis by blast
  next
    case (Some c)
    then have "find (\<lambda>(n, _, _). n = c) cmd_table = None"
      using assms t by (intro find_cmd_None) (simp add: no_command_def)
    then have "sdb_line k l s = Inr (0, s\<lparr>strtok_rest := r, out := out s @ [Text (''Unknow command '' @ c)]\<rparr>)"
      by (simp add: sdb_line_def t Some say_def)
    then show ?thesis by blast
  qed
qed

text \<open>Blank lines and lines that are no command change nothing but the output and where
  \<open>strtok\<close> stands, and \<open>q\<close> then ends the session at once, with a good exit status, whatever
  the state of the simulated program was.\<close>

theorem sdb_quit:
  assumes "list_all no_command us" "\<not> is_batch_mode s"
  shows "\<exists>o' r s'. sdb_mainloop k (us @ ''q'' # ls) s = Inr s'
    \<and> s' = s\<lparr>npc_state := (npc_state s)\<lparr>state := NPC_QUIT\<rparr>, strtok_rest := r, out := o'\<rparr>
    \<and> \<not> is_exit_status_bad s'"
proof -
  have "\<exists>o' r. sdb_loop k (us @ ''q'' # ls) s
      = Inr (s\<lparr>npc_state := (npc_state s)\<lparr>state := NPC_QUIT\<rparr>, strtok_rest := r, out := o'\<rparr>)"
    using assms(1)
  proof (induction us arbitrary: s)
    case Nil
    have "strtok ''q'' = (Some ''q'', [])" by (simp add: strtok_def)
    moreover have "find (\<lambda>(n, _, _). n = ''q'') cmd_table = Some (''q'', ''Exit npc'', C_q)"
      by (simp add: cmd_table_def)
    ultimately have "sdb_loop k (''q'' # ls) s = Inr (s\<lparr>strtok_rest := [], npc_state := (npc_state s)\<lparr>state := NPC_QUIT\<rparr>\<rparr>)"
      by (simp add: sdb_line_def handler_def cmd_q_def)
    also have "s\<lparr>strtok_rest := [], npc_state := m\<rparr> = s\<lparr>npc_state := m, strtok_rest := [], out := out s\<rparr>" for m
      by simp
    finally show ?case unfolding append_Nil by blast
  next
    case (Cons l us)
    obtain o1 r1 where "sdb_line k l s = Inr (0, s\<lparr>strtok_rest := r1, out := o1\<rparr>)"
      using no_command_line [of l k s] Cons.prems by auto
    with Cons.IH [of "s\<lparr>strtok_rest := r1, out := o1\<rparr>"] Cons.prems show ?case by simp
  qed
  with assms(2) show ?thesis by (auto simp: sdb_mainloop_def is_exit_status_bad_def)
qed

definition example_sh :: "(u32 \<times> (u32 \<Rightarrow> u32), cpu_state_t) sh" where
  "example_sh = xec.extend example_xec \<lparr>strtok_rest = [], is_batch_mode = False, out = []\<rparr>"

definition example_rig :: "(u32 \<times> (u32 \<Rightarrow> u32), cpu_state_t) rig" where
  "example_rig = \<lparr>kcfg = kconfig_defaults, kenv = example_env, kharness = example_harness, kref = example_ref\<rparr>"

lemma sdb_quit_witness:
  "\<exists>s'. sdb_mainloop example_rig [''  '', ''quit'', ''q'', ''c''] example_sh = Inr s'
     \<and> state (npc_state s') = NPC_QUIT \<and> \<not> is_exit_status_bad s'"
proof -
  have "list_all no_command [''  '', ''quit'']" by (simp add: no_command_def strtok_def cmd_table_def)
  moreover have "\<not> is_batch_mode example_sh" by (simp add: example_sh_def xec.defs)
  ultimately show ?thesis
    using sdb_quit [of "[''  '', ''quit'']" example_sh example_rig "[''c'']"] by auto
qed

end
