(* ===== verification/KlibString.thy ===== *)
theory KlibString imports Prelude "HOL-Library.List_Lexorder" begin

text \<open>
  \<open>abstract-machine/klib/src/string.c\<close> on the 32 bit RISC-V target: a pointer and a \<open>size_t\<close>
  are 32 bit words, the memory a function from addresses to bytes, all of it readable and
  writable as on the bare machine.  A loop to a NUL is a \<open>partial_function\<close>: it does not end when
  there is none.  \<open>strncpy\<close> panics.
\<close>

type_synonym mem = "u32 \<Rightarrow> u8"

section \<open>The functions\<close>

partial_function (option) strlen_loop :: "mem \<Rightarrow> u32 \<Rightarrow> u32 \<Rightarrow> u32 option" where
  "strlen_loop m s len = (if m s = 0 then Some len else strlen_loop m (s + 1) (len + 1))"

definition strlen :: "mem \<Rightarrow> u32 \<Rightarrow> u32 option" where
  "strlen m s = strlen_loop m s 0"

partial_function (option) copy_loop :: "u32 \<Rightarrow> u32 \<Rightarrow> mem \<Rightarrow> mem option" where
  "copy_loop dest src m =
     (if m src = 0 then Some (m(dest := m src))
      else copy_loop (dest + 1) (src + 1) (m(dest := m src)))"

definition strcpy :: "u32 \<Rightarrow> u32 \<Rightarrow> mem \<Rightarrow> (u32 \<times> mem) option" where
  "strcpy dst src m = Option.bind (copy_loop dst src m) (\<lambda>m'. Some (dst, m'))"

definition strncpy :: "u32 \<Rightarrow> u32 \<Rightarrow> u32 \<Rightarrow> mem \<Rightarrow> abort + u32 \<times> mem" where
  "strncpy dst src n m = Inl (Panic ''Not implemented'')"

partial_function (option) seek_end :: "mem \<Rightarrow> u32 \<Rightarrow> u32 option" where
  "seek_end m d = (if m d = 0 then Some d else seek_end m (d + 1))"

definition strcat :: "u32 \<Rightarrow> u32 \<Rightarrow> mem \<Rightarrow> (u32 \<times> mem) option" where
  "strcat dst src m =
     Option.bind (seek_end m dst) (\<lambda>dest.
     Option.bind (copy_loop dest src m) (\<lambda>m'. Some (dst, m')))"

partial_function (option) strcmp :: "mem \<Rightarrow> u32 \<Rightarrow> u32 \<Rightarrow> int option" where
  "strcmp m s1 s2 =
     (if m s1 \<noteq> 0 \<and> m s1 = m s2 then strcmp m (s1 + 1) (s2 + 1)
      else Some (uint (m s1) - uint (m s2)))"

fun strncmp_loop :: "nat \<Rightarrow> mem \<Rightarrow> u32 \<Rightarrow> u32 \<Rightarrow> int" where
  "strncmp_loop 0 m s1 s2 = 0"
| "strncmp_loop (Suc n) m s1 s2 =
     (if m s1 \<noteq> m s2 then uint (m s1) - uint (m s2)
      else if m s1 = 0 then 0 else strncmp_loop n m (s1 + 1) (s2 + 1))"

definition strncmp :: "mem \<Rightarrow> u32 \<Rightarrow> u32 \<Rightarrow> u32 \<Rightarrow> int" where
  "strncmp m s1 s2 n = (if n = 0 then 0 else strncmp_loop (unat n) m s1 s2)"

fun memset_loop :: "nat \<Rightarrow> u32 \<Rightarrow> u8 \<Rightarrow> mem \<Rightarrow> mem" where
  "memset_loop 0 p c m = m"
| "memset_loop (Suc n) p c m = memset_loop n (p + 1) c (m(p := c))"

definition memset :: "u32 \<Rightarrow> u32 \<Rightarrow> u32 \<Rightarrow> mem \<Rightarrow> u32 \<times> mem" where
  "memset s c n m = (s, memset_loop (unat n) s (ucast c) m)"

text \<open>\<open>for (i = i0; i < i0 + k; i++) d[i] = s[i]\<close>, and the loop downwards from \<open>k\<close>.\<close>

fun copy_up :: "nat \<Rightarrow> nat \<Rightarrow> u32 \<Rightarrow> u32 \<Rightarrow> mem \<Rightarrow> mem" where
  "copy_up 0 i d s m = m"
| "copy_up (Suc k) i d s m = copy_up k (Suc i) d s (m(d + of_nat i := m (s + of_nat i)))"

fun copy_down :: "nat \<Rightarrow> u32 \<Rightarrow> u32 \<Rightarrow> mem \<Rightarrow> mem" where
  "copy_down 0 d s m = m"
| "copy_down (Suc i) d s m = copy_down i d s (m(d + of_nat i := m (s + of_nat i)))"

definition memmove :: "u32 \<Rightarrow> u32 \<Rightarrow> u32 \<Rightarrow> mem \<Rightarrow> u32 \<times> mem" where
  "memmove d s n m =
     (if d = s \<or> n = 0 then (d, m)
      else if d < s then (d, copy_up (unat n) 0 d s m)
      else (d, copy_down (unat n) d s m))"

definition memcpy :: "u32 \<Rightarrow> u32 \<Rightarrow> u32 \<Rightarrow> mem \<Rightarrow> u32 \<times> mem" where
  "memcpy d s n m = (d, copy_up (unat n) 0 d s m)"

fun memcmp_loop :: "nat \<Rightarrow> mem \<Rightarrow> u32 \<Rightarrow> u32 \<Rightarrow> int" where
  "memcmp_loop 0 m s1 s2 = 0"
| "memcmp_loop (Suc n) m s1 s2 =
     (if m s1 \<noteq> m s2 then uint (m s1) - uint (m s2) else memcmp_loop n m (s1 + 1) (s2 + 1))"

definition memcmp :: "mem \<Rightarrow> u32 \<Rightarrow> u32 \<Rightarrow> u32 \<Rightarrow> int" where
  "memcmp m s1 s2 n = memcmp_loop (unat n) m s1 s2"

section \<open>Blocks and strings in memory\<close>

text \<open>The memory after moving a block of \<open>n\<close> bytes from \<open>s\<close> to \<open>d\<close>.\<close>

definition moved :: "nat \<Rightarrow> nat \<Rightarrow> u32 \<Rightarrow> u32 \<Rightarrow> mem \<Rightarrow> mem" where
  "moved i j d s m = (\<lambda>a. if i \<le> unat (a - d) \<and> unat (a - d) < j then m (s + (a - d)) else m a)"

lemma moved_none: "moved i i d s m = m"
  unfolding moved_def by (rule ext) (meson leD)

lemma unat_offset: "i < 4294967296 \<Longrightarrow> unat (of_nat i :: u32) = i"
  by (simp add: unat_of_nat)

lemma eq_offset_iff: "i < 4294967296 \<Longrightarrow> a = d + of_nat i \<longleftrightarrow> unat (a - d) = i" for a d :: u32
proof -
  assume i: "i < 4294967296"
  have "a = d + of_nat i \<longleftrightarrow> a - d = of_nat i" by (auto simp: algebra_simps)
  also have "\<dots> \<longleftrightarrow> unat (a - d) = i" unfolding word_unat_eq_iff using unat_offset [OF i] by simp
  finally show ?thesis .
qed

lemma moved_up:
  assumes "j < 4294967296" "i \<le> j" "\<not> (i \<le> unat (s + of_nat j - d) \<and> unat (s + of_nat j - d) < j)"
  shows "(moved i j d s m)(d + of_nat j := moved i j d s m (s + of_nat j)) = moved i (Suc j) d s m"
proof
  fix a
  have "moved i j d s m (s + of_nat j) = m (s + of_nat j)"
    using assms(3) by (auto simp: moved_def)
  moreover have "a = d + of_nat j \<longleftrightarrow> unat (a - d) = j" using eq_offset_iff [OF assms(1)] .
  ultimately show "((moved i j d s m)(d + of_nat j := moved i j d s m (s + of_nat j))) a = moved i (Suc j) d s m a"
    using assms(2) by (auto simp: moved_def less_Suc_eq)
qed

lemma moved_down:
  assumes "i < 4294967296" "i < j" "\<not> (Suc i \<le> unat (s + of_nat i - d) \<and> unat (s + of_nat i - d) < j)"
  shows "(moved (Suc i) j d s m)(d + of_nat i := moved (Suc i) j d s m (s + of_nat i)) = moved i j d s m"
proof
  fix a
  have "moved (Suc i) j d s m (s + of_nat i) = m (s + of_nat i)"
    using assms(3) by (auto simp: moved_def)
  moreover have "a = d + of_nat i \<longleftrightarrow> unat (a - d) = i" using eq_offset_iff [OF assms(1)] .
  ultimately show "((moved (Suc i) j d s m)(d + of_nat i := moved (Suc i) j d s m (s + of_nat i))) a = moved i j d s m a"
    using assms(2) by (auto simp: moved_def le_less_Suc_eq not_less)
qed

text \<open>The distance of two addresses in blocks that do not wrap around.\<close>

lemma unat_add_offset:
  fixes s :: u32
  assumes "unat s + j < 4294967296"
  shows "unat (s + of_nat j) = unat s + j"
  using assms by (simp add: unat_word_ariths unat_of_nat)

lemma dist_up:
  fixes d s :: u32
  assumes "d < s" "unat s + n \<le> 4294967296" "j < n"
  shows "unat (s + of_nat j - d) = unat s + j - unat d"
  using assms unat_add_offset [of s j] by (simp add: unat_sub_if_size word_less_nat_alt word_le_nat_alt word_size)

lemma dist_down:
  fixes d s :: u32
  assumes "s < d" "unat d + n \<le> 4294967296" "j < n"
  shows "unat (s + of_nat j - d) = (if unat s + j < unat d then 4294967296 + unat s + j - unat d else unat s + j - unat d)"
  using assms unat_add_offset [of s j] unat_lt32 [of d]
  by (auto simp: unat_sub_if_size word_less_nat_alt word_le_nat_alt word_size)

lemma copy_up_moved:
  assumes "\<And>j. j < i + k \<Longrightarrow> \<not> unat (s + of_nat j - d) < j" "i + k \<le> 4294967296"
  shows "copy_up k i d s (moved 0 i d s m) = moved 0 (i + k) d s m"
  using assms
proof (induction k arbitrary: i)
  case (Suc k)
  have "copy_up (Suc k) i d s (moved 0 i d s m) = copy_up k (Suc i) d s (moved 0 (Suc i) d s m)"
    using moved_up [of i 0 s d m] Suc.prems(1) [of i] Suc.prems(2) by simp
  also have "\<dots> = moved 0 (Suc i + k) d s m"
    using Suc.prems by (intro Suc.IH) auto
  finally show ?case by simp
qed simp

lemma copy_down_moved:
  assumes "\<And>j. j < i \<Longrightarrow> \<not> (j < unat (s + of_nat j - d) \<and> unat (s + of_nat j - d) < n)" "i \<le> n" "n \<le> 4294967296"
  shows "copy_down i d s (moved i n d s m) = moved 0 n d s m"
  using assms
proof (induction i)
  case (Suc i)
  have "copy_down (Suc i) d s (moved (Suc i) n d s m) = copy_down i d s (moved i n d s m)"
    using moved_down [of i n s d m] Suc.prems(1) [of i] Suc.prems by simp
  also have "\<dots> = moved 0 n d s m"
    using Suc.prems by (intro Suc.IH) auto
  finally show ?case .
qed simp




section \<open>Strings\<close>

text \<open>The memory holds the bytes \<open>cs\<close>, none of them NUL, and a NUL behind them.\<close>

fun cstr :: "mem \<Rightarrow> u32 \<Rightarrow> u8 list \<Rightarrow> bool" where
  "cstr m a [] \<longleftrightarrow> m a = 0"
| "cstr m a (c # cs) \<longleftrightarrow> m a = c \<and> c \<noteq> 0 \<and> cstr m (a + 1) cs"

lemma cstr_nth:
  "cstr m a cs \<longleftrightarrow> (\<forall>i < length cs. m (a + of_nat i) = cs ! i \<and> cs ! i \<noteq> 0) \<and> m (a + of_nat (length cs)) = 0"
proof (induction cs arbitrary: a)
  case (Cons c cs)
  show ?case unfolding cstr.simps Cons.IH by (simp add: All_less_Suc2 add.assoc add.commute [of 1])
qed simp

lemma cstr_append: "cstr m a (cs @ ds) \<longleftrightarrow> (\<forall>i < length cs. m (a + of_nat i) = cs ! i \<and> cs ! i \<noteq> 0)
    \<and> cstr m (a + of_nat (length cs)) ds"
  by (induction cs arbitrary: a) (auto simp: All_less_Suc2 ac_simps)

lemma strlen_cstr: "cstr m a cs \<Longrightarrow> strlen_loop m a l = Some (l + of_nat (length cs))"
  by (induction cs arbitrary: a l) (subst strlen_loop.simps; simp add: ac_simps)+

lemma strlen_spec: "cstr m a cs \<Longrightarrow> strlen m a = Some (of_nat (length cs))"
  by (simp add: strlen_def strlen_cstr)

lemma seek_end_cstr: "cstr m a cs \<Longrightarrow> seek_end m a = Some (a + of_nat (length cs))"
  by (induction cs arbitrary: a) (subst seek_end.simps; simp add: ac_simps)+

lemma copy_loop_moved:
  assumes "\<And>i. i \<le> j + length cs \<Longrightarrow> \<not> unat (src + of_nat i - dst) < i" "j + length cs < 4294967296"
    "cstr m (src + of_nat j) cs"
  shows "copy_loop (dst + of_nat j) (src + of_nat j) (moved 0 j dst src m) = Some (moved 0 (j + length cs + 1) dst src m)"
  using assms
proof (induction cs arbitrary: j)
  case Nil
  then have "moved 0 j dst src m (src + of_nat j) = 0" by (auto simp: moved_def)
  moreover from this have "(moved 0 j dst src m)(dst + of_nat j := 0) = moved 0 (Suc j) dst src m"
    using moved_up [of j 0 src dst m] Nil by auto
  ultimately show ?case by (subst copy_loop.simps) simp
next
  case (Cons c cs)
  then have c: "moved 0 j dst src m (src + of_nat j) = c" "c \<noteq> 0" by (auto simp: moved_def)
  have "(moved 0 j dst src m)(dst + of_nat j := c) = moved 0 (Suc j) dst src m"
    using moved_up [of j 0 src dst m] Cons.prems(1) [of j] Cons.prems(2) c by auto
  moreover have "copy_loop (dst + of_nat (Suc j)) (src + of_nat (Suc j)) (moved 0 (Suc j) dst src m)
      = Some (moved 0 (Suc j + length cs + 1) dst src m)"
    using Cons.prems by (intro Cons.IH) (auto simp: ac_simps)
  ultimately show ?case using c by (subst copy_loop.simps) (simp add: ac_simps)
qed

text \<open>\<open>strcat\<close> of two strings that do not overlap returns its destination, which then holds
  both, and changes no byte outside the destination.\<close>

theorem strcat_spec:
  assumes "cstr m dst ds" "cstr m src cs" "unat dst + length ds + length cs < 2 ^ 32" "unat src + length cs < 2 ^ 32"
    "unat dst + length ds + length cs < unat src \<or> unat src + length cs < unat dst"
  shows "\<exists>m'. strcat dst src m = Some (dst, m') \<and> cstr m' dst (ds @ cs)
    \<and> (\<forall>a. unat dst + length ds \<le> unat a \<and> unat a \<le> unat dst + length ds + length cs \<or> m' a = m a)"
proof -
  let ?d = "dst + of_nat (length ds)"
  let ?m = "moved 0 (Suc (length cs)) ?d src m"
  have d: "unat ?d = unat dst + length ds" using assms(3) by (intro unat_add_offset) simp
  have far: "\<not> unat (src + of_nat i - ?d) < i" if "i \<le> length cs" for i
  proof (cases "src < ?d")
    case True
    then have lt: "unat src + i < unat ?d"
      using assms(5) d that unfolding word_less_nat_alt by linarith
    have "unat ?d + Suc (length cs) \<le> 4294967296" using d assms(3) by simp
    from dist_down [OF True this, of i] that lt
    have "unat (src + of_nat i - ?d) = 4294967296 + unat src + i - unat ?d" by simp
    then show ?thesis using unat_lt32 [of ?d] by linarith
  next
    case False
    with assms(5) d have "?d < src" by (auto simp: word_less_nat_alt)
    then show ?thesis
      using dist_up [of ?d src "Suc (length cs)" i] d assms(3-5) that by (auto simp: word_less_nat_alt)
  qed
  have at: "?m (?d + of_nat i) = m (src + of_nat i)" if "i \<le> length cs" for i
    using that assms(3) by (simp add: moved_def unat_of_nat)
  have out: "?m a = m a" if "\<not> (unat dst + length ds \<le> unat a \<and> unat a \<le> unat dst + length ds + length cs)" for a
    using that d assms(3) unat_lt32 [of a]
    by (auto simp: moved_def unat_sub_if_size word_le_nat_alt word_size)
  have "strcat dst src m = Some (dst, ?m)"
    using copy_loop_moved [of 0 cs src ?d m] far assms(2,3)
    by (simp add: strcat_def seek_end_cstr [OF assms(1)] moved_none)
  moreover have "cstr ?m ?d cs"
    using assms(2) at unfolding cstr_nth by simp
  moreover have "?m (dst + of_nat i) = m (dst + of_nat i)" if "i < length ds" for i
    using that assms(3) unat_add_offset [of dst i] by (intro out) simp
  moreover have "\<forall>a. unat dst + length ds \<le> unat a \<and> unat a \<le> unat dst + length ds + length cs \<or> ?m a = m a"
    using out by blast
  ultimately show ?thesis
    using assms(1) by (intro exI [of _ ?m]) (simp add: cstr_append cstr_nth [of m dst])
qed


text \<open>A memory that holds some byte strings, for closed examples.\<close>

definition bytes_at :: "u32 \<Rightarrow> u8 list \<Rightarrow> mem \<Rightarrow> mem" where
  "bytes_at p bs m = (\<lambda>a. if unat (a - p) < length bs then bs ! unat (a - p) else m a)"

lemma strcat_spec_witness:
  "\<exists>m'. strcat 16 32 (bytes_at 16 [104, 105, 0] (bytes_at 32 [33, 0] (\<lambda>_. 0xff))) = Some (16, m') \<and> cstr m' 16 [104, 105, 33]"
proof -
  let ?m = "bytes_at 16 [104, 105, 0] (bytes_at 32 [33, 0] (\<lambda>_. 0xff))"
  have "cstr ?m 16 [104, 105]" "cstr ?m 32 [33]" by (simp_all add: bytes_at_def)
  from strcat_spec [OF this] show ?thesis by auto
qed

text \<open>The copy alone.\<close>

lemma strcpy_spec:
  assumes "cstr m src cs" "unat dst + length cs < 2 ^ 32" "unat src + length cs < 2 ^ 32"
    "unat dst + length cs < unat src \<or> unat src + length cs < unat dst"
  shows "\<exists>m'. strcpy dst src m = Some (dst, m') \<and> cstr m' dst cs"
proof -
  have "\<not> unat (src + of_nat i - dst) < i" if "i \<le> length cs" for i
  proof (cases "src < dst")
    case True
    then have lt: "unat src + i < unat dst"
      using assms(4) that unfolding word_less_nat_alt by linarith
    have "unat dst + Suc (length cs) \<le> 4294967296" using assms(2) by simp
    from dist_down [OF True this, of i] that lt
    show ?thesis using unat_lt32 [of dst] by simp
  next
    case False
    with assms(4) have "dst < src" by (auto simp: word_less_nat_alt)
    then show ?thesis
      using dist_up [of dst src "Suc (length cs)" i] assms that by (auto simp: word_less_nat_alt)
  qed
  then have "strcpy dst src m = Some (dst, moved 0 (Suc (length cs)) dst src m)"
    using copy_loop_moved [of 0 cs src dst m] assms by (simp add: strcpy_def moved_none)
  moreover have "moved 0 (Suc (length cs)) dst src m (dst + of_nat i) = m (src + of_nat i)" if "i \<le> length cs" for i
    using that assms(2) by (simp add: moved_def unat_of_nat)
  ultimately show ?thesis using assms(1) unfolding cstr_nth by simp
qed

section \<open>Comparison\<close>

lemma byte_eq: "uint x = uint y \<longleftrightarrow> x = (y :: u8)" "uint x = 0 \<longleftrightarrow> x = 0"
  by (simp_all add: word_uint_eq_iff)

lemma byte_pos: "w \<noteq> 0 \<Longrightarrow> 0 < uint (w :: u8)"
  using uint_ge_0 [of w] by (simp add: less_le del: uint_ge_0) (metis unsigned_eq_0_iff)

lemma strcmp_cstr:
  assumes "cstr m a cs" "cstr m b ds"
  shows "\<exists>r. strcmp m a b = Some r \<and> (r < 0 \<longleftrightarrow> cs < ds) \<and> (r = 0 \<longleftrightarrow> cs = ds)"
  using assms
proof (induction cs arbitrary: a b ds)
  case Nil
  then show ?case
    by (cases ds; subst strcmp.simps) (auto simp: byte_pos byte_eq)
next
  case (Cons c cs)
  show ?case
  proof (cases ds)
    case Nil
    with Cons.prems show ?thesis by (subst strcmp.simps) (auto simp: byte_pos byte_eq)
  next
    case (Cons d ds')
    show ?thesis
    proof (cases "c = d")
      case True
      with Cons.IH [of "a + 1" "b + 1" ds'] Cons.prems Cons show ?thesis
        by (subst strcmp.simps) auto
    next
      case False
      with Cons.prems Cons show ?thesis
        by (subst strcmp.simps) (auto simp: word_less_def byte_eq)
    qed
  qed
qed


lemma strncmp_cstr:
  assumes "cstr m a cs" "cstr m b ds"
  shows "(strncmp_loop n m a b < 0 \<longleftrightarrow> take n cs < take n ds) \<and> (strncmp_loop n m a b = 0 \<longleftrightarrow> take n cs = take n ds)"
  using assms
proof (induction n arbitrary: a b cs ds)
  case (Suc n)
  show ?case
  proof (cases cs; cases ds)
    fix c cs' d ds'
    assume "cs = c # cs'" "ds = d # ds'"
    with Suc.IH [of "a + 1" cs' "b + 1" ds'] Suc.prems show ?thesis by (auto simp: word_less_def byte_eq)
  qed (use Suc.prems in \<open>auto simp: byte_pos byte_eq\<close>)
qed simp

text \<open>\<open>strcmp\<close> and \<open>strncmp\<close> return, and the sign of their result is the lexicographic
  order of the two strings, as sequences of unsigned bytes, \<open>strncmp\<close> of their first \<open>n\<close>.\<close>

theorem strcmp_spec:
  assumes "cstr m a cs" "cstr m b ds"
  shows "\<exists>r. strcmp m a b = Some r \<and> (r < 0 \<longleftrightarrow> cs < ds) \<and> (r = 0 \<longleftrightarrow> cs = ds)
    \<and> (strncmp m a b n < 0 \<longleftrightarrow> take (unat n) cs < take (unat n) ds)
    \<and> (strncmp m a b n = 0 \<longleftrightarrow> take (unat n) cs = take (unat n) ds)"
  using strcmp_cstr [OF assms] strncmp_cstr [OF assms, of "unat n"] by (auto simp: strncmp_def)

lemma strcmp_spec_witness:
  "\<exists>r. strcmp (bytes_at 16 [97, 98, 0] (bytes_at 32 [97, 200, 0] (\<lambda>_. 0))) 16 32 = Some r \<and> r < 0"
proof -
  let ?m = "bytes_at 16 [97, 98, 0] (bytes_at 32 [97, 200, 0] (\<lambda>_. 0))"
  have "cstr ?m 16 [97, 98]" "cstr ?m 32 [97, 200]" by (simp_all add: bytes_at_def)
  from strcmp_spec [OF this, of 1] show ?thesis by auto
qed

lemma memcmp_block:
  assumes "\<forall>i < n. m (a + of_nat i) = cs ! i \<and> m (b + of_nat i) = ds ! i" "length cs = n" "length ds = n"
  shows "(memcmp_loop n m a b < 0 \<longleftrightarrow> cs < ds) \<and> (memcmp_loop n m a b = 0 \<longleftrightarrow> cs = ds)"
  using assms
proof (induction n arbitrary: a b cs ds)
  case (Suc n)
  obtain c cs' d ds' where cs: "cs = c # cs'" "ds = d # ds'"
    using Suc.prems(2,3) by (cases cs; cases ds) auto
  have "\<forall>i < n. m (a + 1 + of_nat i) = cs' ! i \<and> m (b + 1 + of_nat i) = ds' ! i" "m a = c" "m b = d"
    using Suc.prems(1) by (auto simp: cs All_less_Suc2 ac_simps)
  with Suc.IH [of "a + 1" cs' "b + 1" ds'] Suc.prems show ?case by (auto simp: cs word_less_def byte_eq)
qed simp

lemma memset_block:
  "unat n \<le> 4294967295 \<Longrightarrow> snd (memset s c n m) a = (if unat (a - s) < unat n then ucast c else m a)"
proof -
  have "memset_loop k (s + of_nat j) b (\<lambda>a. if unat (a - s) < j then b else m a)
      = (\<lambda>a. if unat (a - s) < j + k then b else m a)" if "j + k < 4294967296" for j k and b :: u8
    using that
  proof (induction k arbitrary: j)
    case (Suc k)
    have "(\<lambda>a. if unat (a - s) < j then b else m a)(s + of_nat j := b) = (\<lambda>a. if unat (a - s) < Suc j then b else m a)"
      using eq_offset_iff [of j] Suc.prems by (auto simp: fun_eq_iff less_Suc_eq)
    with Suc.IH [of "Suc j"] Suc.prems show ?case by (simp add: ac_simps)
  qed simp
  from this [of 0 "unat n" "ucast c"] unat_lt32 [of n] show ?thesis by (simp add: memset_def)
qed

end
