(* ===== verification/KlibStdlib.thy ===== *)
theory KlibStdlib imports KlibString begin

text \<open>
  \<open>abstract-machine/klib/src/stdlib.c\<close> on the 32 bit target: the linear congruential \<open>rand\<close>,
  \<open>abs\<close>, \<open>atoi\<close> and the \<open>malloc\<close> that only moves a pointer up to \<open>heap.end\<close>.  \<open>unsigned long\<close>
  and pointers are 32 bit words; an \<open>int\<close> is one read with \<open>sint\<close>.  \<open>_heap_start\<close> and \<open>heap\<close>
  belong to the linker script: their values are arguments.
\<close>

unbundle bit_operations_syntax

section \<open>The functions\<close>

definition rand :: "u32 \<Rightarrow> u32 \<times> u32" where
  "rand nxt = (let n = nxt * 1103515245 + 12345 in ((n div 65536) mod 32768, n))"

definition srand :: "u32 \<Rightarrow> u32" where
  "srand seed = seed"

definition c_abs :: "u32 \<Rightarrow> u32" where
  "c_abs x = (if sint x < 0 then - x else x)"

partial_function (option) skip_spaces :: "mem \<Rightarrow> u32 \<Rightarrow> u32 option" where
  "skip_spaces m p = (if m p = 32 then skip_spaces m (p + 1) else Some p)"

partial_function (option) atoi_loop :: "mem \<Rightarrow> u32 \<Rightarrow> u32 \<Rightarrow> u32 option" where
  "atoi_loop m p x =
     (if 48 \<le> m p \<and> m p \<le> 57 then atoi_loop m (p + 1) (x * 10 + ucast (m p) - 48) else Some x)"

definition atoi :: "mem \<Rightarrow> u32 \<Rightarrow> u32 option" where
  "atoi m nptr = Option.bind (skip_spaces m nptr) (\<lambda>p. atoi_loop m p 0)"

definition ROUNDUP :: "u32 \<Rightarrow> u32 \<Rightarrow> u32" where
  "ROUNDUP a sz = (a + sz - 1) AND NOT (sz - 1)"

text \<open>\<open>malloc\<close>: the pointer (0 is \<open>NULL\<close>) and the new value of its static \<open>addr\<close>.\<close>

definition malloc :: "u32 \<Rightarrow> u32 \<Rightarrow> u32 \<Rightarrow> u32 \<times> u32" where
  "malloc heap_end sz addr =
     (let size = ROUNDUP sz 8
      in if heap_end < addr + size then (0, addr) else (addr, addr + size))"

definition free_mem :: "u32 \<Rightarrow> u32 \<Rightarrow> u32" where
  "free_mem ptr addr = addr"

section \<open>Random numbers\<close>

lemma rand_range: "fst (rand n) < 32768"
  by (simp add: rand_def Let_def word_mod_less_divisor)

section \<open>Numbers\<close>

definition digit_byte :: "u8 \<Rightarrow> bool" where
  "digit_byte b \<longleftrightarrow> 48 \<le> b \<and> b \<le> 57"

lemma atoi_loop_digits:
  assumes "\<forall>i < length ds. m (p + of_nat i) = ds ! i \<and> digit_byte (ds ! i)" "\<not> digit_byte (m (p + of_nat (length ds)))"
  shows "atoi_loop m p x = Some (foldl (\<lambda>x b. x * 10 + ucast b - 48) x ds)"
  using assms
proof (induction ds arbitrary: p x)
  case Nil
  then show ?case by (subst atoi_loop.simps) (auto simp: digit_byte_def)
next
  case (Cons d ds)
  have "m p = d" "digit_byte d" "\<forall>i < length ds. m (p + 1 + of_nat i) = ds ! i \<and> digit_byte (ds ! i)"
    "\<not> digit_byte (m (p + 1 + of_nat (length ds)))"
    using Cons.prems by (auto simp: All_less_Suc2 ac_simps)
  with Cons.IH [of "p + 1"] show ?case by (subst atoi_loop.simps) (simp add: digit_byte_def)
qed

lemma foldl_digits:
  assumes "\<forall>b \<in> set ds. digit_byte b"
  shows "foldl (\<lambda>x b. x * 10 + ucast b - 48) (of_nat k) ds
    = (of_nat (foldl (\<lambda>n b. n * 10 + (unat b - 48)) k ds) :: u32)"
  using assms
proof (induction ds arbitrary: k)
  case (Cons b ds)
  then have b: "48 \<le> unat b" by (simp add: digit_byte_def word_le_nat_alt)
  have "(ucast b :: u32) = of_nat (unat b)" by simp
  with b have e: "of_nat k * 10 + ucast b - 48 = (of_nat (k * 10 + (unat b - 48)) :: u32)"
    by (simp add: of_nat_diff)
  show ?case unfolding foldl.simps e using Cons.IH [of "k * 10 + (unat b - 48)"] Cons.prems
    by (metis list.set_intros(2))
qed simp

lemma skip_spaces_run:
  assumes "\<forall>i < k. m (p + of_nat i) = 32" "m (p + of_nat k) \<noteq> 32"
  shows "skip_spaces m p = Some (p + of_nat k)"
  using assms
proof (induction k arbitrary: p)
  case 0
  then show ?case by (subst skip_spaces.simps) simp
next
  case (Suc k)
  have "m p = 32" "\<forall>i < k. m (p + 1 + of_nat i) = 32" "m (p + 1 + of_nat k) \<noteq> 32"
    using Suc.prems by (auto simp: All_less_Suc2 ac_simps)
  with Suc.IH [of "p + 1"] show ?case by (subst skip_spaces.simps) (simp add: ac_simps)
qed

lemma atoi_value:
  assumes "\<forall>i < k. m (p + of_nat i) = 32" "\<forall>i < length ds. m (p + of_nat k + of_nat i) = ds ! i"
    "\<forall>b \<in> set ds. digit_byte b" "\<not> digit_byte (m (p + of_nat k + of_nat (length ds)))"
    "ds \<noteq> [] \<or> m (p + of_nat k) \<noteq> 32"
  shows "atoi m p = Some (of_nat (foldl (\<lambda>n b. n * 10 + (unat b - 48)) 0 ds))"
proof -
  have "m (p + of_nat k) \<noteq> 32"
  proof (cases ds)
    case (Cons d ds')
    then have "m (p + of_nat k) = d" using assms(2) by (auto dest: spec [of _ 0])
    with assms(3) Cons show ?thesis by (auto simp: digit_byte_def)
  qed (use assms(5) in simp)
  then have "skip_spaces m p = Some (p + of_nat k)" using assms(1) by (rule skip_spaces_run [rotated])
  moreover have "atoi_loop m (p + of_nat k) 0 = Some (foldl (\<lambda>x b. x * 10 + ucast b - 48) 0 ds)"
    using assms(2-4) by (intro atoi_loop_digits) auto
  ultimately show ?thesis using foldl_digits [OF assms(3), of 0] by (simp add: atoi_def)
qed

text \<open>\<open>atoi\<close> of spaces, digits and anything else returns the value of the digits, modulo the
  word size.\<close>

theorem atoi_spec:
  assumes "\<forall>i < k. m (p + of_nat i) = 32" "\<forall>i < length ds. m (p + of_nat k + of_nat i) = ds ! i"
    "\<forall>b \<in> set ds. digit_byte b" "\<not> digit_byte (m (p + of_nat k + of_nat (length ds)))"
    "ds \<noteq> [] \<or> m (p + of_nat k) \<noteq> 32"
  shows "atoi m p = Some (of_nat (foldl (\<lambda>n b. n * 10 + (unat b - 48)) 0 ds))"
  using assms by (rule atoi_value)

lemma atoi_spec_witness: "atoi (bytes_at 64 [32, 52, 50, 59] (\<lambda>_. 0)) 64 = Some 42"
proof -
  let ?m = "bytes_at 64 [32, 52, 50, 59] (\<lambda>_. 0)"
  have "?m 64 = 32" "?m 65 = 52" "?m 66 = 50" "?m 67 = 59" by (simp_all add: bytes_at_def)
  then show ?thesis
    using atoi_spec [of 1 ?m 64 "[52, 50]"] by (simp add: digit_byte_def All_less_Suc2)
qed

section \<open>Allocation\<close>

text \<open>The block an allocation of \<open>sz\<close> bytes at \<open>p\<close> may use.\<close>

definition block :: "u32 \<times> u32 \<Rightarrow> nat set" where
  "block x = {unat (fst x) ..< unat (fst x) + unat (snd x)}"

fun allocs :: "u32 \<Rightarrow> u32 list \<Rightarrow> u32 \<Rightarrow> (u32 \<times> u32) list \<times> u32" where
  "allocs heap_end [] addr = ([], addr)"
| "allocs heap_end (sz # szs) addr =
     (let (p, addr1) = malloc heap_end sz addr; (ps, addr2) = allocs heap_end szs addr1
      in ((p, sz) # ps, addr2))"

lemma ROUNDUP_8:
  assumes "unat sz + 8 \<le> 2 ^ 32"
  shows "unat (ROUNDUP sz 8) = 8 * ((unat sz + 7) div 8)"
proof -
  have m: "(7 :: u32) = mask 3" by (simp add: mask_eq_exp_minus_1)
  have "(sz + 7) AND NOT 7 = push_bit 3 (drop_bit 3 (sz + 7))"
    unfolding m by (rule bit_word_eqI) (auto simp: bit_simps le_diff_conv2)
  then have "ROUNDUP sz 8 = push_bit 3 (drop_bit 3 (sz + 7))" by (simp add: ROUNDUP_def add.commute)
  moreover have s: "unat (sz + 7) = unat sz + 7" using assms by (simp add: unat_word_ariths)
  have d: "unat (drop_bit 3 (sz + 7)) = (unat sz + 7) div 8"
    using s by (simp add: drop_bit_eq_div unat_div)
  moreover have "(unat sz + 7) div 8 * 8 < 2 ^ 32" using assms by linarith
  ultimately show ?thesis by (simp add: push_bit_eq_mult unat_word_ariths)
qed


lemma malloc_cases:
  assumes "unat sz + unat heap_end + 8 \<le> 2 ^ 32" "addr \<le> heap_end" "malloc heap_end sz addr = (p, addr')"
  shows "addr \<le> addr' \<and> addr' \<le> heap_end \<and> unat addr' mod 8 = unat addr mod 8
    \<and> (p = 0 \<or> p = addr \<and> unat addr + unat sz \<le> unat addr')"
proof -
  have sz: "unat sz + 8 \<le> 2 ^ 32" using assms(1) by simp
  let ?r = "8 * ((unat sz + 7) div 8)"
  have r: "unat (ROUNDUP sz 8) = ?r" "unat sz \<le> ?r" "?r \<le> unat sz + 7"
    using ROUNDUP_8 [OF sz] by simp_all
  have "unat addr + ?r < 2 ^ 32" using assms(1,2) r(3) by (simp add: word_le_nat_alt)
  then have s: "unat (addr + ROUNDUP sz 8) = unat addr + ?r"
    using r(1) by (simp add: unat_word_ariths)
  show ?thesis
  proof (cases "heap_end < addr + ROUNDUP sz 8")
    case True
    with assms show ?thesis by (auto simp: malloc_def Let_def)
  next
    case False
    with assms have "p = addr" "addr' = addr + ROUNDUP sz 8" by (auto simp: malloc_def Let_def)
    moreover have "unat addr + ?r \<le> unat heap_end" using False s by (simp add: word_less_nat_alt)
    ultimately show ?thesis using s r(2) by (auto simp: word_le_nat_alt)
  qed
qed

lemma allocs_blocks:
  assumes "\<forall>sz \<in> set szs. unat sz + unat heap_end + 8 \<le> 2 ^ 32" "addr \<le> heap_end" "allocs heap_end szs addr = (ps, addr')"
  shows "map snd ps = szs
    \<and> (\<forall>x \<in> set ps. fst x \<noteq> 0 \<longrightarrow> block x \<subseteq> {unat addr ..< unat heap_end} \<and> unat (fst x) mod 8 = unat addr mod 8)
    \<and> sorted_wrt (\<lambda>x y. fst x \<noteq> 0 \<and> fst y \<noteq> 0 \<longrightarrow> block x \<inter> block y = {}) ps"
  using assms
proof (induction szs arbitrary: addr ps)
  case (Cons sz szs)
  obtain p a1 where m: "malloc heap_end sz addr = (p, a1)" by fastforce
  obtain qs a2 where q0: "allocs heap_end szs a1 = (qs, a2)" by fastforce
  have ps: "ps = (p, sz) # qs" "a2 = addr'" using Cons.prems(3) m q0 by simp_all
  note q = q0 [unfolded ps(2)]
  have pre: "\<forall>sz \<in> set szs. unat sz + unat heap_end + 8 \<le> 2 ^ 32" using Cons.prems(1) by simp
  have c: "addr \<le> a1 \<and> a1 \<le> heap_end \<and> unat a1 mod 8 = unat addr mod 8
    \<and> (p = 0 \<or> p = addr \<and> unat addr + unat sz \<le> unat a1)"
    using malloc_cases [OF _ Cons.prems(2) m] Cons.prems(1) by (meson list.set_intros(1))
  have IH: "map snd qs = szs
    \<and> (\<forall>x \<in> set qs. fst x \<noteq> 0 \<longrightarrow> block x \<subseteq> {unat a1 ..< unat heap_end} \<and> unat (fst x) mod 8 = unat a1 mod 8)
    \<and> sorted_wrt (\<lambda>x y. fst x \<noteq> 0 \<and> fst y \<noteq> 0 \<longrightarrow> block x \<inter> block y = {}) qs"
    using Cons.IH [OF pre _ q] c by blast
  have first: "block (p, sz) \<subseteq> {unat addr ..< unat a1}" if "p \<noteq> 0"
    using c that unfolding block_def by (intro ivl_subset [THEN iffD2] disjI2) simp
  have sub: "{unat a1 ..< unat heap_end} \<subseteq> {unat addr ..< unat heap_end}" "{unat addr ..< unat a1} \<subseteq> {unat addr ..< unat heap_end}"
    using c by (auto simp: word_le_nat_alt)
  have "block (p, sz) \<inter> block x = {}" if "x \<in> set qs" "p \<noteq> 0" "fst x \<noteq> 0" for x
  proof -
    have "block x \<subseteq> {unat a1 ..< unat heap_end}" using IH that by blast
    moreover have "{unat addr ..< unat a1} \<inter> {unat a1 ..< unat heap_end} = {}" by auto
    ultimately show ?thesis using first [OF that(2)] by blast
  qed
  moreover have "block (p, sz) \<subseteq> {unat addr ..< unat heap_end} \<and> unat p mod 8 = unat addr mod 8" if "p \<noteq> 0"
  proof -
    from c that have "p = addr" by blast
    with first [OF that] sub(2) show ?thesis by (metis subset_trans)
  qed
  moreover have "block x \<subseteq> {unat addr ..< unat heap_end} \<and> unat (fst x) mod 8 = unat addr mod 8"
    if "x \<in> set qs" "fst x \<noteq> 0" for x
  proof -
    have "block x \<subseteq> {unat a1 ..< unat heap_end}" "unat (fst x) mod 8 = unat a1 mod 8" using IH that by blast+
    with sub(1) c show ?thesis by (metis subset_trans)
  qed
  ultimately show ?case using IH unfolding ps(1) list.map sorted_wrt.simps set_simps ball_simps by (intro conjI) (simp_all only: snd_conv fst_conv, blast+)
qed simp



text \<open>A request of nearly 4 GiB wraps around in the rounding and succeeds without reserving a byte.\<close>

lemma malloc_wraps:
  "addr \<le> heap_end \<Longrightarrow> malloc heap_end 0xfffffffc addr = (addr, addr)"
proof -
  have "(0xfffffffc :: u32) + 8 - 1 = 3" by simp
  then have "ROUNDUP 0xfffffffc 8 = 0" unfolding ROUNDUP_def by simp
  then show "addr \<le> heap_end \<Longrightarrow> malloc heap_end 0xfffffffc addr = (addr, addr)" by (auto simp: malloc_def)
qed

end
