(* ===== verification/KlibBits.thy ===== *)
theory KlibBits imports Prelude begin

text \<open>
  The two 32 bit halves of a 64 bit value, and the bit counting functions \<open>__clzsi2\<close>,
  \<open>__ctzsi2\<close>, \<open>__clzdi2\<close>, \<open>__ctzdi2\<close> of \<open>abstract-machine/klib/src/int64.c\<close>.
\<close>

unbundle bit_operations_syntax

section \<open>Halves\<close>

text \<open>The members \<open>s.high\<close> and \<open>s.low\<close> of the unions \<open>dwords\<close> and \<open>udwords\<close>, and \<open>all\<close>.\<close>

definition high :: "u64 \<Rightarrow> u32" where "high x = ucast (drop_bit 32 x)"
definition low :: "u64 \<Rightarrow> u32" where "low x = ucast x"
definition all_of :: "u32 \<Rightarrow> u32 \<Rightarrow> u64" where "all_of h l = push_bit 32 (ucast h) OR ucast l"

section \<open>Counting zero bits\<close>

text \<open>\<open>__builtin_clz\<close> and \<open>__builtin_ctz\<close>: the zero bits above the first one, below the last one.\<close>

fun bitlen :: "nat \<Rightarrow> nat" where
  "bitlen n = (if n = 0 then 0 else Suc (bitlen (n div 2)))"

fun trailing :: "nat \<Rightarrow> nat" where
  "trailing n = (if n = 0 \<or> odd n then 0 else Suc (trailing (n div 2)))"

declare bitlen.simps [simp del] trailing.simps [simp del]

definition builtin_clz :: "u32 \<Rightarrow> u32" where "builtin_clz x = of_nat (32 - bitlen (unat x))"
definition builtin_ctz :: "u32 \<Rightarrow> u32" where "builtin_ctz x = of_nat (trailing (unat x))"

text \<open>The branch free versions.\<close>

definition clzsi2 :: "u32 \<Rightarrow> u32" where
  "clzsi2 a =
     (let x = a;
          t = (if x AND 0xFFFF0000 = 0 then 16 else 0 :: u32);
          x = drop_bit (unat (16 - t)) x; r = t;
          t = (if x AND 0xFF00 = 0 then 8 else 0);
          x = drop_bit (unat (8 - t)) x; r = r + t;
          t = (if x AND 0xF0 = 0 then 4 else 0);
          x = drop_bit (unat (4 - t)) x; r = r + t;
          t = (if x AND 0xC = 0 then 2 else 0);
          x = drop_bit (unat (2 - t)) x; r = r + t
      in r + ((2 - x) AND - (if x AND 2 = 0 then 1 else 0)))"

definition ctzsi2 :: "u32 \<Rightarrow> u32" where
  "ctzsi2 a =
     (let x = a;
          t = (if x AND 0x0000FFFF = 0 then 16 else 0 :: u32);
          x = drop_bit (unat t) x; r = t;
          t = (if x AND 0x00FF = 0 then 8 else 0);
          x = drop_bit (unat t) x; r = r + t;
          t = (if x AND 0x0F = 0 then 4 else 0);
          x = drop_bit (unat t) x; r = r + t;
          t = (if x AND 0x3 = 0 then 2 else 0);
          x = drop_bit (unat t) x; x = x AND 3; r = r + t
      in r + ((2 - drop_bit 1 x) AND - (if x AND 1 = 0 then 1 else 0)))"

definition ctzdi2 :: "u64 \<Rightarrow> u32" where
  "ctzdi2 a =
     (let f = - (if low a = 0 then 1 else 0)
      in ctzsi2 ((high a AND f) OR (low a AND NOT f)) + (f AND 32))"

definition clzdi2 :: "u64 \<Rightarrow> u32" where
  "clzdi2 a =
     (let f = - (if high a = 0 then 1 else 0)
      in clzsi2 ((high a AND NOT f) OR (low a AND f)) + (f AND 32))"

section \<open>Arithmetic of the halves\<close>

lemma bit_all_of: "bit (all_of h l) i \<longleftrightarrow> (if i < 32 then bit l i else i < 64 \<and> bit h (i - 32))"
  by (auto simp: all_of_def bit_simps dest: bit_imp_le_length)

lemma bit_high: "bit (high x) i \<longleftrightarrow> i < 32 \<and> bit x (i + 32)"
  by (auto simp: high_def bit_simps ac_simps)

lemma bit_low: "bit (low x) i \<longleftrightarrow> i < 32 \<and> bit x i"
  by (auto simp: low_def bit_simps)

lemmas bit_halves = bit_all_of bit_high bit_low

lemma all_of_halves [simp]: "all_of (high x) (low x) = x"
  by (rule bit_word_eqI) (auto simp: bit_halves)

lemma high_all_of [simp]: "high (all_of h l) = h"
  by (rule bit_word_eqI) (auto simp: bit_halves)

lemma low_all_of [simp]: "low (all_of h l) = l"
  by (rule bit_word_eqI) (auto simp: bit_halves)

lemma unat_ucast64 [simp]: "unat (ucast (h :: u32) :: u64) = unat h"
  using unat_lt32 [of h] by (simp add: unsigned_ucast_eq take_bit_nat_eq_self_iff)

lemma unat_all_of: "unat (all_of h l) = unat h * 2 ^ 32 + unat l"
proof -
  have "push_bit 32 (ucast h :: u64) AND ucast l = 0"
  proof (rule bit_word_eqI)
    fix i assume "i < LENGTH(64)"
    show "bit (push_bit 32 (ucast h :: u64) AND ucast l) i \<longleftrightarrow> bit (0 :: u64) i"
      using bit_imp_le_length [of l i] by (auto simp: bit_simps)
  qed
  then have "all_of h l = push_bit 32 (ucast h) + ucast l"
    using word_plus_and_or [of "push_bit 32 (ucast h :: u64)" "ucast l"] by (simp add: all_of_def)
  moreover have "unat (push_bit 32 (ucast h :: u64)) = unat h * 2 ^ 32"
    using unat_lt32 [of h] by (simp add: push_bit_eq_mult unat_word_ariths)
  ultimately show ?thesis
    using unat_lt32 [of h] unat_lt32 [of l] by (simp add: unat_word_ariths)
qed

lemma unat_halves: "unat x = unat (high x) * 2 ^ 32 + unat (low x)"
  using unat_all_of [of "high x" "low x"] by simp

section \<open>Bit lengths\<close>

lemma bitlen_0 [simp]: "bitlen 0 = 0"
  by (simp add: bitlen.simps)

lemma bitlen_pos: "0 < n \<Longrightarrow> 0 < bitlen n"
  by (simp add: bitlen.simps [of n])

lemma bitlen_bounds: "0 < n \<Longrightarrow> 2 ^ (bitlen n - 1) \<le> n \<and> n < 2 ^ bitlen n"
proof (induction n rule: bitlen.induct)
  case (1 n)
  show ?case
  proof (cases "n div 2 = 0")
    case True
    then have "n = 1" using 1 by auto
    then show ?thesis by (simp add: bitlen.simps)
  next
    case False
    with 1 have IH: "2 ^ (bitlen (n div 2) - 1) \<le> n div 2" "n div 2 < 2 ^ bitlen (n div 2)" by auto
    obtain k where k: "bitlen (n div 2) = Suc k" using bitlen_pos [of "n div 2"] False by (cases "bitlen (n div 2)") auto
    have "bitlen n = Suc (Suc k)" using 1 k by (simp add: bitlen.simps [of n])
    with IH k show ?thesis by auto
  qed
qed

lemma bitlen_eqI: "2 ^ k \<le> n \<Longrightarrow> n < 2 ^ Suc k \<Longrightarrow> bitlen n = Suc k"
proof -
  assume a: "2 ^ k \<le> n" "n < 2 ^ Suc k"
  then have n: "0 < n" by (metis gr_zeroI not_less zero_less_numeral zero_less_power)
  have "k < bitlen n" using bitlen_bounds [OF n] a(1) by (metis le_less_trans nat_power_less_imp_less zero_less_numeral)
  moreover have "bitlen n - 1 < Suc k" using bitlen_bounds [OF n] a(2) by (metis le_less_trans nat_power_less_imp_less zero_less_numeral)
  ultimately show ?thesis by simp
qed

lemma bitlen_le: "n < 2 ^ k \<Longrightarrow> bitlen n \<le> k"
proof (rule ccontr)
  assume n: "n < 2 ^ k" and "\<not> bitlen n \<le> k"
  then have "0 < n" "k \<le> bitlen n - 1" by (cases n; simp)+
  then have "2 ^ k \<le> n" using bitlen_bounds [of n] power_increasing [of k "bitlen n - 1" "2 :: nat"] by linarith
  with n show False by simp
qed

lemma trailing_pow: "n AND (n - 1) = 0 \<Longrightarrow> 0 < n \<Longrightarrow> n = 2 ^ trailing n" for n :: nat
proof (induction n rule: trailing.induct)
  case (1 n)
  show ?case
  proof (cases "odd n")
    case True
    then obtain y where y: "n = 2 * y + 1" by (rule oddE)
    have "n AND (n - 1) = 2 * y" unfolding y by (subst and_rec) simp
    then have "n = 1" using 1 y by simp
    then show ?thesis by (simp add: trailing.simps)
  next
    case False
    then obtain y where y: "n = 2 * y" by auto
    then have "0 < y" using 1 by simp
    then have "(2 * y - 1) div 2 = y - 1" by (cases y) auto
    then have "n AND (n - 1) = 2 * (y AND (y - 1))" unfolding y by (subst and_rec) simp
    with 1 y \<open>0 < y\<close> have "y = 2 ^ trailing y" by simp
    moreover have "trailing n = Suc (trailing y)" unfolding y by (subst trailing.simps) (use \<open>0 < y\<close> in simp)
    ultimately show ?thesis using y by (metis power_Suc)
  qed
qed


lemma unat_shr: "unat (drop_bit n x) = unat x div 2 ^ n" for x :: "'a::len word"
  by (simp only: unat_drop_bit_eq) (simp add: drop_bit_eq_div)

section \<open>Counting by halving\<close>

lemma bitlen_shift: "2 ^ k \<le> n \<Longrightarrow> bitlen n = k + bitlen (n div 2 ^ k)"
proof (induction k arbitrary: n)
  case (Suc k)
  then have "0 < n" by (metis gr0I not_le zero_less_numeral zero_less_power)
  then have "bitlen n = Suc (bitlen (n div 2))" by (simp add: bitlen.simps [of n])
  moreover have "2 ^ k \<le> n div 2" using Suc.prems by simp
  ultimately show ?case using Suc.IH [of "n div 2"] by (simp add: div_mult2_eq)
qed simp

lemma trailing_shift: "0 < n \<Longrightarrow> n mod 2 ^ k = 0 \<Longrightarrow> trailing n = k + trailing (n div 2 ^ k)"
proof (induction k arbitrary: n)
  case (Suc k)
  obtain j where j: "n = 2 ^ Suc k * j" using Suc.prems(2) by (auto elim: dvdE)
  then have "even n" "(n div 2) mod 2 ^ k = 0" "0 < n div 2" using Suc.prems(1) by auto
  moreover from this have "trailing n = Suc (trailing (n div 2))" using Suc.prems(1) by (simp add: trailing.simps [of n])
  ultimately show ?case using Suc.IH [of "n div 2"] by (simp add: div_mult2_eq)
qed simp

lemma and_mask_zero: "x AND mask w = 0 \<longleftrightarrow> unat x mod 2 ^ w = 0" for x :: u32
proof -
  have "x AND mask w = 0 \<longleftrightarrow> unat (take_bit w x) = 0"
    by (simp add: take_bit_eq_mask unat_eq_zero)
  moreover have "unat (take_bit w x) = unat x mod 2 ^ w"
    by (simp only: unsigned_take_bit_eq) (simp add: take_bit_eq_mod)
  ultimately show ?thesis by simp
qed

lemma and_high_zero:
  fixes x :: u32
  assumes "unat x < 2 ^ (w + w)" "w + w \<le> 32"
  shows "x AND push_bit w (mask w) = 0 \<longleftrightarrow> unat x < 2 ^ w"
proof -
  have "x AND push_bit w (mask w) = push_bit w (take_bit w (drop_bit w x))"
    by (rule bit_word_eqI) (auto simp: bit_simps)
  moreover have "unat x div 2 ^ w < 2 ^ w" using assms by (simp add: less_mult_imp_div_less power_add)
  then have "take_bit w (drop_bit w x) = drop_bit w x"
    by (simp add: word_unat_eq_iff unsigned_take_bit_eq unat_shr take_bit_nat_eq_self_iff)
  moreover have "push_bit w (drop_bit w x) = 0 \<longleftrightarrow> drop_bit w x = 0"
  proof
    assume z: "push_bit w (drop_bit w x) = 0"
    show "drop_bit w x = 0"
    proof (rule bit_word_eqI)
      fix i assume "i < LENGTH(32)"
      have "bit (push_bit w (drop_bit w x)) (w + i) = bit (0 :: u32) (w + i)" using z by simp
      then show "bit (drop_bit w x) i \<longleftrightarrow> bit (0 :: u32) i"
        using bit_imp_le_length [of x "w + i"] by (auto simp: bit_simps)
    qed
  qed simp
  ultimately show ?thesis by (simp add: word_unat_eq_iff unat_shr div_eq_0_iff)
qed

lemma clz_step:
  fixes x W :: u32
  assumes "0 < unat x" "unat x < 2 ^ (w + w)" "w + w \<le> 32" "W = of_nat w"
  defines "t \<equiv> if x AND push_bit w (mask w) = 0 then W else 0"
  defines "y \<equiv> drop_bit (unat (W - t)) x"
  shows "0 < unat y \<and> unat y < 2 ^ w \<and> unat t + w + bitlen (unat x) = w + w + bitlen (unat y) \<and> unat t \<le> w"
proof (cases "unat x < 2 ^ w")
  case True
  then have "t = W" "y = x" using assms and_high_zero [of x w] by (simp_all add: t_def y_def)
  then show ?thesis using assms True by (simp add: unat_of_nat)
next
  case False
  then have "t = 0" using assms(2,3) and_high_zero [of x w] by (simp add: t_def)
  moreover have "unat W = w" using assms by (simp add: unat_of_nat)
  ultimately have y: "unat y = unat x div 2 ^ w" by (simp add: y_def unat_shr)
  moreover have "unat x div 2 ^ w < 2 ^ w" using assms by (simp add: less_mult_imp_div_less power_add)
  moreover have "0 < unat x div 2 ^ w" using False by (simp add: div_greater_zero_iff)
  ultimately show ?thesis using bitlen_shift [of w "unat x"] False \<open>t = 0\<close> by simp
qed

lemma ctz_step:
  fixes x W :: u32
  assumes "unat x mod 2 ^ (w + w) \<noteq> 0" "w + w \<le> 32" "W = of_nat w"
  defines "t \<equiv> if x AND mask w = 0 then W else 0"
  defines "y \<equiv> drop_bit (unat t) x"
  shows "unat y mod 2 ^ w \<noteq> 0 \<and> trailing (unat x) = unat t + trailing (unat y) \<and> unat t \<le> w"
proof (cases "unat x mod 2 ^ w = 0")
  case True
  have w: "unat W = w" using assms by (simp add: unat_of_nat)
  have t: "t = W" using True by (simp add: t_def and_mask_zero)
  then have y: "unat y = unat x div 2 ^ w" using w by (simp add: y_def unat_shr)
  have "unat x mod (2 ^ w * 2 ^ w) = 2 ^ w * (unat x div 2 ^ w mod 2 ^ w)"
    unfolding mod_mult2_eq using True by simp
  then have "unat y mod 2 ^ w \<noteq> 0" using assms(1) y by (auto simp: power_add)
  moreover have "0 < unat x" using assms(1) by (metis gr0I mod_0)
  ultimately show ?thesis using trailing_shift [OF _ True] y t w by simp
next
  case False
  then show ?thesis by (simp add: t_def y_def and_mask_zero)
qed


lemma small_cases: "0 < n \<Longrightarrow> n < 4 \<Longrightarrow> n = 1 \<or> n = 2 \<or> n = (3 :: nat)"
  by auto

lemma clz_end: "0 < unat x \<Longrightarrow> unat x < 4 \<Longrightarrow>
    unat ((2 - x) AND - (if x AND 2 = 0 then 1 else 0)) + bitlen (unat x) = 2" for x :: u32
proof -
  assume "0 < unat x" "unat x < 4"
  from small_cases [OF this] have "x = 1 \<or> x = 2 \<or> x = 3" by (auto simp: word_unat_eq_iff)
  then show ?thesis by (auto simp: bitlen.simps)
qed

lemma clzsi2_eq: "x \<noteq> 0 \<Longrightarrow> clzsi2 x = builtin_clz x"
proof -
  assume nz: "x \<noteq> 0"
  define t1 where "t1 = (if x AND 0xFFFF0000 = 0 then 16 else 0 :: u32)"
  define x1 where "x1 = drop_bit (unat (16 - t1)) x"
  define t2 where "t2 = (if x1 AND 0xFF00 = 0 then 8 else 0 :: u32)"
  define x2 where "x2 = drop_bit (unat (8 - t2)) x1"
  define t3 where "t3 = (if x2 AND 0xF0 = 0 then 4 else 0 :: u32)"
  define x3 where "x3 = drop_bit (unat (4 - t3)) x2"
  define t4 where "t4 = (if x3 AND 0xC = 0 then 2 else 0 :: u32)"
  define x4 where "x4 = drop_bit (unat (2 - t4)) x3"
  define e where "e = (2 - x4) AND - (if x4 AND 2 = 0 then 1 else 0)"
  have c: "clzsi2 x = t1 + t2 + t3 + t4 + e"
    unfolding clzsi2_def Let_def e_def x4_def t4_def x3_def t3_def x2_def t2_def x1_def t1_def by (rule refl)
  have m: "push_bit 16 (mask 16) = (0xFFFF0000 :: u32)" "push_bit 8 (mask 8) = (0xFF00 :: u32)"
    "push_bit 4 (mask 4) = (0xF0 :: u32)" "push_bit 2 (mask 2) = (0xC :: u32)"
    by (simp_all add: mask_eq_exp_minus_1)
  have s1: "0 < unat x1 \<and> unat x1 < 2 ^ 16 \<and> unat t1 + 16 + bitlen (unat x) = 16 + 16 + bitlen (unat x1) \<and> unat t1 \<le> 16"
    unfolding x1_def t1_def m(1) [symmetric] using nz unat_lt32 [of x]
    by (intro clz_step) (simp_all add: unat_gt_0)
  have s2: "0 < unat x2 \<and> unat x2 < 2 ^ 8 \<and> unat t2 + 8 + bitlen (unat x1) = 8 + 8 + bitlen (unat x2) \<and> unat t2 \<le> 8"
    unfolding x2_def t2_def m(2) [symmetric] using s1 by (intro clz_step) simp_all
  have s3: "0 < unat x3 \<and> unat x3 < 2 ^ 4 \<and> unat t3 + 4 + bitlen (unat x2) = 4 + 4 + bitlen (unat x3) \<and> unat t3 \<le> 4"
    unfolding x3_def t3_def m(3) [symmetric] using s2 by (intro clz_step) simp_all
  have s4: "0 < unat x4 \<and> unat x4 < 2 ^ 2 \<and> unat t4 + 2 + bitlen (unat x3) = 2 + 2 + bitlen (unat x4) \<and> unat t4 \<le> 2"
    unfolding x4_def t4_def m(4) [symmetric] using s3 by (intro clz_step) simp_all
  have e: "unat e + bitlen (unat x4) = 2" unfolding e_def using s4 by (intro clz_end) simp_all
  have "unat (t1 + t2 + t3 + t4 + e) = unat t1 + unat t2 + unat t3 + unat t4 + unat e"
    using s1 s2 s3 s4 e by (simp add: unat_word_ariths)
  also have "\<dots> = 32 - bitlen (unat x)" using s1 s2 s3 s4 e by linarith
  finally have "unat (clzsi2 x) = 32 - bitlen (unat x)" unfolding c .
  then show ?thesis by (simp add: word_unat_eq_iff builtin_clz_def unat_of_nat)
qed

lemma ctz_end:
  fixes x z :: u32
  assumes a: "unat x mod 4 \<noteq> 0" and z: "z = x AND 3"
  shows "unat ((2 - drop_bit 1 z) AND - (if z AND 1 = 0 then 1 else 0)) = trailing (unat x)"
proof -
  have "unat z = unat x mod 4"
  proof -
    have "z = take_bit 2 x" unfolding z by (simp add: take_bit_eq_mask mask_eq_exp_minus_1)
    moreover have "unat (take_bit 2 x) = unat x mod 2 ^ 2"
      by (simp only: unsigned_take_bit_eq) (simp add: take_bit_eq_mod)
    ultimately show ?thesis by simp
  qed
  moreover have "unat x mod 4 < 4" by simp
  ultimately consider "z = 1" "unat x mod 4 = 1" | "z = 2" "unat x mod 4 = 2" | "z = 3" "unat x mod 4 = 3"
    using a small_cases [of "unat x mod 4"] by (auto simp: word_unat_eq_iff)
  then show ?thesis
  proof cases
    case 2
    define n where "n = unat x div 4"
    have n: "unat x = 4 * n + 2" using 2(2) div_mult_mod_eq [of "unat x" 4] unfolding n_def by linarith
    have "trailing (4 * n + 2) = Suc (trailing (2 * n + 1))" by (subst trailing.simps) simp
    also have "trailing (2 * n + 1) = 0" by (subst trailing.simps) simp
    finally show ?thesis unfolding n 2(1) by simp
  next
    case 1
    then have "odd (unat x)" by presburger
    with 1(1) show ?thesis by (simp add: trailing.simps)
  next
    case 3
    then have "odd (unat x)" by presburger
    with 3(1) show ?thesis by (simp add: trailing.simps)
  qed
qed

lemma ctzsi2_nat: "x \<noteq> 0 \<Longrightarrow> unat (ctzsi2 x) = trailing (unat x)"
proof -
  assume nz: "x \<noteq> 0"
  define t1 where "t1 = (if x AND 0x0000FFFF = 0 then 16 else 0 :: u32)"
  define x1 where "x1 = drop_bit (unat t1) x"
  define t2 where "t2 = (if x1 AND 0x00FF = 0 then 8 else 0 :: u32)"
  define x2 where "x2 = drop_bit (unat t2) x1"
  define t3 where "t3 = (if x2 AND 0x0F = 0 then 4 else 0 :: u32)"
  define x3 where "x3 = drop_bit (unat t3) x2"
  define t4 where "t4 = (if x3 AND 0x3 = 0 then 2 else 0 :: u32)"
  define x4 where "x4 = drop_bit (unat t4) x3"
  define z where "z = x4 AND 3"
  define e where "e = (2 - drop_bit 1 z) AND - (if z AND 1 = 0 then 1 else 0)"
  have c: "ctzsi2 x = t1 + t2 + t3 + t4 + e"
    unfolding ctzsi2_def Let_def e_def z_def x4_def t4_def x3_def t3_def x2_def t2_def x1_def t1_def by (rule refl)
  have m: "mask 16 = (0xFFFF :: u32)" "mask 8 = (0xFF :: u32)" "mask 4 = (0xF :: u32)" "mask 2 = (0x3 :: u32)"
    by (simp_all add: mask_eq_exp_minus_1)
  have s1: "unat x1 mod 2 ^ 16 \<noteq> 0 \<and> trailing (unat x) = unat t1 + trailing (unat x1) \<and> unat t1 \<le> 16"
    unfolding x1_def t1_def m(1) [symmetric] using nz unat_lt32 [of x]
    by (intro ctz_step) (simp_all add: unat_eq_zero)
  have s2: "unat x2 mod 2 ^ 8 \<noteq> 0 \<and> trailing (unat x1) = unat t2 + trailing (unat x2) \<and> unat t2 \<le> 8"
    unfolding x2_def t2_def m(2) [symmetric] using s1 by (intro ctz_step) simp_all
  have s3: "unat x3 mod 2 ^ 4 \<noteq> 0 \<and> trailing (unat x2) = unat t3 + trailing (unat x3) \<and> unat t3 \<le> 4"
    unfolding x3_def t3_def m(3) [symmetric] using s2 by (intro ctz_step) simp_all
  have s4: "unat x4 mod 2 ^ 2 \<noteq> 0 \<and> trailing (unat x3) = unat t4 + trailing (unat x4) \<and> unat t4 \<le> 2"
    unfolding x4_def t4_def m(4) [symmetric] using s3 by (intro ctz_step) simp_all
  have e: "unat e = trailing (unat x4)" unfolding e_def using s4 z_def by (intro ctz_end) simp_all
  have "unat x4 mod 4 \<noteq> 0" using s4 by simp
  then have "trailing (unat x4) \<le> 1"
  proof (cases "even (unat x4)")
    case True
    with \<open>unat x4 mod 4 \<noteq> 0\<close> have "odd (unat x4 div 2)" by presburger
    then show ?thesis using True by (simp add: trailing.simps)
  qed (simp add: trailing.simps)
  then show ?thesis using s1 s2 s3 s4 e unfolding c by (simp add: unat_word_ariths)
qed

lemma unat_trailing_lt: "x \<noteq> 0 \<Longrightarrow> trailing (unat x) < 32" for x :: u32
proof (rule ccontr)
  assume nz: "x \<noteq> 0" and "\<not> trailing (unat x) < 32"
  have "0 < n \<Longrightarrow> 2 ^ trailing n \<le> n" for n
  proof (induction n rule: trailing.induct)
    case (1 n)
    then show ?case by (cases "odd n") (auto simp: trailing.simps [of n])
  qed
  from this [of "unat x"] have "2 ^ trailing (unat x) \<le> unat x" using nz by (simp add: unat_gt_0)
  moreover have "(2 :: nat) ^ 32 \<le> 2 ^ trailing (unat x)"
    using \<open>\<not> trailing (unat x) < 32\<close> by (intro power_increasing) simp_all
  ultimately show False using unat_lt32 [of x] by simp
qed

lemma ctzdi2_nat: "x \<noteq> 0 \<Longrightarrow> unat (ctzdi2 x) = trailing (unat x)"
proof -
  assume nz: "x \<noteq> 0"
  have x: "unat x = unat (high x) * 2 ^ 32 + unat (low x)" by (rule unat_halves)
  show ?thesis
  proof (cases "low x = 0")
    case True
    then have h: "high x \<noteq> 0" using nz x by (auto simp: unat_eq_zero [symmetric])
    have "ctzdi2 x = ctzsi2 (high x) + 32" using True by (simp add: ctzdi2_def)
    then have "unat (ctzdi2 x) = trailing (unat (high x)) + 32"
      using unat_trailing_lt [OF h] ctzsi2_nat [OF h] by (simp add: unat_word_ariths)
    also have "\<dots> = trailing (unat x)"
      using trailing_shift [of "unat x" 32] True x h by (simp add: unat_gt_0)
    finally show ?thesis .
  next
    case False
    have low_bits: "trailing (h * 2 ^ k + l) = trailing l" if "0 < l" "l < 2 ^ k" for h k l :: nat
      using that
    proof (induction k arbitrary: l)
      case (Suc k)
      have d: "(h * 2 ^ Suc k + l) div 2 = h * 2 ^ k + l div 2" by simp
      have e: "odd (h * 2 ^ Suc k + l) \<longleftrightarrow> odd l" by simp
      show ?case
      proof (cases "odd l")
        case False
        then have "0 < l div 2" "l div 2 < 2 ^ k" using Suc.prems by auto
        then show ?thesis using Suc.IH Suc.prems(1) False d e
          by (simp add: trailing.simps [of l] trailing.simps [of "h * 2 ^ Suc k + l"] del: power_Suc)
      qed (simp add: trailing.simps)
    qed simp
    have "ctzdi2 x = ctzsi2 (low x)" using False by (simp add: ctzdi2_def)
    then show ?thesis using ctzsi2_nat [OF False] low_bits [of "unat (low x)" 32] False unat_lt32 [of "low x"]
      unfolding x by (simp add: unat_gt_0)
  qed
qed

lemma clzdi2_nat: "x \<noteq> 0 \<Longrightarrow> unat (clzdi2 x) = 64 - bitlen (unat x)"
proof -
  assume nz: "x \<noteq> 0"
  have x: "unat x = unat (high x) * 2 ^ 32 + unat (low x)" by (rule unat_halves)
  have b: "bitlen (unat y) \<le> 32" for y :: u32 by (rule bitlen_le) (use unat_lt32 [of y] in simp)
  have c: "unat (clzsi2 y) = 32 - bitlen (unat y)" if "y \<noteq> 0" for y
    using clzsi2_eq [OF that] by (simp add: builtin_clz_def unat_of_nat)
  show ?thesis
  proof (cases "high x = 0")
    case True
    then have l: "low x \<noteq> 0" using nz x by (auto simp: unat_eq_zero [symmetric])
    have "clzdi2 x = clzsi2 (low x) + 32" using True by (simp add: clzdi2_def)
    then show ?thesis using c [OF l] b [of "low x"] True x by (simp add: unat_word_ariths)
  next
    case False
    then have "2 ^ 32 \<le> unat x" "unat x div 2 ^ 32 = unat (high x)"
      using x unat_lt32 [of "low x"] by (simp_all add: unat_gt_0 Suc_le_eq div_mult_self4 trans_le_add1)
    then have "bitlen (unat x) = 32 + bitlen (unat (high x))" using bitlen_shift by metis
    moreover have "clzdi2 x = clzsi2 (high x)" using False by (simp add: clzdi2_def)
    ultimately show ?thesis using c [OF False] by simp
  qed
qed


lemma trailing_dvd: "0 < n \<Longrightarrow> 2 ^ trailing n dvd n \<and> \<not> 2 ^ Suc (trailing n) dvd n"
proof (induction n rule: trailing.induct)
  case (1 n)
  show ?case
  proof (cases "odd n")
    case False
    then obtain y where y: "n = 2 * y" by auto
    with 1 False have "2 ^ trailing y dvd y \<and> \<not> 2 ^ Suc (trailing y) dvd y" by simp
    moreover have "trailing n = Suc (trailing y)" using 1 False y by (subst trailing.simps) simp
    ultimately show ?thesis by (simp add: y)
  qed (simp add: trailing.simps)
qed

text \<open>On a nonzero word the bit counting functions agree with the builtins they stand for: the
  leading zeros place the value between two powers of two, the trailing zeros are the largest power
  of two that divides it.\<close>

theorem bit_counters:
  assumes "x \<noteq> 0" "y \<noteq> 0"
  shows "clzsi2 x = builtin_clz x \<and> ctzsi2 x = builtin_ctz x
    \<and> 2 ^ (31 - unat (clzsi2 x)) \<le> unat x \<and> unat x < 2 ^ (32 - unat (clzsi2 x))
    \<and> 2 ^ (63 - unat (clzdi2 y)) \<le> unat y \<and> unat y < 2 ^ (64 - unat (clzdi2 y))
    \<and> 2 ^ unat (ctzdi2 y) dvd unat y \<and> \<not> 2 ^ Suc (unat (ctzdi2 y)) dvd unat y"
proof -
  have p: "0 < unat x" "0 < unat y" using assms by (simp_all add: unat_gt_0)
  have b: "bitlen (unat x) \<le> 32" "bitlen (unat y) \<le> 64"
    using unat_lt32 [of x] unat_lt64 [of y] by (auto intro: bitlen_le)
  have "unat (clzsi2 x) = 32 - bitlen (unat x)"
    using clzsi2_eq [OF assms(1)] by (simp add: builtin_clz_def unat_of_nat)
  moreover have "ctzsi2 x = builtin_ctz x"
    using ctzsi2_nat [OF assms(1)] unat_trailing_lt [OF assms(1)]
    by (simp add: word_unat_eq_iff builtin_ctz_def unat_of_nat)
  ultimately show ?thesis
    using bitlen_bounds [OF p(1)] bitlen_bounds [OF p(2)] bitlen_pos [OF p(1)] bitlen_pos [OF p(2)] b
      trailing_dvd [OF p(2)] clzsi2_eq [OF assms(1)] clzdi2_nat [OF assms(2)] ctzdi2_nat [OF assms(2)]
    by simp
qed

lemma bit_counters_witness: "clzsi2 0x00010400 = builtin_clz 0x00010400 \<and> 2 ^ unat (ctzdi2 0x500000000) dvd (0x500000000 :: nat)"
  using bit_counters [of "0x00010400" "0x500000000"] by simp

end
