(* ===== verification/KlibInt64.thy ===== *)
theory KlibInt64 imports KlibBits "HOL-Library.Signed_Division" begin

text \<open>
  The 64 bit division of \<open>abstract-machine/klib/src/int64.c\<close> for a 32 bit target, on the two
  32 bit halves of its operands: \<open>__udivmoddi4\<close> with its special cases and its shift and
  subtract loop, and the signed and unsigned functions on top of it.  A division by zero,
  undefined in C, is an abort.
\<close>

unbundle bit_operations_syntax

section \<open>Division\<close>

text \<open>Before the loop: a result at once (quotient and remainder), or \<open>sr\<close> and the halves of \<open>q\<close>
  and \<open>r\<close> the loop starts with.\<close>

datatype start = Ret u64 u64 | Go u32 u32 u32 u32 u32

text \<open>\<open>q = n << (64 - sr)\<close> and \<open>r = n >> sr\<close> for \<open>1 \<le> sr \<le> 31\<close>, in halves, as three branches do it.\<close>

definition go_short :: "u32 \<Rightarrow> u32 \<Rightarrow> u32 \<Rightarrow> start" where
  "go_short sr nh nl =
     Go sr (push_bit (unat (32 - sr)) nl) 0
        (drop_bit (unat sr) nh) (push_bit (unat (32 - sr)) nh OR drop_bit (unat sr) nl)"

definition udivmod_setup :: "u64 \<Rightarrow> u64 \<Rightarrow> abort + start" where
  "udivmod_setup a b =
     (let nh = high a; nl = low a; dh = high b; dl = low b in
      if nh = 0 then
        if dh = 0 then
          (if dl = 0 then Inl ArithTrap else Inr (Ret (ucast (nl div dl)) (ucast (nl mod dl))))
        else Inr (Ret 0 (ucast nl))
      else if dl = 0 then
        if dh = 0 then Inl ArithTrap
        else if nl = 0 then Inr (Ret (ucast (nh div dh)) (all_of (nh mod dh) 0))
        else if dh AND (dh - 1) = 0 then
          Inr (Ret (ucast (drop_bit (unat (builtin_ctz dh)) nh)) (all_of (nh AND (dh - 1)) nl))
        else
          let sr = builtin_clz dh - builtin_clz nh in
          if 30 < sr then Inr (Ret 0 a) else Inr (go_short (sr + 1) nh nl)
      else if dh = 0 then
        if dl AND (dl - 1) = 0 then
          if dl = 1 then Inr (Ret a (ucast (nl AND (dl - 1))))
          else let sr = builtin_ctz dl in
            Inr (Ret (all_of (drop_bit (unat sr) nh) (push_bit (unat (32 - sr)) nh OR drop_bit (unat sr) nl))
                     (ucast (nl AND (dl - 1))))
        else
          let sr = 1 + 32 + builtin_clz dl - builtin_clz nh in
          if sr = 32 then Inr (Go sr nl 0 0 nh)
          else if sr < 32 then Inr (go_short sr nh nl)
          else Inr (Go sr (push_bit (unat (64 - sr)) nh OR drop_bit (unat (sr - 32)) nl)
                          (push_bit (unat (64 - sr)) nl) 0 (drop_bit (unat (sr - 32)) nh))
      else
        let sr = builtin_clz dh - builtin_clz nh in
        if 31 < sr then Inr (Ret 0 a)
        else if sr + 1 = 32 then Inr (Go (sr + 1) nl 0 0 nh)
        else Inr (go_short (sr + 1) nh nl))"

text \<open>One iteration, and \<open>k\<close> of them; the state is \<open>q\<close>, \<open>r\<close> in halves and \<open>carry\<close>.\<close>

definition udivmod_step :: "u64 \<Rightarrow> u32 \<times> u32 \<times> u32 \<times> u32 \<times> u32 \<Rightarrow> u32 \<times> u32 \<times> u32 \<times> u32 \<times> u32" where
  "udivmod_step d st =
     (case st of (qh, ql, rh, rl, carry) \<Rightarrow>
        let rh = push_bit 1 rh OR drop_bit 31 rl;
            rl = push_bit 1 rl OR drop_bit 31 qh;
            qh = push_bit 1 qh OR drop_bit 31 ql;
            ql = push_bit 1 ql OR carry;
            r = all_of rh rl;
            s = signed_drop_bit 63 (d - r - 1);
            carry = ucast (s AND 1);
            r = r - (d AND s)
        in (qh, ql, high r, low r, carry))"

fun udivmod_loop :: "nat \<Rightarrow> u64 \<Rightarrow> u32 \<times> u32 \<times> u32 \<times> u32 \<times> u32 \<Rightarrow> u32 \<times> u32 \<times> u32 \<times> u32 \<times> u32" where
  "udivmod_loop 0 d st = st"
| "udivmod_loop (Suc k) d st = udivmod_loop k d (udivmod_step d st)"

text \<open>\<open>__udivmoddi4\<close>: quotient and remainder.\<close>

definition udivmoddi4 :: "u64 \<Rightarrow> u64 \<Rightarrow> abort + u64 \<times> u64" where
  "udivmoddi4 a b =
     rbind (udivmod_setup a b) (\<lambda>st. case st of
       Ret q r \<Rightarrow> Inr (q, r)
     | Go sr qh ql rh rl \<Rightarrow>
         (case udivmod_loop (unat sr) b (qh, ql, rh, rl, 0) of
            (qh, ql, rh, rl, carry) \<Rightarrow> Inr (push_bit 1 (all_of qh ql) OR ucast carry, all_of rh rl)))"

definition udivdi3 :: "u64 \<Rightarrow> u64 \<Rightarrow> abort + u64" where
  "udivdi3 a b = rbind (udivmoddi4 a b) (\<lambda>r. Inr (fst r))"

definition umoddi3 :: "u64 \<Rightarrow> u64 \<Rightarrow> abort + u64" where
  "umoddi3 a b = rbind (udivmoddi4 a b) (\<lambda>r. Inr (snd r))"

definition divdi3 :: "u64 \<Rightarrow> u64 \<Rightarrow> abort + u64" where
  "divdi3 a b =
     (let s_a = signed_drop_bit 63 a; s_b = signed_drop_bit 63 b;
          a = (a XOR s_a) - s_a; b = (b XOR s_b) - s_b; s_a = s_a XOR s_b
      in rbind (udivmoddi4 a b) (\<lambda>r. Inr ((fst r XOR s_a) - s_a)))"

definition divmoddi4 :: "u64 \<Rightarrow> u64 \<Rightarrow> abort + u64 \<times> u64" where
  "divmoddi4 a b = rbind (divdi3 a b) (\<lambda>d. Inr (d, a - d * b))"

definition moddi3 :: "u64 \<Rightarrow> u64 \<Rightarrow> abort + u64" where
  "moddi3 a b =
     (let s = signed_drop_bit 63 b; b = (b XOR s) - s;
          s = signed_drop_bit 63 a; a = (a XOR s) - s
      in rbind (udivmoddi4 a b) (\<lambda>r. Inr ((snd r XOR s) - s)))"

section \<open>The loop\<close>

lemma top_bit: "unat (drop_bit 31 (x :: u32)) = unat x div 2 ^ 31"
  by (simp add: drop_bit_eq_div unat_div)

lemma shl_or:
  fixes x y :: u32
  assumes "y \<le> 1"
  shows "unat (push_bit 1 x OR y) = (2 * unat x + unat y) mod 2 ^ 32"
proof -
  have "push_bit 1 x AND y = 0"
  proof (rule bit_word_eqI)
    fix i
    have "y = 0 \<or> y = 1" using assms by (auto simp: word_le_nat_alt word_unat_eq_iff)
    then show "bit (push_bit 1 x AND y) i \<longleftrightarrow> bit (0 :: u32) i"
      by (auto simp: bit_simps bit_0)
  qed
  then have "push_bit 1 x OR y = push_bit 1 x + y"
    using word_plus_and_or [of "push_bit 1 x" y] by simp
  then show ?thesis
    by (simp add: push_bit_eq_mult unat_word_ariths mod_add_left_eq mult.commute)
qed

lemma shift_halves:
  assumes "c \<le> 1"
  shows "unat (all_of (push_bit 1 h OR drop_bit 31 l) (push_bit 1 l OR c)) = (2 * unat (all_of h l) + unat c) mod 2 ^ 64"
proof -
  have "unat l div 2 ^ 31 \<le> 1" using unat_lt32 [of l] by simp
  then have d: "drop_bit 31 l \<le> 1" using top_bit [of l] by (simp add: word_le_nat_alt)
  have e: "(2 * (H * 2 ^ 32 + L) + C) mod 2 ^ 64 = ((2 * H + L div 2 ^ 31) mod 2 ^ 32) * 2 ^ 32 + (2 * L + C) mod 2 ^ 32"
    if "H < 2 ^ 32" "L < 2 ^ 32" "C \<le> 1" for H L C :: nat
  proof -
    let ?A = "2 * H + L div 2 ^ 31" and ?B = "(2 * L + C) mod 2 ^ 32"
    have "(2 * L + C) div (2 * 2 ^ 31) = L div 2 ^ 31"
      unfolding div_mult2_eq using that(3) by (cases C) auto
    then have "2 * L + C = (L div 2 ^ 31) * 2 ^ 32 + ?B"
      using div_mult_mod_eq [of "2 * L + C" "2 ^ 32"] by simp
    then have X: "2 * (H * 2 ^ 32 + L) + C = ?A * 2 ^ 32 + ?B"
      by (simp add: algebra_simps)
    have B: "?B < 2 ^ 32" by simp
    have "(a * 2 ^ 32 + b) mod (2 ^ 32 * 2 ^ 32) = 2 ^ 32 * (a mod 2 ^ 32) + b" if "b < 2 ^ 32" for a b :: nat
      unfolding mod_mult2_eq using that by simp
    from this [OF B, of ?A]
    show ?thesis unfolding X by (simp add: mult.commute)
  qed
  have "unat c \<le> 1" using assms by (simp add: word_le_nat_alt)
  from e [of "unat h" "unat l" "unat c"] unat_lt32 [of h] unat_lt32 [of l] this show ?thesis
    unfolding unat_all_of shl_or [OF d] shl_or [OF assms] top_bit by simp
qed


text \<open>The sign of \<open>d - r - 1\<close> decides \<open>r \<ge> d\<close> when the two are close.\<close>

lemma sign_decides:
  fixes d r :: u64
  assumes "int (unat d) - int (unat r) - 1 < 2 ^ 63" "- (2 ^ 63) \<le> int (unat d) - int (unat r) - 1"
  shows "signed_drop_bit 63 (d - r - 1) = (if d \<le> r then - 1 else 0)"
proof -
  let ?x = "d - r - 1"
  have "sint ?x = int (unat d) - int (unat r) - 1"
  proof -
    have "?x = of_int (int (unat d) - int (unat r) - 1)" by simp
    then have "sint ?x = sint (word_of_int (int (unat d) - int (unat r) - 1) :: u64)" by (rule arg_cong)
    then have "sint ?x = signed_take_bit 63 (int (unat d) - int (unat r) - 1)"
      unfolding sint_sbintrunc' by simp
    also have "\<dots> = int (unat d) - int (unat r) - 1"
      using assms by (simp add: signed_take_bit_int_eq_self)
    finally show ?thesis .
  qed
  then have "sint ?x < 0 \<longleftrightarrow> uint d \<le> uint r" by simp linarith
  then have neg: "sint ?x < 0 \<longleftrightarrow> d \<le> r" by (simp add: word_le_def)
  have "sint (signed_drop_bit 63 ?x) = drop_bit 63 (sint ?x)" by (simp add: sint_signed_drop_bit_eq)
  also have "\<dots> = (if sint ?x < 0 then - 1 else 0)"
    using sint_ge [of ?x] sint_lt [of ?x] by (auto simp: drop_bit_eq_div div_pos_pos_trivial zdiv_eq_0_iff intro: div_eq_minus1)
  finally show ?thesis using neg by (auto intro!: signed_word_eqI)
qed


text \<open>One iteration, in numbers.\<close>

lemma udivmod_step_nat:
  fixes d :: u64
  assumes c: "c \<le> 1"
    and Q: "unat (all_of qh ql) = Q" and R: "unat (all_of rh rl) = R"
    and R1: "R1 = 2 * R + Q div 2 ^ 63" "R1 < 2 ^ 64"
    and near: "int (unat d) - int R1 - 1 < 2 ^ 63" "- (2 ^ 63) \<le> int (unat d) - int R1 - 1"
    and st: "udivmod_step d (qh, ql, rh, rl, c) = (qh', ql', rh', rl', c')"
  shows "unat (all_of qh' ql') = (2 * Q + unat c) mod 2 ^ 64
    \<and> unat (all_of rh' rl') = (if unat d \<le> R1 then R1 - unat d else R1)
    \<and> unat c' = (if unat d \<le> R1 then 1 else 0)"
proof -
  have "unat qh div 2 ^ 31 = Q div 2 ^ 63"
  proof -
    have "Q div (2 ^ 32 * 2 ^ 31) = unat qh div 2 ^ 31"
      unfolding div_mult2_eq using Q unat_lt32 [of ql] by (simp add: unat_all_of)
    then show ?thesis by simp
  qed
  then have top: "unat (drop_bit 31 qh) = Q div 2 ^ 63" using top_bit [of qh] by simp
  have "unat qh div 2 ^ 31 \<le> 1" using unat_lt32 [of qh] by simp
  then have t1: "drop_bit 31 qh \<le> 1" using top_bit [of qh] by (simp add: word_le_nat_alt)
  define r where "r = all_of (push_bit 1 rh OR drop_bit 31 rl) (push_bit 1 rl OR drop_bit 31 qh)"
  have r: "unat r = R1" using shift_halves [OF t1, of rh rl] R R1 top by (simp only: r_def) simp
  have s: "signed_drop_bit 63 (d - r - 1) = (if d \<le> r then - 1 else 0)"
    by (rule sign_decides) (simp_all only: r near)
  have le: "d \<le> r \<longleftrightarrow> unat d \<le> R1" using r by (simp add: word_le_nat_alt)
  have q: "unat (all_of qh' ql') = (2 * Q + unat c) mod 2 ^ 64"
    using shift_halves [OF c, of qh ql] st Q by (simp add: udivmod_step_def Let_def)
  show ?thesis
  proof (cases "unat d \<le> R1")
    case True
    then have "all_of rh' rl' = r - d" "c' = 1"
      using st s le True by (auto simp only: udivmod_step_def Let_def r_def [symmetric] split: prod.splits if_splits) auto
    then show ?thesis using q True r le by (simp add: unat_sub)
  next
    case False
    then have "all_of rh' rl' = r" "c' = 0"
      using st s le False by (auto simp only: udivmod_step_def Let_def r_def [symmetric] split: prod.splits if_splits) auto
    then show ?thesis using q False r by simp
  qed
qed


text \<open>The state with \<open>k\<close> iterations to go: the remainder of \<open>N div 2 ^ k\<close> in \<open>r\<close>, its quotient in
  the low bits of \<open>q\<close> and in \<open>carry\<close>, the bits of \<open>N\<close> still to come in the high bits of \<open>q\<close>.\<close>

definition divides_upto :: "nat \<Rightarrow> nat \<Rightarrow> nat \<Rightarrow> u32 \<times> u32 \<times> u32 \<times> u32 \<times> u32 \<Rightarrow> bool" where
  "divides_upto k N D st =
     (case st of (qh, ql, rh, rl, c) \<Rightarrow>
        unat (all_of qh ql) = (N mod 2 ^ k) * 2 ^ (64 - k) + N div 2 ^ k div D div 2
      \<and> unat c = N div 2 ^ k div D mod 2
      \<and> unat (all_of rh rl) = N div 2 ^ k mod D)"

text \<open>Where the test by the sign of \<open>d - r - 1\<close> is right.\<close>

definition near :: "nat \<Rightarrow> nat \<Rightarrow> nat \<Rightarrow> bool" where
  "near k N D \<longleftrightarrow> D \<le> 2 ^ 63 \<or> k \<le> 1 \<and> 2 ^ 63 \<le> N"

lemma halve_nat:
  fixes N D k :: nat
  assumes "0 < D"
  defines "n1 \<equiv> N div 2 ^ Suc k" and "b \<equiv> N div 2 ^ k mod 2"
  shows "N div 2 ^ k = 2 * n1 + b" "N mod 2 ^ Suc k = b * 2 ^ k + N mod 2 ^ k"
    "N div 2 ^ k div D = 2 * (n1 div D) + (if D \<le> 2 * (n1 mod D) + b then 1 else 0)"
    "N div 2 ^ k mod D = (if D \<le> 2 * (n1 mod D) + b then 2 * (n1 mod D) + b - D else 2 * (n1 mod D) + b)"
proof -
  have n1: "n1 = N div 2 ^ k div 2" by (simp add: n1_def div_mult2_eq [symmetric] mult.commute)
  show e: "N div 2 ^ k = 2 * n1 + b" unfolding n1 b_def by simp
  show "N mod 2 ^ Suc k = b * 2 ^ k + N mod 2 ^ k"
    using mod_mult2_eq [of N "2 ^ k" 2] by (simp add: b_def mult.commute)
  have b: "b \<le> 1" unfolding b_def by simp
  let ?R = "2 * (n1 mod D) + b"
  have r: "?R < 2 * D" using b mod_less_divisor [OF assms(1), of n1] by linarith
  have d: "N div 2 ^ k = D * (2 * (n1 div D)) + ?R"
  proof -
    have "2 * n1 = 2 * (D * (n1 div D) + n1 mod D)" by simp
    then show ?thesis unfolding e by (simp only: distrib_left mult.left_commute [of 2 D] add.assoc)
  qed
  have "(D * y + ?R) div D = y + (if D \<le> ?R then 1 else 0)
      \<and> (D * y + ?R) mod D = (if D \<le> ?R then ?R - D else ?R)" for y
  proof (cases "D \<le> ?R")
    case True
    then have "D * y + ?R = D * (y + 1) + (?R - D)" by (simp add: algebra_simps)
    moreover have "?R - D < D" using r True by linarith
    ultimately show ?thesis using True by (simp only: div_mult_self4 mod_mult_self4) simp
  next
    case False
    then show ?thesis by simp
  qed
  then show "N div 2 ^ k div D = 2 * (n1 div D) + (if D \<le> ?R then 1 else 0)"
    "N div 2 ^ k mod D = (if D \<le> ?R then ?R - D else ?R)"
    unfolding d by blast+
qed

lemma close_nat:
  assumes "D \<le> 2 ^ 63 \<or> 2 ^ 63 \<le> N \<and> 2 ^ 63 < D \<and> R = N" "R < 2 * D" "N < 2 ^ 64" "D < 2 ^ 64"
  shows "int D - int R - 1 < 2 ^ 63" "- (2 ^ 63) \<le> int D - int R - 1"
  using assms by auto

lemma step_divides:
  assumes D: "0 < unat d" and N: "N < 2 ^ 64" and k: "k < 63"
    and inv: "divides_upto (Suc k) N (unat d) st" and near: "near (Suc k) N (unat d)"
  shows "divides_upto k N (unat d) (udivmod_step d st)"
proof -
  obtain qh ql rh rl c where st: "st = (qh, ql, rh, rl, c)" by (cases st)
  obtain qh' ql' rh' rl' c' where st': "udivmod_step d st = (qh', ql', rh', rl', c')"
    by (cases "udivmod_step d st")
  define n1 where "n1 = N div 2 ^ Suc k"
  define b where "b = N div 2 ^ k mod 2"
  define Q where "Q = (N mod 2 ^ Suc k) * 2 ^ (64 - Suc k) + n1 div unat d div 2"
  note h = halve_nat [OF D, of N k, folded n1_def b_def]
  have inv: "unat (all_of qh ql) = Q" "unat c = n1 div unat d mod 2" "unat (all_of rh rl) = n1 mod unat d"
    using inv by (simp_all add: st divides_upto_def n1_def Q_def)
  have p: "2 ^ k * 2 ^ (64 - Suc k) = (2 :: nat) ^ 63" using k by (simp add: power_add [symmetric])
  have "n1 < 2 ^ (64 - Suc k)"
    unfolding n1_def using N k by (intro less_mult_imp_div_less) (simp add: power_add [symmetric] del: power_Suc)
  then have e: "n1 div unat d div 2 < 2 ^ (64 - Suc k)" by (meson div_le_dividend le_less_trans)
  let ?L = "(N mod 2 ^ k) * 2 ^ (64 - Suc k) + n1 div unat d div 2"
  have "N mod 2 ^ k + 1 \<le> 2 ^ k" by (simp add: Suc_leI)
  then have "(N mod 2 ^ k + 1) * 2 ^ (64 - Suc k) \<le> 2 ^ 63" unfolding p [symmetric] by (rule mult_le_mono1)
  then have L: "?L < 2 ^ 63" using e by simp
  have Q: "Q = b * 2 ^ 63 + ?L" unfolding Q_def h(2) p [symmetric] by (simp add: algebra_simps)
  have b: "b \<le> 1" unfolding b_def by simp
  have Q63: "Q div 2 ^ 63 = b" unfolding Q using L by simp
  have "2 * (n1 mod unat d) + b \<le> N"
  proof -
    have "2 * (n1 mod unat d) + b \<le> 2 * n1 + b" by simp
    also have "\<dots> = N div 2 ^ k" using h(1) by simp
    also have "\<dots> \<le> N" by simp
    finally show ?thesis .
  qed
  note R1N = this
  then have R64: "2 * (n1 mod unat d) + b < 2 ^ 64" using N by linarith
  have R2: "2 * (n1 mod unat d) + b < 2 * unat d" using b mod_less_divisor [OF D, of n1] by linarith
  have dis: "unat d \<le> 2 ^ 63 \<or> 2 ^ 63 \<le> N \<and> 2 ^ 63 < unat d \<and> 2 * (n1 mod unat d) + b = N"
  proof (cases "unat d \<le> 2 ^ 63")
    case False
    then have z: "k = 0" "2 ^ 63 \<le> N" using near by (auto simp: near_def)
    have "n1 < 2 ^ 63" using N z by (simp add: n1_def)
    then have "n1 mod unat d = n1" using False by simp
    with h(1) z False show ?thesis by simp
  qed simp
  have close: "int (unat d) - int (2 * (n1 mod unat d) + b) - 1 < 2 ^ 63"
    "- (2 ^ 63) \<le> int (unat d) - int (2 * (n1 mod unat d) + b) - 1"
    using close_nat [of "unat d" N "2 * (n1 mod unat d) + b"] dis R2 N unat_lt64 [of d] by simp_all
  have c: "c \<le> 1" using inv(2) by (simp add: word_le_nat_alt)
  have R1: "2 * (n1 mod unat d) + b = 2 * (n1 mod unat d) + Q div 2 ^ 63" using Q63 by simp
  have s: "unat (all_of qh' ql') = (2 * Q + unat c) mod 2 ^ 64
    \<and> unat (all_of rh' rl') = (if unat d \<le> 2 * (n1 mod unat d) + b then 2 * (n1 mod unat d) + b - unat d else 2 * (n1 mod unat d) + b)
    \<and> unat c' = (if unat d \<le> 2 * (n1 mod unat d) + b then 1 else 0)"
    by (rule udivmod_step_nat [OF c inv(1) inv(3) R1 R64 close st' [unfolded st]])
  have "(2 * Q + unat c) mod 2 ^ 64 = (N mod 2 ^ k) * 2 ^ (64 - k) + n1 div unat d"
  proof -
    have "64 - k = Suc (64 - Suc k)" using k by simp
    then have "2 * Q + unat c = b * 2 ^ 64 + ((N mod 2 ^ k) * 2 ^ (64 - k) + n1 div unat d)"
      unfolding Q inv(2) using div_mult_mod_eq [of "n1 div unat d" 2] by (simp add: algebra_simps)
    moreover have "(N mod 2 ^ k) * 2 ^ (64 - k) + n1 div unat d < 2 ^ 64"
      using L \<open>64 - k = _\<close> div_mult_mod_eq [of "n1 div unat d" 2] mod_less_divisor [of 2 "n1 div unat d"]
      by (simp add: algebra_simps)
    ultimately show ?thesis by simp
  qed
  with s h(3,4) show ?thesis by (simp add: st' divides_upto_def)
qed

lemma loop_divides:
  "0 < unat d \<Longrightarrow> N < 2 ^ 64 \<Longrightarrow> k \<le> 63 \<Longrightarrow> near k N (unat d) \<Longrightarrow> divides_upto k N (unat d) st
    \<Longrightarrow> divides_upto 0 N (unat d) (udivmod_loop k d st)"
proof (induction k arbitrary: st)
  case (Suc k)
  then have "divides_upto k N (unat d) (udivmod_step d st)" by (intro step_divides) auto
  moreover have "near k N (unat d)" using Suc.prems(4) by (auto simp: near_def)
  ultimately have "divides_upto 0 N (unat d) (udivmod_loop k d (udivmod_step d st))"
    using Suc.prems by (intro Suc.IH) simp_all
  then show ?case by simp
qed simp


section \<open>Shifts of both halves\<close>

lemma unat_shl: "unat (push_bit (64 - n) a) = (unat a mod 2 ^ n) * 2 ^ (64 - n)" if "n \<le> 64" for a :: u64
proof -
  have "unat (push_bit (64 - n) a) = (unat a * 2 ^ (64 - n)) mod (2 ^ n * 2 ^ (64 - n))"
    using that by (simp only: unsigned_push_bit_eq) (simp add: take_bit_eq_mod push_bit_eq_mult power_add [symmetric])
  then show ?thesis by (simp only: mult_mod_left)
qed

lemma word64_eqI: "(\<And>i. i < 64 \<Longrightarrow> bit x i \<longleftrightarrow> bit y i) \<Longrightarrow> x = y" for x y :: u64
  by (rule bit_word_eqI) simp

lemma bit_all_of': "bit (all_of h l) i \<longleftrightarrow> (if i < 32 then bit l i else bit h (i - 32))"
  using bit_imp_le_length [of h "i - 32"] by (auto simp: bit_all_of)

lemma bit_high': "bit (high x) i \<longleftrightarrow> bit x (i + 32)"
  using bit_imp_le_length [of x "i + 32"] by (auto simp: bit_high)

lemmas bits' = bit_all_of' bit_high' bit_low

lemma shr_halves:
  assumes "n + m = 32"
  shows "all_of (drop_bit n (high a)) (push_bit m (high a) OR drop_bit n (low a)) = drop_bit n a"
proof (rule word64_eqI)
  fix i :: nat assume i: "i < 64"
  have "i - m + 32 = n + i" if "m \<le> i" using assms that by arith
  moreover have "n + (i - 32) + 32 = n + i" if "\<not> i < 32" using that by arith
  moreover have "n + i < 32 \<longleftrightarrow> \<not> m \<le> i" using assms by arith
  ultimately show "bit (all_of (drop_bit n (high a)) (push_bit m (high a) OR drop_bit n (low a))) i
      \<longleftrightarrow> bit (drop_bit n a) i"
    by (cases "i < 32"; cases "m \<le> i") (simp_all add: bits' bit_simps)
qed

lemma shl_halves: "n + m = 32 \<Longrightarrow> all_of (push_bit m (low a)) 0 = push_bit (32 + m) a"
proof (rule word64_eqI)
  fix i :: nat assume i: "i < 64" and nm: "n + m = 32"
  have "m \<le> i - 32 \<longleftrightarrow> 32 + m \<le> i" if "\<not> i < 32" using that by arith
  moreover have "i - 32 - m = i - (32 + m)" by arith
  moreover have "i - 32 - m < 32" "i - 32 < 32" using i by arith+
  ultimately show "bit (all_of (push_bit m (low a)) 0) i \<longleftrightarrow> bit (push_bit (32 + m) a) i"
    using i by (cases "i < 32") (simp_all add: bits' bit_simps)
qed

lemma high_halves: "all_of 0 (drop_bit n (high a)) = drop_bit (32 + n) a"
proof (rule word64_eqI)
  fix i :: nat assume i: "i < 64"
  have "\<not> bit a (32 + n + i)" if "\<not> i < 32" using that bit_imp_le_length [of a "32 + n + i"] by auto
  then show "bit (all_of 0 (drop_bit n (high a))) i \<longleftrightarrow> bit (drop_bit (32 + n) a) i"
    by (cases "i < 32") (simp_all add: bits' bit_simps ac_simps)
qed

lemma low_halves:
  assumes "n + m = 32"
  shows "all_of (push_bit m (high a) OR drop_bit n (low a)) (push_bit m (low a)) = push_bit m a"
proof (rule word64_eqI)
  fix i :: nat assume i: "i < 64"
  show "bit (all_of (push_bit m (high a) OR drop_bit n (low a)) (push_bit m (low a))) i \<longleftrightarrow> bit (push_bit m a) i"
  proof (cases "i < 32")
    case True
    then show ?thesis using i by (auto simp: bits' bit_simps)
  next
    case False
    have j: "n + (i - 32) = i - m" using assms False by arith
    have "m \<le> i - 32 \<Longrightarrow> i - 32 - m + 32 = i - m" "m \<le> i - 32 \<longleftrightarrow> \<not> i - m < 32" "m \<le> i" "i - 32 < 32"
      using assms False i by arith+
    then show ?thesis using False i by (cases "m \<le> i - 32") (simp_all add: bits' bit_simps j)
  qed
qed


section \<open>Before the loop\<close>

text \<open>What the code has before the loop: the result, or a state the loop divides from.\<close>

definition starts :: "u64 \<Rightarrow> u64 \<Rightarrow> start \<Rightarrow> bool" where
  "starts a b st =
     (case st of
        Ret q r \<Rightarrow> q = a div b \<and> r = a mod b
      | Go sr qh ql rh rl \<Rightarrow> unat sr \<le> 63 \<and> near (unat sr) (unat a) (unat b)
          \<and> divides_upto (unat sr) (unat a) (unat b) (qh, ql, rh, rl, 0))"

lemma starts_shift:
  assumes "all_of qh ql = push_bit (64 - n) a" "all_of rh rl = drop_bit n a"
    and "unat sr = n" "1 \<le> n" "n \<le> 63" "unat a < unat b * 2 ^ n" "near n (unat a) (unat b)"
  shows "starts a b (Go sr qh ql rh rl)"
proof -
  have "unat a div 2 ^ n < unat b" using assms(6) by (simp add: less_mult_imp_div_less)
  then show ?thesis using assms by (simp add: starts_def divides_upto_def unat_shl unat_shr)
qed

lemma starts_short:
  assumes "unat sr = n" "1 \<le> n" "n \<le> 31" "unat a < unat b * 2 ^ n" "near n (unat a) (unat b)"
  shows "starts a b (go_short sr (high a) (low a))"
proof -
  have nm: "n + (32 - n) = 32" using assms by simp
  have u: "unat (32 - sr) = 32 - n"
    using assms by (subst unat_sub) (simp_all add: word_le_nat_alt)
  have "all_of (push_bit (32 - n) (low a)) 0 = push_bit (64 - n) a"
    using shl_halves [OF nm, of a] assms by simp
  with shr_halves [OF nm, of a] show ?thesis
    unfolding go_short_def u assms(1) using assms by (intro starts_shift) simp_all
qed

lemma unat_32: "unat (32 :: u32) = 32"
  by simp

lemma starts_32:
  assumes "sr = 32" "unat a < unat b * 2 ^ 32" "unat b \<le> 2 ^ 63"
  shows "starts a b (Go sr (low a) 0 0 (high a))"
  using shl_halves [of 32 0 a] high_halves [of 0 a] assms
  by (intro starts_shift [where n = 32]) (simp_all add: near_def)

lemma starts_long:
  assumes "unat sr = 32 + n" "1 \<le> n" "n \<le> 31" "unat a < unat b * 2 ^ (32 + n)" "unat b \<le> 2 ^ 63"
  shows "starts a b (Go sr (push_bit (unat (64 - sr)) (high a) OR drop_bit (unat (sr - 32)) (low a))
    (push_bit (unat (64 - sr)) (low a)) 0 (drop_bit (unat (sr - 32)) (high a)))"
proof -
  have nm: "n + (32 - n) = 32" using assms by simp
  have "unat (64 - sr) = 32 - n" "unat (sr - 32) = n"
    using assms by (subst unat_sub; simp add: word_le_nat_alt)+
  then show ?thesis using low_halves [OF nm, of a] high_halves [of n a] assms
    by (intro starts_shift [where n = "32 + n"]) (simp_all add: near_def)
qed

section \<open>The shift from the leading zeros\<close>

lemma bitlen_u32: "bitlen (unat (x :: u32)) \<le> 32"
  by (rule bitlen_le) (use unat_lt32 [of x] in simp)

lemma unat_clz: "unat (builtin_clz x) = 32 - bitlen (unat x)"
  by (simp add: builtin_clz_def unat_of_nat)

lemma clz_diff:
  assumes "x \<noteq> 0" "y \<noteq> 0"
  shows "bitlen (unat x) \<le> bitlen (unat y) \<Longrightarrow> unat (builtin_clz x - builtin_clz y) = bitlen (unat y) - bitlen (unat x)"
    "bitlen (unat y) < bitlen (unat x) \<Longrightarrow> 31 < builtin_clz x - builtin_clz y"
proof -
  assume "bitlen (unat x) \<le> bitlen (unat y)"
  then show "unat (builtin_clz x - builtin_clz y) = bitlen (unat y) - bitlen (unat x)"
    using bitlen_u32 [of x] bitlen_u32 [of y] by (subst unat_sub) (auto simp: word_le_nat_alt unat_clz)
next
  assume "bitlen (unat y) < bitlen (unat x)"
  then show "31 < builtin_clz x - builtin_clz y"
    using bitlen_u32 [of x] bitlen_u32 [of y] by (simp add: word_less_nat_alt unat_sub_if_size unat_clz word_size) arith
qed

lemma bitlen_less: "bitlen m < bitlen n \<Longrightarrow> m < n"
proof (rule ccontr)
  assume l: "bitlen m < bitlen n" and "\<not> m < n"
  then have "n < 2 ^ bitlen m" using bitlen_bounds [of m] by (cases "m = 0") auto
  then show False using bitlen_le [of n "bitlen m"] l by simp
qed

text \<open>With \<open>k\<close> one more than the difference of the bit lengths of the high halves.\<close>

lemma shift_bound:
  fixes n d :: nat
  assumes "n < 2 ^ bl" "2 ^ (cl - 1) \<le> d" "bl + 1 = cl + k" "0 < cl"
  shows "n < d * 2 ^ k"
proof -
  have "bl = (cl - 1) + k" using assms by simp
  then have "(2 :: nat) ^ bl = 2 ^ (cl - 1) * 2 ^ k" by (simp add: power_add)
  with assms(1,2) show ?thesis by (metis less_le_trans mult_le_mono1)
qed


lemma high_bound: "unat a < 2 ^ (32 + bitlen (unat (high a)))"
proof -
  have "unat (high a) + 1 \<le> 2 ^ bitlen (unat (high a))"
    using bitlen_bounds [of "unat (high a)"] by (cases "unat (high a) = 0") auto
  then have "(unat (high a) + 1) * 2 ^ 32 \<le> 2 ^ bitlen (unat (high a)) * 2 ^ 32" by (rule mult_le_mono1)
  moreover have "unat a < (unat (high a) + 1) * 2 ^ 32"
    using unat_halves [of a] unat_lt32 [of "low a"] by simp
  ultimately show ?thesis unfolding power_add mult.commute [of "2 ^ 32"] by linarith
qed

lemma high_least: "high b \<noteq> 0 \<Longrightarrow> 2 ^ (31 + bitlen (unat (high b))) \<le> unat b"
proof -
  assume nz: "high b \<noteq> 0"
  then have g: "0 < unat (high b)" by (simp add: unat_gt_0)
  then have "2 ^ (bitlen (unat (high b)) - 1) * 2 ^ 32 \<le> unat (high b) * 2 ^ 32"
    using bitlen_bounds [of "unat (high b)"] by (intro mult_le_mono1) simp
  moreover have "31 + bitlen (unat (high b)) = bitlen (unat (high b)) - 1 + 32"
    using bitlen_pos [OF g] by simp
  ultimately show ?thesis using unat_halves [of b] by (simp only: power_add)
qed

lemma near_high:
  assumes "high a \<noteq> 0" "high b \<noteq> 0" "bitlen (unat (high a)) + 1 = bitlen (unat (high b)) + k" "1 \<le> k"
  shows "near k (unat a) (unat b)"
proof (cases "unat b \<le> 2 ^ 63")
  case False
  have "\<not> bitlen (unat (high b)) \<le> 31"
  proof
    assume "bitlen (unat (high b)) \<le> 31"
    then have "(2 :: nat) ^ (32 + bitlen (unat (high b))) \<le> 2 ^ 63" by (intro power_increasing) simp_all
    with high_bound [of b] False show False by linarith
  qed
  then have "k = 1" "bitlen (unat (high a)) = 32"
    using assms(3,4) bitlen_u32 [of "high a"] by linarith+
  then show ?thesis using high_least [OF assms(1)] by (simp add: near_def)
qed (simp add: near_def)

lemma high_zero: "high x = 0 \<Longrightarrow> unat x = unat (low x)"
  using unat_halves [of x] by simp

lemma high_less: "unat (high a) < unat (high b) \<Longrightarrow> unat a < unat b"
proof -
  assume "unat (high a) < unat (high b)"
  then have "(unat (high a) + 1) * 2 ^ 32 \<le> unat (high b) * 2 ^ 32" by (intro mult_le_mono1) simp
  with unat_halves [of a] unat_halves [of b] unat_lt32 [of "low a"] show ?thesis by simp
qed

lemma starts_small: "unat a < unat b \<Longrightarrow> starts a b (Ret 0 a)"
  by (simp add: starts_def word_eq_iff_unsigned word_unat_eq_iff unat_div unat_mod)

lemma starts_Ret:
  "unat q = unat a div unat b \<Longrightarrow> unat r = unat a mod unat b \<Longrightarrow> starts a b (Ret q r)"
  by (simp add: starts_def word_unat_eq_iff unat_div unat_mod)

lemma pow2_nat:
  fixes d :: u32
  assumes "d \<noteq> 0" "d AND (d - 1) = 0"
  obtains t where "t < 32" "unat d = 2 ^ t" "unat (builtin_ctz d) = t"
proof -
  have g: "0 < unat d" using assms by (simp add: unat_gt_0)
  have "unat d AND (unat d - 1) = unat (d AND (d - 1))"
    using assms(1) by (simp add: unsigned_and_eq unat_minus_one)
  then have e: "unat d = 2 ^ trailing (unat d)" using assms g by (intro trailing_pow) simp_all
  have l: "trailing (unat d) < 32"
  proof (rule ccontr)
    assume "\<not> trailing (unat d) < 32"
    then have "(2 :: nat) ^ 32 \<le> 2 ^ trailing (unat d)" by (intro power_increasing) simp_all
    then show False using unat_lt32 [of d] unfolding e [symmetric] by simp
  qed
  moreover have "unat (builtin_ctz d) = trailing (unat d)" using l by (simp add: builtin_ctz_def unat_of_nat)
  ultimately show ?thesis using that e by blast
qed

lemma unat_and_pow:
  fixes d x :: u32
  assumes "unat d = 2 ^ t"
  shows "unat (x AND (d - 1)) = unat x mod 2 ^ t"
proof -
  have "unat (d - 1) = 2 ^ t - 1" using assms by (subst unat_minus_one) auto
  then have "unat (x AND (d - 1)) = unat x AND mask t" by (simp add: unsigned_and_eq mask_eq_exp_minus_1)
  then show ?thesis by (simp add: take_bit_eq_mask [symmetric] take_bit_eq_mod)
qed


section \<open>The cases\<close>

text \<open>A divisor with a zero low half.\<close>

lemma setup_high:
  assumes "high a \<noteq> 0" "low b = 0" "high b \<noteq> 0" "udivmod_setup a b = Inr st"
  shows "starts a b st"
proof -
  have a: "unat a = unat (high a) * 2 ^ 32 + unat (low a)" by (rule unat_halves)
  have b: "unat b = unat (high b) * 2 ^ 32" using unat_halves [of b] assms by simp
  have pos: "0 < unat (high b)" using assms by (simp add: unat_gt_0)
  consider (zero) "low a = 0" | (pow) "low a \<noteq> 0" "high b AND (high b - 1) = 0"
    | (loop) "low a \<noteq> 0" "high b AND (high b - 1) \<noteq> 0" by blast
  then show ?thesis
  proof cases
    case zero
    then have "st = Ret (ucast (high a div high b)) (all_of (high a mod high b) 0)"
      using assms by (simp add: udivmod_setup_def Let_def)
    then show ?thesis using zero
      by (auto intro!: starts_Ret simp: a b unat_all_of unat_div unat_mod mult_mod_left)
  next
    case pow
    then obtain t where t: "t < 32" "unat (high b) = 2 ^ t" "unat (builtin_ctz (high b)) = t"
      using pow2_nat assms(3) by blast
    have "st = Ret (ucast (drop_bit (unat (builtin_ctz (high b))) (high a))) (all_of (high a AND (high b - 1)) (low a))"
      using assms pow by (simp add: udivmod_setup_def Let_def)
    moreover have "(h * 2 ^ 32 + l) div (2 ^ t * 2 ^ 32) = h div 2 ^ t"
      "(h * 2 ^ 32 + l) mod (2 ^ t * 2 ^ 32) = (h mod 2 ^ t) * 2 ^ 32 + l" if "l < 2 ^ 32" for h l :: nat
      using that by (simp_all add: mult.commute [of "2 ^ t"] div_mult2_eq mod_mult2_eq)
    ultimately show ?thesis using t unat_lt32 [of "low a"]
      by (auto intro!: starts_Ret simp: a b unat_all_of unat_shr unat_and_pow)
  next
    case loop
    let ?sr = "builtin_clz (high b) - builtin_clz (high a)"
    let ?ba = "bitlen (unat (high a))" and ?bb = "bitlen (unat (high b))"
    have st: "st = (if 30 < ?sr then Ret 0 a else go_short (?sr + 1) (high a) (low a))"
      using assms loop by (auto simp: udivmod_setup_def Let_def)
    have two: "2 \<le> ?bb"
    proof (rule ccontr)
      assume "\<not> 2 \<le> ?bb"
      then have "unat (high b) < 2" using bitlen_bounds [OF pos] power_increasing [of ?bb 1 "2 :: nat"] by simp
      then have "unat (high b) = 1" using pos by simp
      then have "high b = 1" by (simp add: word_unat_eq_iff)
      with loop show False by simp
    qed
    show ?thesis
    proof (cases "?bb \<le> ?ba")
      case True
      then have u: "unat ?sr = ?ba - ?bb" using clz_diff(1) assms by blast
      then have sr: "\<not> 30 < ?sr" "unat (?sr + 1) = ?ba - ?bb + 1"
        using bitlen_u32 [of "high a"] two by (auto simp: word_less_nat_alt unat_word_ariths)
      have k: "?ba + 1 = ?bb + (?ba - ?bb + 1)" "31 + ?bb = 32 + ?bb - 1" "32 + ?ba + 1 = 32 + ?bb + (?ba - ?bb + 1)"
        using True by simp_all
      have "starts a b (go_short (?sr + 1) (high a) (low a))"
        using bitlen_u32 [of "high a"] two
        by (intro starts_short [OF sr(2)] near_high [OF assms(1,3) k(1)]
              shift_bound [OF high_bound high_least [OF assms(3), unfolded k(2)] k(3)]) auto
      then show ?thesis unfolding st using sr(1) by simp
    next
      case False
      then have "unat (high a) < unat (high b)" "31 < ?sr"
        using bitlen_less clz_diff(2) assms by simp_all
      then show ?thesis unfolding st using starts_small [OF high_less] by (simp add: word_less_nat_alt)
    qed
  qed
qed


text \<open>A divisor of one word.\<close>

lemma setup_low:
  assumes "high a \<noteq> 0" "high b = 0" "low b \<noteq> 0" "udivmod_setup a b = Inr st"
  shows "starts a b st"
proof -
  have a: "unat a = unat (high a) * 2 ^ 32 + unat (low a)" by (rule unat_halves)
  have b: "unat b = unat (low b)" using high_zero assms by blast
  have pos: "0 < unat (low b)" using assms by (simp add: unat_gt_0)
  show ?thesis
  proof (cases "low b AND (low b - 1) = 0")
    case True
    then obtain t where t: "t < 32" "unat (low b) = 2 ^ t" "unat (builtin_ctz (low b)) = t"
      using pow2_nat assms(3) by blast
    have "(h * 2 ^ 32 + l) mod 2 ^ t = l mod 2 ^ t" for h l :: nat
    proof -
      have "h * 2 ^ 32 = (h * 2 ^ (32 - t)) * 2 ^ t" using t(1) by (simp add: power_add [symmetric])
      then show ?thesis by (simp only: mod_mult_self3)
    qed
    then have rem: "unat (ucast (low a AND (low b - 1)) :: u64) = unat a mod unat b"
      by (simp add: a b t(2) unat_and_pow [OF t(2)])
    show ?thesis
    proof (cases "low b = 1")
      case one: True
      then have "st = Ret a (ucast (low a AND (low b - 1)))"
        using assms by (simp add: udivmod_setup_def Let_def)
      moreover have "unat b = 1" using one b by simp
      ultimately show ?thesis using rem by (auto intro!: starts_Ret)
    next
      case False
      then have "t \<noteq> 0" using t(2) by (auto simp: word_unat_eq_iff)
      have nm: "t + (32 - t) = 32" using t by simp
      have u: "unat (32 - builtin_ctz (low b)) = 32 - t"
        using t by (subst unat_sub) (simp_all add: word_le_nat_alt)
      have "st = Ret (drop_bit t a) (ucast (low a AND (low b - 1)))"
        using assms True False by (simp add: udivmod_setup_def Let_def u t(3) shr_halves [OF nm])
      then show ?thesis using rem by (auto intro!: starts_Ret simp: unat_shr b t(2))
    qed
  next
    case False
    define sr where "sr = 1 + 32 + builtin_clz (low b) - builtin_clz (high a)"
    let ?ba = "bitlen (unat (high a))" and ?bb = "bitlen (unat (low b))"
    have two: "2 \<le> ?bb"
    proof (rule ccontr)
      assume "\<not> 2 \<le> ?bb"
      then have "unat (low b) < 2" using bitlen_bounds [OF pos] power_increasing [of ?bb 1 "2 :: nat"] by simp
      then have "unat (low b) = 1" using pos by simp
      then have "low b = 1" by (simp add: word_unat_eq_iff)
      with False show False by simp
    qed
    have ba: "1 \<le> ?ba" using assms bitlen_pos [of "unat (high a)"] by (simp add: unat_gt_0 Suc_leI)
    have "unat sr = 33 + (32 - ?bb) - (32 - ?ba)"
      using bitlen_u32 [of "high a"] bitlen_u32 [of "low b"]
      unfolding sr_def by (subst unat_sub) (simp_all add: word_le_nat_alt unat_word_ariths unat_clz)
    then have usr: "unat sr = 33 + ?ba - ?bb"
      using bitlen_u32 [of "high a"] bitlen_u32 [of "low b"] by simp
    have "2 ^ (?bb - 1) \<le> unat b" using bitlen_bounds [OF pos] b by simp
    from shift_bound [OF high_bound this, where k = "33 + ?ba - ?bb"]
    have less: "unat a < unat b * 2 ^ unat sr" using two bitlen_u32 [of "low b"] usr by simp
    have b32: "unat b \<le> 2 ^ 63" using b unat_lt32 [of "low b"] by simp
    note facts = usr less b32 ba two bitlen_u32 [of "high a"] bitlen_u32 [of "low b"]
    have st: "st = (if sr = 32 then Go sr (low a) 0 0 (high a)
       else if sr < 32 then go_short sr (high a) (low a)
       else Go sr (push_bit (unat (64 - sr)) (high a) OR drop_bit (unat (sr - 32)) (low a))
                    (push_bit (unat (64 - sr)) (low a)) 0 (drop_bit (unat (sr - 32)) (high a)))"
      using assms False unfolding udivmod_setup_def Let_def sr_def [symmetric] by (simp split: if_splits)
    consider "sr = 32" | "unat sr < 32" | "32 < unat sr"
      by (metis linorder_neqE_nat unat_32 word_unat_eq_iff)
    then show ?thesis
    proof cases
      case 1
      then show ?thesis unfolding st using less b32 by (simp add: starts_32)
    next
      case 2
      then have "starts a b (go_short sr (high a) (low a))"
        using facts by (intro starts_short [OF refl]) (simp_all add: near_def)
      then show ?thesis unfolding st using 2 by (simp add: word_less_nat_alt) auto
    next
      case 3
      then show ?thesis unfolding st using starts_long [of sr "unat sr - 32" a b] facts
        by (auto simp: word_less_nat_alt)
    qed
  qed
qed


text \<open>A divisor with both halves.\<close>

lemma setup_both:
  assumes "high a \<noteq> 0" "high b \<noteq> 0" "low b \<noteq> 0" "udivmod_setup a b = Inr st"
  shows "starts a b st"
proof -
  define sr where "sr = builtin_clz (high b) - builtin_clz (high a)"
  let ?ba = "bitlen (unat (high a))" and ?bb = "bitlen (unat (high b))"
  have bb: "1 \<le> ?bb" using assms bitlen_pos [of "unat (high b)"] by (simp add: unat_gt_0 Suc_leI)
  have st: "st = (if 31 < sr then Ret 0 a
     else if sr + 1 = 32 then Go (sr + 1) (low a) 0 0 (high a) else go_short (sr + 1) (high a) (low a))"
    using assms unfolding udivmod_setup_def Let_def sr_def [symmetric] by (auto split: if_splits)
  show ?thesis
  proof (cases "?bb \<le> ?ba")
    case True
    then have u: "unat sr = ?ba - ?bb" unfolding sr_def using clz_diff(1) assms by blast
    then have sr: "\<not> 31 < sr" "unat (sr + 1) = ?ba - ?bb + 1"
      using bitlen_u32 [of "high a"] bb by (auto simp: word_less_nat_alt unat_word_ariths)
    have k: "?ba + 1 = ?bb + (?ba - ?bb + 1)" "31 + ?bb = 32 + ?bb - 1" "32 + ?ba + 1 = 32 + ?bb + (?ba - ?bb + 1)"
      using True by simp_all
    have less: "unat a < unat b * 2 ^ (?ba - ?bb + 1)"
      by (rule shift_bound [OF high_bound high_least [OF assms(2), unfolded k(2)] k(3)]) simp
    note near = near_high [OF assms(1,2) k(1)]
    show ?thesis
    proof (cases "sr + 1 = 32")
      case 32: True
      then have "?ba = 32" "?bb = 1" using sr(2) bitlen_u32 [of "high a"] bb True by simp_all
      then have "unat b \<le> 2 ^ 63" "unat a < unat b * 2 ^ 32" using high_bound [of b] less by simp_all
      then show ?thesis unfolding st using sr(1) 32 starts_32 by simp
    next
      case False
      then have "?ba - ?bb + 1 \<noteq> 32" using sr(2) by (metis unat_32 word_unat_eq_iff)
      then have "starts a b (go_short (sr + 1) (high a) (low a))"
        using bitlen_u32 [of "high a"] bb less
        by (intro starts_short [OF sr(2)] near) auto
      then show ?thesis unfolding st using sr(1) False by simp
    qed
  next
    case False
    then have "unat (high a) < unat (high b)" "31 < sr"
      using bitlen_less clz_diff(2) assms by (simp_all add: sr_def)
    then show ?thesis unfolding st using starts_small [OF high_less] by simp
  qed
qed

lemma setup_short:
  assumes "high a = 0" "b \<noteq> 0" "udivmod_setup a b = Inr st"
  shows "starts a b st"
proof (cases "high b = 0")
  case True
  have "b \<noteq> 0 \<Longrightarrow> low b \<noteq> 0" using high_zero [OF True] by (metis unat_eq_0)
  then have "st = Ret (ucast (low a div low b)) (ucast (low a mod low b))"
    using assms True by (simp add: udivmod_setup_def Let_def)
  then show ?thesis
    using high_zero [OF True] high_zero [OF assms(1)] by (auto intro!: starts_Ret simp: unat_div unat_mod)
next
  case False
  then have "unat a < unat b" using high_less [of a b] assms(1) by (simp add: unat_gt_0)
  moreover have "st = Ret 0 (ucast (low a))" using assms False by (simp add: udivmod_setup_def Let_def)
  moreover have "ucast (low a) = a" using high_zero [OF assms(1)] by (simp add: word_unat_eq_iff)
  ultimately show ?thesis using starts_small by simp
qed

lemma setup_abort: "udivmod_setup a b = Inl e \<longleftrightarrow> b = 0 \<and> e = ArithTrap"
proof -
  have "b = 0 \<longleftrightarrow> high b = 0 \<and> low b = 0"
    using unat_halves [of b] by (auto simp: unat_eq_0 [symmetric] high_def low_def)
  then show ?thesis by (auto simp: udivmod_setup_def Let_def)
qed

lemma setup_starts: "udivmod_setup a b = Inr st \<Longrightarrow> b \<noteq> 0 \<Longrightarrow> starts a b st"
  using setup_short setup_high setup_low setup_both
  by (metis high_zero unat_eq_zero)

lemma rejoin: "push_bit 1 (drop_bit 1 y) OR of_bool (bit y 0) = y" for y :: u64
proof (rule word64_eqI)
  fix i :: nat assume "i < 64"
  then show "bit (push_bit 1 (drop_bit 1 y) OR of_bool (bit y 0)) i \<longleftrightarrow> bit y i"
    unfolding bit_or_iff bit_push_bit_iff bit_drop_bit_eq bit_of_bool_iff by (cases i) simp_all
qed

lemma udivmoddi4_value: "udivmoddi4 a b = (if b = 0 then Inl ArithTrap else Inr (a div b, a mod b))"
proof (cases "udivmod_setup a b")
  case (Inl e)
  with setup_abort [of a b e] show ?thesis by (simp add: udivmoddi4_def)
next
  case (Inr st)
  then have b: "b \<noteq> 0" using setup_abort [of a b ArithTrap] by auto
  with setup_starts Inr have s: "starts a b st" by blast
  show ?thesis
  proof (cases st)
    case (Ret q r)
    with s b Inr show ?thesis by (simp add: udivmoddi4_def starts_def)
  next
    case (Go sr qh ql rh rl)
    let ?l = "udivmod_loop (unat sr) b (qh, ql, rh, rl, 0)"
    obtain qh' ql' rh' rl' c where l: "?l = (qh', ql', rh', rl', c)" by (cases ?l)
    have "0 < unat b" using b by (simp add: unat_gt_0)
    then have "divides_upto 0 (unat a) (unat b) ?l"
      using s Go unat_lt64 [of a] by (intro loop_divides) (simp_all add: starts_def)
    then have q: "unat (all_of qh' ql') = unat a div unat b div 2" and c: "unat c = unat a div unat b mod 2"
      and r: "unat (all_of rh' rl') = unat a mod unat b" by (simp_all add: l divides_upto_def)
    have "push_bit 1 (all_of qh' ql') OR ucast c = a div b"
    proof -
      have c1: "ucast c = (of_bool (odd (unat a div unat b)) :: u64)"
        using c by (auto simp: word_unat_eq_iff odd_iff_mod_2_eq_one)
      have "all_of qh' ql' = drop_bit 1 (a div b)"
        using q by (simp add: word_unat_eq_iff unat_shr unat_div)
      moreover have "bit (a div b) 0 \<longleftrightarrow> odd (unat a div unat b)"
        by (simp add: bit_0 even_iff_mod_2_eq_zero odd_iff_mod_2_eq_one word_unat_eq_iff unat_mod unat_div)
      ultimately show ?thesis unfolding c1 using rejoin [of "a div b"] by simp
    qed
    moreover have "all_of rh' rl' = a mod b" using r by (simp add: word_unat_eq_iff unat_mod)
    ultimately show ?thesis using b Inr Go l by (simp add: udivmoddi4_def)
  qed
qed


section \<open>Signed division\<close>

text \<open>\<open>(x ^ s) - s\<close> with \<open>s\<close> the sign of the dividend or divisor.\<close>

lemma sign_word: "signed_drop_bit 63 a = (if sint a < 0 then - 1 else 0)" for a :: u64
proof -
  have "sint (signed_drop_bit 63 a) = (if sint a < 0 then - 1 else 0)"
    using sint_ge [of a] sint_lt [of a]
    by (auto simp: sint_signed_drop_bit_eq drop_bit_eq_div zdiv_eq_0_iff intro: div_eq_minus1)
  then show ?thesis by (auto intro!: signed_word_eqI)
qed

lemma cond_negate: "(x XOR (if P then - 1 else 0)) - (if P then - 1 else 0) = (if P then - x else x)" for x :: u64
proof -
  have "x XOR - 1 = - x - 1" using not_eq_complement [of x] by simp
  then have "(x XOR - 1) - (- 1) = - x" by simp
  then show ?thesis by (cases P) (simp_all only: if_True if_False xor.right_neutral diff_zero)
qed

lemma abs_word: "(a XOR signed_drop_bit 63 a) - signed_drop_bit 63 a = of_int \<bar>sint a\<bar>" for a :: u64
  unfolding sign_word cond_negate by (simp add: abs_if)

lemma abs_range: "0 \<le> \<bar>sint a\<bar>" "\<bar>sint a\<bar> < 2 ^ 64" for a :: u64
  using sint_ge [of a] sint_lt [of a] by auto

lemma uint_abs: "uint (of_int \<bar>sint a\<bar> :: u64) = \<bar>sint a\<bar>" for a :: u64
proof -
  have "uint (of_int \<bar>sint a\<bar> :: u64) = take_bit 64 \<bar>sint a\<bar>" by (simp add: uint_word_of_int_eq)
  also have "\<dots> = \<bar>sint a\<bar>" by (rule take_bit_int_eq_self) (rule abs_range)+
  finally show ?thesis .
qed

lemma abs_zero: "(of_int \<bar>sint b\<bar> :: u64) = 0 \<longleftrightarrow> b = 0" for b :: u64
proof -
  have "(of_int \<bar>sint b\<bar> :: u64) = 0 \<longleftrightarrow> \<bar>sint b\<bar> = 0"
    by (metis uint_0_iff uint_abs)
  then show ?thesis by (simp add: signed_eq_0_iff)
qed

lemma abs_div:
  fixes a b :: u64
  shows "(of_int \<bar>sint a\<bar> :: u64) div of_int \<bar>sint b\<bar> = of_int (\<bar>sint a\<bar> div \<bar>sint b\<bar>)"
    "(of_int \<bar>sint a\<bar> :: u64) mod of_int \<bar>sint b\<bar> = of_int (\<bar>sint a\<bar> mod \<bar>sint b\<bar>)"
  unfolding word_div_def word_mod_def uint_abs by simp_all

lemma signs:
  fixes x y :: int
  assumes "y \<noteq> 0"
  shows "(of_int (x sdiv y) :: u64) = (if (x < 0) \<noteq> (y < 0) then - of_int (\<bar>x\<bar> div \<bar>y\<bar>) else of_int (\<bar>x\<bar> div \<bar>y\<bar>))"
    "(of_int (x smod y) :: u64) = (if x < 0 then - of_int (\<bar>x\<bar> mod \<bar>y\<bar>) else of_int (\<bar>x\<bar> mod \<bar>y\<bar>))"
proof -
  have "x sdiv y = (if (x < 0) \<noteq> (y < 0) then - (\<bar>x\<bar> div \<bar>y\<bar>) else \<bar>x\<bar> div \<bar>y\<bar>)"
    using assms by (simp add: signed_divide_int_def sgn_if)
  then show "(of_int (x sdiv y) :: u64) = (if (x < 0) \<noteq> (y < 0) then - of_int (\<bar>x\<bar> div \<bar>y\<bar>) else of_int (\<bar>x\<bar> div \<bar>y\<bar>))"
    by simp
  have "x smod y = (if x < 0 then - (\<bar>x\<bar> mod \<bar>y\<bar>) else \<bar>x\<bar> mod \<bar>y\<bar>)"
    using assms by (simp add: signed_modulo_int_def sgn_if)
  then show "(of_int (x smod y) :: u64) = (if x < 0 then - of_int (\<bar>x\<bar> mod \<bar>y\<bar>) else of_int (\<bar>x\<bar> mod \<bar>y\<bar>))"
    by simp
qed

lemma divdi3_value: "divdi3 a b = (if b = 0 then Inl ArithTrap else Inr (of_int (sint a sdiv sint b)))"
proof -
  have s: "signed_drop_bit 63 a XOR signed_drop_bit 63 b = (if (sint a < 0) \<noteq> (sint b < 0) then - 1 else 0)"
    unfolding sign_word by auto
  have "sint b \<noteq> 0" if "b \<noteq> 0" using that by (simp add: signed_eq_0_iff)
  then show ?thesis
    unfolding divdi3_def Let_def abs_word s udivmoddi4_value abs_zero cond_negate
    by (simp add: abs_div signs)
qed

lemma moddi3_value: "moddi3 a b = (if b = 0 then Inl ArithTrap else Inr (of_int (sint a smod sint b)))"
proof -
  have "sint b \<noteq> 0" if "b \<noteq> 0" using that by (simp add: signed_eq_0_iff)
  then show ?thesis
    unfolding moddi3_def Let_def abs_word udivmoddi4_value abs_zero unfolding sign_word cond_negate
    by (simp add: abs_div signs)
qed

text \<open>C7: the 64 bit division functions trap on a zero divisor and are correct on every other
  pair of operands: unsigned quotient and remainder, and the signed ones rounded to zero, with the
  one overflow \<open>-2 ^ 63 / -1\<close> wrapped.\<close>

theorem division_correct:
  "udivdi3 a b = (if b = 0 then Inl ArithTrap else Inr (a div b))
    \<and> umoddi3 a b = (if b = 0 then Inl ArithTrap else Inr (a mod b))
    \<and> divdi3 a b = (if b = 0 then Inl ArithTrap else Inr (of_int (sint a sdiv sint b)))
    \<and> moddi3 a b = (if b = 0 then Inl ArithTrap else Inr (of_int (sint a smod sint b)))
    \<and> divmoddi4 a b = (if b = 0 then Inl ArithTrap
        else Inr (of_int (sint a sdiv sint b), of_int (sint a smod sint b)))"
proof -
  have "a - of_int (sint a sdiv sint b) * b = of_int (sint a smod sint b)"
  proof -
    have "sint a smod sint b = sint a - sint a sdiv sint b * sint b"
      using sdiv_mult_smod_eq [of "sint a" "sint b"] by simp
    then show ?thesis by simp
  qed
  then show ?thesis
    by (simp add: udivdi3_def umoddi3_def udivmoddi4_value divmoddi4_def divdi3_value moddi3_value)
qed


end
