(* ===== verification/KlibStdio.thy ===== *)
theory KlibStdio imports KlibStdlib "HOL-Library.Signed_Division" begin

text \<open>
  \<open>abstract-machine/klib/src/stdio.c\<close> on the 32 bit target, where \<open>int\<close>, \<open>long\<close> and pointers
  are 32 bit words.  The format string, the strings printed and the output all lie in one memory,
  so an output that runs into its own format is the program's behaviour, too.  The arguments of a
  call are a list of words; to take one more than there are is undefined, here \<open>OutOfBounds\<close>.
\<close>

unbundle bit_operations_syntax

section \<open>The functions\<close>

definition va_arg :: "u32 list \<Rightarrow> abort + u32 \<times> u32 list" where
  "va_arg ap = (case ap of [] \<Rightarrow> Inl OutOfBounds | x # ap \<Rightarrow> Inr (x, ap))"

text \<open>The digits of \<open>%d\<close> and \<open>%x\<close>, the last one first; \<open>buffer\<close> is what the array holds below
  \<open>ptr\<close>.\<close>

function dec_loop :: "int \<Rightarrow> u8 list \<Rightarrow> u8 list" where
  "dec_loop v buffer =
     (let buffer = buffer @ [48 + word_of_int (v smod 10)]; v = v sdiv 10
      in if v > 0 then dec_loop v buffer else buffer)"
  by pat_completeness auto

termination
proof (relation "measure (\<lambda>(v, _). nat v)")
  fix v :: int and b c :: "u8 list" and w
  assume "c = b @ [48 + word_of_int (v smod 10)]" "w = v sdiv 10" "w > 0"
  then show "((w, c), v, b) \<in> measure (\<lambda>(v, _). nat v)"
    by (simp add: signed_divide_int_def sgn_if split: if_splits)
qed simp

declare dec_loop.simps [simp del]

lemma drop_bit_less: "drop_bit 4 v \<noteq> 0 \<Longrightarrow> unat (drop_bit 4 v) < unat v" for v :: u32
proof -
  assume "drop_bit 4 v \<noteq> 0"
  then have "unat v div 16 \<noteq> 0" by (auto simp: drop_bit_eq_div word_unat_eq_iff unat_div)
  moreover have "unat (drop_bit 4 v) = unat v div 16" by (simp add: drop_bit_eq_div unat_div)
  ultimately show ?thesis by simp
qed

function hex_loop :: "u32 \<Rightarrow> u8 \<Rightarrow> u8 list \<Rightarrow> u8 list" where
  "hex_loop v base buffer =
     (let d = v AND 0xf; buffer = buffer @ [if d < 10 then 48 + ucast d else base + ucast d - 10];
          v = drop_bit 4 v
      in if v \<noteq> 0 then hex_loop v base buffer else buffer)"
  by pat_completeness auto

termination
  by (relation "measure (\<lambda>(v, _). unat v)") (simp_all add: drop_bit_less)

declare hex_loop.simps [simp del]

function pad_loop :: "int \<Rightarrow> int \<Rightarrow> u8 \<Rightarrow> u32 \<Rightarrow> mem \<Rightarrow> u32 \<times> mem" where
  "pad_loop len width pad out m =
     (if len < width then pad_loop len (width - 1) pad (out + 1) (m(out := pad)) else (out, m))"
  by pat_completeness auto

termination
  by (relation "measure (\<lambda>(len, width, _). nat (width - len))") auto

declare pad_loop.simps [simp del]

fun emit :: "u8 list \<Rightarrow> u32 \<Rightarrow> mem \<Rightarrow> u32 \<times> mem" where
  "emit [] out m = (out, m)"
| "emit (b # bs) out m = emit bs (out + 1) (m(out := b))"

partial_function (option) str_loop :: "u32 \<Rightarrow> u32 \<Rightarrow> mem \<Rightarrow> (u32 \<times> mem) option" where
  "str_loop s out m = (if m s = 0 then Some (out, m) else str_loop (s + 1) (out + 1) (m(out := m s)))"

definition put_padded :: "u8 list \<Rightarrow> u8 \<Rightarrow> u32 \<Rightarrow> u32 \<Rightarrow> mem \<Rightarrow> u32 \<times> mem" where
  "put_padded buffer pad width out m =
     (let (out, m) = pad_loop (int (length buffer)) (sint width) pad out m in emit (rev buffer) out m)"

text \<open>The \<open>switch\<close> on the conversion character; \<open>long_flag\<close> chooses between \<open>long\<close> and \<open>int\<close>,
  which are the same here.\<close>

definition conversion :: "u8 \<Rightarrow> u8 \<Rightarrow> u32 \<Rightarrow> u32 list \<Rightarrow> u32 \<Rightarrow> mem \<Rightarrow> (abort + u32 \<times> u32 list \<times> mem) option" where
  "conversion c pad width ap out m =
     (if c = 99 then Some (rbind (va_arg ap) (\<lambda>(x, ap). Inr (out + 1, ap, m(out := ucast x))))
      else if c = 115 then
        (case va_arg ap of Inl e \<Rightarrow> Some (Inl e)
         | Inr (s, ap) \<Rightarrow> Option.bind (str_loop s out m) (\<lambda>(out, m). Some (Inr (out, ap, m))))
      else if c = 100 then Some (rbind (va_arg ap) (\<lambda>(value, ap).
        let (value, out, m) = (if sint value < 0 then (- value, out + 1, m(out := 45)) else (value, out, m));
            (out, m) = put_padded (dec_loop (sint value) []) pad width out m
        in Inr (out, ap, m)))
      else if c = 120 \<or> c = 88 then Some (rbind (va_arg ap) (\<lambda>(value, ap).
        let base = (if c = 88 then 65 else 97);
            (out, m) = put_padded (hex_loop value base []) pad width out m
        in Inr (out, ap, m)))
      else if c = 37 then Some (Inr (out + 1, ap, m(out := 37)))
      else Some (Inl (Panic ''Not implemented'')))"

partial_function (option) width_loop :: "mem \<Rightarrow> u32 \<Rightarrow> u32 \<Rightarrow> (u32 \<times> u32) option" where
  "width_loop m fmt width =
     (if 48 \<le> m fmt \<and> m fmt \<le> 57 then width_loop m (fmt + 1) (width * 10 + (ucast (m fmt) - 48))
      else Some (width, fmt))"

partial_function (option) vsprintf_loop :: "u32 \<Rightarrow> u32 list \<Rightarrow> u32 \<Rightarrow> mem \<Rightarrow> (abort + u32 \<times> mem) option" where
  "vsprintf_loop fmt ap out m =
     (if m fmt = 0 then Some (Inr (out, m(out := 0)))
      else if m fmt = 37 then
        (let fmt = fmt + 1;
             (pad, fmt) = (if m fmt = 48 then (48, fmt + 1) else (32, fmt));
             (long_flag, fmt) = (if m fmt = 108 then (1, fmt + 1) else (0 :: u32, fmt))
         in Option.bind (width_loop m fmt 0) (\<lambda>(width, fmt).
            Option.bind (conversion (m fmt) pad width ap out m) (\<lambda>r.
              case r of Inl e \<Rightarrow> Some (Inl e) | Inr (out, ap, m) \<Rightarrow> vsprintf_loop (fmt + 1) ap out m)))
      else vsprintf_loop (fmt + 1) ap (out + 1) (m(out := m fmt)))"

definition vsprintf :: "u32 \<Rightarrow> u32 \<Rightarrow> u32 list \<Rightarrow> mem \<Rightarrow> (abort + u32 \<times> mem) option" where
  "vsprintf out fmt ap m =
     Option.bind (vsprintf_loop fmt ap out m) (\<lambda>r. Some (rbind r (\<lambda>(end, m). Inr (end - out, m))))"

definition sprintf :: "u32 \<Rightarrow> u32 \<Rightarrow> u32 list \<Rightarrow> mem \<Rightarrow> (abort + u32 \<times> mem) option" where
  "sprintf out fmt ap m = vsprintf out fmt ap m"

partial_function (option) putch_loop :: "u32 \<Rightarrow> mem \<Rightarrow> u8 list option" where
  "putch_loop p m = (if m p = 0 then Some [] else Option.bind (putch_loop (p + 1) m) (\<lambda>cs. Some (m p # cs)))"

text \<open>\<open>printf\<close> with its array \<open>out\<close> of 128 bytes at a given address, and what it sends to \<open>putch\<close>.
  To write behind the array is \<open>OutOfBounds\<close>.\<close>

definition printf :: "u32 \<Rightarrow> u32 \<Rightarrow> u32 list \<Rightarrow> mem \<Rightarrow> (abort + u32 \<times> u8 list \<times> mem) option" where
  "printf out fmt ap m =
     Option.bind (vsprintf out fmt ap m) (\<lambda>r. case r of Inl e \<Rightarrow> Some (Inl e)
     | Inr (ret, m) \<Rightarrow>
         if 128 \<le> ret then Some (Inl OutOfBounds)
         else Option.bind (putch_loop out m) (\<lambda>cs. Some (Inr (ret, cs, m))))"

definition snprintf :: "u32 \<Rightarrow> u32 \<Rightarrow> u32 \<Rightarrow> u32 list \<Rightarrow> mem \<Rightarrow> abort + u32 \<times> mem" where
  "snprintf out n fmt ap m = Inl (Panic ''Not implemented'')"

definition vsnprintf :: "u32 \<Rightarrow> u32 \<Rightarrow> u32 \<Rightarrow> u32 list \<Rightarrow> mem \<Rightarrow> abort + u32 \<times> mem" where
  "vsnprintf out n fmt ap m = Inl (Panic ''Not implemented'')"

section \<open>The text of a format\<close>

text \<open>What the loop writes, for strings known by their addresses: the text as far as it goes, and
  why it stops if it does.  Decimal numbers are given by \<open>show_nat\<close>, but for the one without a
  negation, whose only digit is \<open>'0' - 8\<close>.\<close>

definition padded :: "u8 list \<Rightarrow> u8 \<Rightarrow> u32 \<Rightarrow> u8 list" where
  "padded ds pad width = replicate (nat (sint width - int (length ds))) pad @ ds"

definition decimal :: "u32 \<Rightarrow> u8 list" where
  "decimal x = (if x = 0x80000000 then [40] else map of_char (show_nat (nat \<bar>sint x\<bar>)))"

definition hex_digit :: "u8 \<Rightarrow> nat \<Rightarrow> u8" where
  "hex_digit base d = (if d < 10 then 48 + of_nat d else base + of_nat d - 10)"

fun hexadecimal :: "u8 \<Rightarrow> nat \<Rightarrow> u8 list" where
  "hexadecimal base n = (if n < 16 then [] else hexadecimal base (n div 16)) @ [hex_digit base (n mod 16)]"

declare hexadecimal.simps [simp del]

definition converted :: "(u32 \<Rightarrow> u8 list option) \<Rightarrow> u8 \<Rightarrow> u8 \<Rightarrow> u32 \<Rightarrow> u32 list \<Rightarrow> abort + u8 list \<times> u32 list" where
  "converted strs c pad width ap =
     (if c = 37 then Inr ([37], ap)
      else if c \<in> {99, 115, 100, 120, 88} then
        (case ap of [] \<Rightarrow> Inl OutOfBounds | x # ap \<Rightarrow>
           if c = 99 then Inr ([ucast x], ap)
           else if c = 115 then (case strs x of None \<Rightarrow> Inl OutOfBounds | Some cs \<Rightarrow> Inr (cs, ap))
           else if c = 100 then Inr ((if sint x < 0 then [45] else []) @ padded (decimal x) pad width, ap)
           else Inr (padded (hexadecimal (if c = 88 then 65 else 97) (unat x)) pad width, ap))
      else Inl (Panic ''Not implemented''))"

definition peek :: "u8 list \<Rightarrow> u8" where
  "peek bs = (case bs of [] \<Rightarrow> 0 | b # _ \<Rightarrow> b)"

fun width_of :: "u8 list \<Rightarrow> u32 \<Rightarrow> u32 \<times> u8 list" where
  "width_of [] w = (w, [])"
| "width_of (b # bs) w = (if 48 \<le> b \<and> b \<le> 57 then width_of bs (w * 10 + (ucast b - 48)) else (w, b # bs))"

definition directive :: "u8 list \<Rightarrow> u8 \<times> u32 \<times> u8 list" where
  "directive bs =
     (let (pad, bs) = (if peek bs = 48 then (48, tl bs) else (32, bs));
          bs = (if peek bs = 108 then tl bs else bs);
          (w, bs) = width_of bs 0
      in (pad, w, bs))"

lemma length_width_of: "width_of bs w = (v, cs) \<Longrightarrow> length cs \<le> length bs"
  by (induction bs w rule: width_of.induct) (auto split: if_splits)

lemma length_directive: "directive bs = (pad, w, cs) \<Longrightarrow> length cs \<le> length bs"
  by (auto simp: directive_def Let_def dest!: length_width_of split: prod.splits if_splits)

function formatted :: "(u32 \<Rightarrow> u8 list option) \<Rightarrow> u8 list \<Rightarrow> u32 list \<Rightarrow> u8 list \<times> abort option" where
  "formatted strs fs ap =
     (case fs of [] \<Rightarrow> ([], None)
      | f # fs \<Rightarrow>
          if f = 37 then
            (let (pad, w, bs) = directive fs in
             case converted strs (peek bs) pad w ap of
               Inl e \<Rightarrow> ([], Some e)
             | Inr (out, ap) \<Rightarrow> (let (r, e) = formatted strs (tl bs) ap in (out @ r, e)))
          else (let (r, e) = formatted strs fs ap in (f # r, e)))"
  by pat_completeness auto

termination
  by (relation "measure (\<lambda>(_, fs, _). length fs)") (auto dest!: length_directive [OF sym])

declare formatted.simps [simp del]

lemma formatted_Nil: "formatted strs [] ap = ([], None)"
  by (simp add: formatted.simps [of strs "[]"])

lemma formatted_Cons: "formatted strs (f # fs) ap =
    (if f = 37 then
       (let (pad, w, bs) = directive fs in
        case converted strs (peek bs) pad w ap of
          Inl e \<Rightarrow> ([], Some e)
        | Inr (out, ap) \<Rightarrow> (let (r, e) = formatted strs (tl bs) ap in (out @ r, e)))
     else (let (r, e) = formatted strs fs ap in (f # r, e)))"
  by (simp add: formatted.simps [of strs "f # fs"])


section \<open>What the loops write\<close>

lemma emit_append: "emit (bs @ cs) out m = (let (out, m) = emit bs out m in emit cs out m)"
  by (induction bs arbitrary: out m) auto

lemma fst_emit [simp]: "fst (emit bs out m) = out + of_nat (length bs)"
  by (induction bs arbitrary: out m) (auto simp: add.assoc)

lemma pad_loop_emit: "pad_loop len width pad out m = emit (replicate (nat (width - len)) pad) out m"
proof (induction "nat (width - len)" arbitrary: width out m)
  case 0
  then show ?case by (subst pad_loop.simps) simp
next
  case (Suc n)
  then have n: "n = nat (width - 1 - len)" "nat (width - len) = Suc n" by simp_all
  then show ?case using Suc(1) [OF n(1)] by (subst pad_loop.simps) simp
qed

lemma put_padded_emit: "put_padded buffer pad w out m = emit (padded (rev buffer) pad w) out m"
  by (simp add: put_padded_def padded_def pad_loop_emit emit_append)

lemma of_char_digit: "d < 10 \<Longrightarrow> (of_char (digit_char d) :: u8) = 48 + of_nat d"
  by (metis of_char_digit_char of_nat_add of_nat_numeral of_nat_of_char)

lemma dec_loop_digits: "0 \<le> v \<Longrightarrow> rev (dec_loop v b) = map of_char (show_nat (nat v)) @ rev b"
proof (induction v b rule: dec_loop.induct)
  case (1 v b)
  have d: "v sdiv 10 = v div 10" "v smod 10 = v mod 10" "v mod 10 = int (nat v mod 10)" "nat (v div 10) = nat v div 10"
    using 1(2) by (simp_all add: signed_divide_int_def signed_modulo_int_def sgn_if nat_div_distrib zmod_int)
  have m: "(of_char (digit_char (nat v mod 10)) :: u8) = 48 + word_of_int (v mod 10)"
    using of_char_digit [of "nat v mod 10"] unfolding d(3) by simp
  show ?case
  proof (cases "v < 10")
    case True
    then show ?thesis using 1(2) m d
      by (subst dec_loop.simps, subst show_nat.simps) (simp add: Let_def)
  next
    case False
    then have g: "v sdiv 10 > 0" unfolding d(1) by (simp add: pos_imp_zdiv_pos_iff)
    have "rev (dec_loop (v sdiv 10) (b @ [48 + word_of_int (v smod 10)]))
        = map of_char (show_nat (nat v div 10)) @ rev (b @ [48 + word_of_int (v smod 10)])"
      using 1(1) [OF refl refl g] g d(4) by (simp add: d(1))
    then show ?thesis using False g m d(2)
      by (subst dec_loop.simps, subst show_nat.simps) (simp add: Let_def)
  qed
qed

lemma dec_loop_decimal:
  "rev (dec_loop (sint (if sint x < 0 then - x else x)) []) = decimal x"
proof (cases "x = 0x80000000")
  case True
  have "dec_loop (- 2147483648) [] = [40]" by (subst dec_loop.simps) (simp add: signed_divide_int_def signed_modulo_int_def)
  with True show ?thesis by (simp add: decimal_def)
next
  case False
  have r: "- 2147483648 \<le> sint x" "sint x < 2147483648" using sint_ge [of x] sint_less [of x] by simp_all
  have "sint x \<noteq> - 2147483648"
  proof
    assume "sint x = - 2147483648"
    then have "(word_of_int (sint x) :: u32) = word_of_int (- 2147483648)" by simp
    with False show False by simp
  qed
  then have "sint (if sint x < 0 then - x else x) = \<bar>sint x\<bar>"
    using r by (auto simp: sint_word_ariths signed_take_bit_int_eq_self)
  with False show ?thesis by (simp add: decimal_def dec_loop_digits)
qed

lemma hex_loop_digits: "rev (hex_loop v base b) = hexadecimal base (unat v) @ rev b"
proof (induction v base b rule: hex_loop.induct)
  case (1 v base b)
  have m: "(15 :: u32) = mask 4" by (simp add: mask_eq_exp_minus_1)
  have d: "unat (v AND 15) = unat v mod 16" unfolding m unat_and_mask by simp
  have q: "unat (drop_bit 4 v) = unat v div 16" by (simp add: drop_bit_eq_div unat_div)
  have c: "(if v AND 15 < 10 then 48 + ucast (v AND 15) else base + ucast (v AND 15) - 10) = hex_digit base (unat v mod 16)"
  proof -
    have "v AND 15 < 10 \<longleftrightarrow> unat v mod 16 < 10" by (simp add: word_less_nat_alt d)
    moreover have "(ucast (v AND 15) :: u8) = of_nat (unat v mod 16)" by (metis d of_nat_unat)
    ultimately show ?thesis by (simp add: hex_digit_def)
  qed
  show ?case
  proof (cases "drop_bit 4 v = 0")
    case True
    then have "unat v < 16" using q by (simp add: div_eq_0_iff)
    with True c show ?thesis by (subst hex_loop.simps, subst hexadecimal.simps) (simp add: Let_def)
  next
    case False
    then have "\<not> unat v < 16" using q by (auto simp: word_unat_eq_iff)
    with False c 1 [OF refl refl refl False] q show ?thesis
      by (subst hex_loop.simps, subst hexadecimal.simps) (simp add: Let_def)
  qed
qed

text \<open>Addresses of two blocks that have none in common.\<close>

definition apart :: "u32 \<Rightarrow> nat \<Rightarrow> u32 \<Rightarrow> nat \<Rightarrow> bool" where
  "apart a k b l \<longleftrightarrow> (\<forall>i < k. \<forall>j < l. a + of_nat i \<noteq> b + of_nat j)"

lemma apart_left: "apart a (n + k) b l \<Longrightarrow> apart (a + of_nat n) k b l"
  by (auto simp: apart_def add.assoc of_nat_add [symmetric] simp del: of_nat_add)

lemma apart_right: "apart a k b (n + l) \<Longrightarrow> apart a k (b + of_nat n) l"
  by (auto simp: apart_def add.assoc of_nat_add [symmetric] simp del: of_nat_add)

lemma apart_mono: "apart a k b l \<Longrightarrow> k' \<le> k \<Longrightarrow> l' \<le> l \<Longrightarrow> apart a k' b l'"
  by (simp add: apart_def)

lemma apart_intervals:
  assumes "unat a + k \<le> unat b" "unat b + l \<le> 4294967296"
  shows "apart a k b l" "apart b l a k"
proof -
  have "unat (a + of_nat i) = unat a + i" if "i < k" for i using that assms by (intro unat_add_offset) linarith
  moreover have "unat (b + of_nat j) = unat b + j" if "j < l" for j using that assms by (intro unat_add_offset) linarith
  ultimately have "unat (a + of_nat i) \<noteq> unat (b + of_nat j)" if "i < k" "j < l" for i j using that assms by simp
  then show "apart a k b l" "apart b l a k" unfolding apart_def by metis+
qed

lemma apart_Suc:
  assumes "apart a k b (Suc l)"
  shows "apart a k (b + 1) l \<and> (\<forall>i < k. a + of_nat i \<noteq> b)"
proof -
  have "\<forall>i < k. a + of_nat i \<noteq> b + of_nat 0" using assms zero_less_Suc [of l] unfolding apart_def by blast
  with apart_right [of a k b 1 l] assms show ?thesis by simp
qed

lemma emit_outside: "apart a k out (length bs) \<Longrightarrow> i < k \<Longrightarrow> snd (emit bs out m) (a + of_nat i) = m (a + of_nat i)"
  by (induction bs arbitrary: out m) (auto dest: apart_Suc)

lemma cstr_emit: "cstr m s cs \<Longrightarrow> apart s (Suc (length cs)) out (length bs) \<Longrightarrow> cstr (snd (emit bs out m)) s cs"
  using emit_outside [of s "Suc (length cs)" out bs] by (simp add: cstr_nth less_Suc_eq)

lemma str_loop_emit:
  "cstr m s cs \<Longrightarrow> apart s (Suc (length cs)) out (length cs) \<Longrightarrow> str_loop s out m = Some (emit cs out m)"
proof (induction cs arbitrary: s out m)
  case Nil
  then show ?case by (subst str_loop.simps) simp
next
  case (Cons c cs)
  have "apart s (Suc (Suc (length cs))) (out + 1) (length cs)" and n: "\<And>i. i < Suc (Suc (length cs)) \<Longrightarrow> s + of_nat i \<noteq> out"
    using apart_Suc [of s _ out "length cs"] Cons.prems(2) by auto
  then have a: "apart (s + 1) (Suc (length cs)) (out + 1) (length cs)"
    using apart_left [of s 1 "Suc (length cs)"] by simp
  have "cstr (m(out := c)) (s + 1) cs"
  proof -
    have "s + 1 + of_nat i \<noteq> out" if "i \<le> length cs" for i
      using n [of "Suc i"] that by (simp add: add.assoc)
    moreover have "cstr m (s + 1) cs" using Cons.prems(1) by simp
    ultimately show ?thesis by (simp add: cstr_nth)
  qed
  note IH = Cons.IH [OF this a]
  show ?case using Cons.prems(1) IH by (subst str_loop.simps) (simp del: fun_upd_apply)
qed


section \<open>The text of a format is what is written\<close>

lemma cstr_peek: "cstr m a bs \<Longrightarrow> m a = peek bs"
  by (cases bs) (simp_all add: peek_def)

lemma cstr_tl: "cstr m a bs \<Longrightarrow> peek bs \<noteq> 0 \<Longrightarrow> cstr m (a + 1) (tl bs) \<and> length bs = Suc (length (tl bs))"
  by (cases bs) (simp_all add: peek_def)

lemma width_loop_width_of:
  "cstr m a bs \<Longrightarrow> width_of bs w = (v, cs)
    \<Longrightarrow> width_loop m a w = Some (v, a + of_nat (length bs - length cs)) \<and> cstr m (a + of_nat (length bs - length cs)) cs"
proof (induction bs w arbitrary: a rule: width_of.induct)
  case (1 w)
  then show ?case by (subst width_loop.simps) simp
next
  case (2 b bs w)
  show ?case
  proof (cases "48 \<le> b \<and> b \<le> 57")
    case True
    have l: "length cs \<le> length bs" using 2(3) True length_width_of by simp
    from 2(1) [OF True, of "a + 1"] 2(2,3) True l show ?thesis
      by (subst width_loop.simps) (simp add: Suc_diff_le add.assoc)
  next
    case False
    with 2(2,3) show ?thesis by (subst width_loop.simps) auto
  qed
qed

lemma directive_code:
  assumes "cstr m a bs" "directive bs = (pad, w, cs)"
  shows "\<exists>k. (let (pad, fmt) = (if m a = 48 then (48, a + 1) else (32, a));
             (long_flag, fmt) = (if m fmt = 108 then (1, fmt + 1) else (0 :: u32, fmt))
         in Option.bind (width_loop m fmt 0) (\<lambda>(width, fmt). F pad width fmt)) = F pad w (a + of_nat k)
    \<and> cstr m (a + of_nat k) cs \<and> k + length cs = length bs"
proof -
  define p where "p = (if peek bs = 48 then 1 else 0 :: nat)"
  define bs1 where "bs1 = drop p bs"
  define q where "q = (if peek bs1 = 108 then 1 else 0 :: nat)"
  define bs2 where "bs2 = drop q bs1"
  have a1: "cstr m (a + of_nat p) bs1" "length bs = p + length bs1"
    using assms(1) cstr_tl [OF assms(1)] by (auto simp: p_def bs1_def drop_Suc)
  have a2: "cstr m (a + of_nat p + of_nat q) bs2" "length bs1 = q + length bs2"
    using a1(1) cstr_tl [OF a1(1)] by (auto simp: q_def bs2_def drop_Suc)
  have w: "width_of bs2 0 = (w, cs)" "pad = (if peek bs = 48 then 48 else 32)"
    using assms(2) by (auto simp: directive_def p_def q_def bs1_def bs2_def drop_Suc Let_def split: prod.splits if_splits)
  let ?k = "p + q + (length bs2 - length cs)"
  have l: "width_loop m (a + of_nat p + of_nat q) 0 = Some (w, a + of_nat ?k)" "cstr m (a + of_nat ?k) cs"
    using width_loop_width_of [OF a2(1) w(1)] by (simp_all add: add.assoc)
  have "?k + length cs = length bs" using a1(2) a2(2) length_width_of [OF w(1)] by simp
  moreover have "m a = peek bs" "m (a + of_nat p) = peek bs1" using assms(1) a1(1) cstr_peek by simp_all
  ultimately show ?thesis using l w(2)
    by (intro exI [of _ ?k]) (simp add: p_def q_def split: if_splits)
qed

lemma conversion_converted:
  assumes "\<And>s cs. strs s = Some cs \<Longrightarrow> cstr m s cs \<and> apart s (Suc (length cs)) out n"
    and "converted strs c pad w ap \<noteq> Inl OutOfBounds"
    and "\<And>bs ap'. converted strs c pad w ap = Inr (bs, ap') \<Longrightarrow> length bs \<le> n"
  shows "conversion c pad w ap out m = Some (case converted strs c pad w ap of Inl e \<Rightarrow> Inl e
    | Inr (bs, ap) \<Rightarrow> Inr (out + of_nat (length bs), ap, snd (emit bs out m)))"
proof -
  consider "c = 99" | "c = 115" | "c = 100" | "c = 120 \<or> c = 88" | "c = 37" | "c \<notin> {99, 115, 100, 120, 88, 37}" by auto
  then show ?thesis
  proof cases
    case 2
    obtain s ap1 where ap: "ap = s # ap1" using assms(2) 2 by (cases ap) (auto simp: converted_def)
    obtain cs where cs: "strs s = Some cs" using assms(2) 2 ap by (cases "strs s") (auto simp: converted_def)
    have "converted strs c pad w ap = Inr (cs, ap1)" using 2 ap cs by (simp add: converted_def)
    with assms(1) [OF cs] assms(3) have "str_loop s out m = Some (emit cs out m)"
      by (intro str_loop_emit) (auto elim: apart_mono)
    with 2 ap cs show ?thesis by (simp add: conversion_def converted_def va_arg_def split: prod.splits) (metis fst_conv fst_emit)
  next
    case 3
    obtain x ap1 where ap: "ap = x # ap1" using assms(2) 3 by (cases ap) (auto simp: converted_def)
    have "rev (dec_loop (sint (if sint x < 0 then - x else x)) []) = decimal x" by (rule dec_loop_decimal)
    then show ?thesis using 3 ap
      by (auto simp: conversion_def converted_def va_arg_def put_padded_emit add.assoc prod_eq_iff Let_def split: prod.splits)
  next
    case 4
    obtain x ap1 where ap: "ap = x # ap1" using assms(2) 4 by (cases ap) (auto simp: converted_def)
    show ?thesis using 4 ap
      by (auto simp: conversion_def converted_def va_arg_def put_padded_emit hex_loop_digits prod_eq_iff split: prod.splits)
  qed (auto simp: conversion_def converted_def va_arg_def split: list.splits)
qed


definition known :: "(u32 \<Rightarrow> u8 list option) \<Rightarrow> mem \<Rightarrow> u32 \<Rightarrow> nat \<Rightarrow> bool" where
  "known strs m out n \<longleftrightarrow> (\<forall>s cs. strs s = Some cs \<longrightarrow> cstr m s cs \<and> apart s (Suc (length cs)) out n)"

lemma known_emit:
  assumes "known strs m out (length bs + n)"
  shows "known strs (snd (emit bs out m)) (out + of_nat (length bs)) n"
  using assms apart_right [of _ _ out "length bs" n] cstr_emit [of m _ _ out bs]
  unfolding known_def by (meson apart_mono le_add1 order_refl)

lemma step_literal:
  assumes "m fmt = f" "f \<noteq> 0" "f \<noteq> 37"
  shows "vsprintf_loop fmt ap out m = vsprintf_loop (fmt + 1) ap (out + 1) (m(out := f))"
  using assms by (subst vsprintf_loop.simps) (simp only: if_False)

lemma step_directive:
  assumes "cstr m (fmt + 1) gs" "m fmt = 37" "directive gs = (pad, w, bs)"
  shows "\<exists>k. vsprintf_loop fmt ap out m = Option.bind (conversion (peek bs) pad w ap out m) (\<lambda>r.
              case r of Inl e \<Rightarrow> Some (Inl e) | Inr (out, ap, m) \<Rightarrow> vsprintf_loop (fmt + 1 + of_nat k + 1) ap out m)
    \<and> cstr m (fmt + 1 + of_nat k) bs \<and> k + length bs = length gs"
proof -
  define F where "F = (\<lambda>pad width fmt. Option.bind (conversion (m fmt) pad width ap out m) (\<lambda>r.
              case r of Inl e \<Rightarrow> Some (Inl e) | Inr (out, ap, m) \<Rightarrow> vsprintf_loop (fmt + 1) ap out m))"
  have n: "((37 :: u8) = 0) = False" by simp
  have e: "vsprintf_loop fmt ap out m =
        (let (pad, fmt) = (if m (fmt + 1) = 48 then (48, fmt + 1 + 1) else (32, fmt + 1));
             (long_flag, fmt) = (if m fmt = 108 then (1, fmt + 1) else (0 :: u32, fmt))
         in Option.bind (width_loop m fmt 0) (\<lambda>(width, fmt). F pad width fmt))"
    unfolding F_def by (subst vsprintf_loop.simps) (simp only: n assms(2) if_True if_False refl Let_def [of "fmt + 1"])
  obtain k where k: "vsprintf_loop fmt ap out m = F pad w (fmt + 1 + of_nat k)"
    "cstr m (fmt + 1 + of_nat k) bs" "k + length bs = length gs"
    using directive_code [OF assms(1,3), of F, folded e] by (elim exE conjE) (rule that)
  from k(1) have "vsprintf_loop fmt ap out m = Option.bind (conversion (peek bs) pad w ap out m) (\<lambda>r.
              case r of Inl e \<Rightarrow> Some (Inl e) | Inr (out, ap, m) \<Rightarrow> vsprintf_loop (fmt + 1 + of_nat k + 1) ap out m)"
    by (simp only: F_def cstr_peek [OF k(2)])
  with k(2,3) show ?thesis by blast
qed


definition result :: "u8 list \<Rightarrow> abort option \<Rightarrow> u32 \<Rightarrow> mem \<Rightarrow> (abort + u32 \<times> mem) option" where
  "result r e out m = Some (case e of Some x \<Rightarrow> Inl x
     | None \<Rightarrow> Inr (out + of_nat (length r), (snd (emit r out m))(out + of_nat (length r) := 0)))"

lemma result_append:
  "result (cs @ r) e out m = result r e (out + of_nat (length cs)) (snd (emit cs out m))"
  by (cases e) (simp_all add: result_def emit_append case_prod_beta add.assoc)

lemma vsprintf_loop_formatted:
  "formatted strs fs ap = (r, e) \<Longrightarrow> e \<noteq> Some OutOfBounds \<Longrightarrow> cstr m fmt fs
    \<Longrightarrow> apart fmt (Suc (length fs)) out (length r) \<Longrightarrow> known strs m out (length r)
    \<Longrightarrow> vsprintf_loop fmt ap out m = result r e out m"
proof (induction fs arbitrary: ap r e fmt out m rule: length_induct)
  case (1 fs)
  note IH = 1(1) [rule_format] and hyps = 1(2-6)
  show ?case
  proof (cases fs)
    case Nil
    with hyps have "r = []" "e = None" by (auto simp: formatted_Nil)
    with Nil hyps(3) show ?thesis by (subst vsprintf_loop.simps) (simp add: result_def)
  next
    case (Cons f gs)
    have g: "cstr m (fmt + 1) gs" "m fmt = f" "f \<noteq> 0" using hyps(3) Cons by simp_all
    show ?thesis
    proof (cases "f = 37")
      case False
      have af: "apart (fmt + 1) (Suc (length gs)) out (length r)"
        using hyps(4) apart_left [of fmt 1 "Suc (length gs)"] Cons by simp
      obtain r1 where r: "formatted strs gs ap = (r1, e)" "r = [f] @ r1"
        using hyps(1) Cons False by (auto simp: formatted_Cons split: prod.splits)
      define m1 where "m1 = snd (emit [f] out m)"
      have "cstr m1 (fmt + 1) gs" unfolding m1_def using af r(2) by (intro cstr_emit g(1)) (auto elim: apart_mono)
      moreover have "apart (fmt + 1) (Suc (length gs)) (out + 1) (length r1)"
        using af r(2) apart_right [of _ _ out 1 "length r1"] by simp
      moreover have "known strs m1 (out + 1) (length r1)"
        unfolding m1_def using known_emit [of strs m out "[f]" "length r1"] hyps(5) r(2) by simp
      moreover have "length gs < length fs" using Cons by simp
      ultimately have "vsprintf_loop (fmt + 1) ap (out + 1) m1 = result r1 e (out + 1) m1"
        using r(1) hyps(2) by (intro IH)
      moreover have "m1 = m(out := f)" "result r e out m = result r1 e (out + 1) m1"
        unfolding r(2) result_append by (simp_all add: m1_def)
      ultimately show ?thesis using step_literal [of m fmt f, OF g(2,3) False] by simp
    next
      case True
      obtain pad w bs where d: "directive gs = (pad, w, bs)" by (metis prod_cases3)
      let ?c = "converted strs (peek bs) pad w ap"
      have m: "m fmt = 37" using g(2) True by simp
      from step_directive [of m fmt gs, OF g(1) m d, of ap out] obtain k where
        k: "vsprintf_loop fmt ap out m = Option.bind (conversion (peek bs) pad w ap out m) (\<lambda>r. case r of Inl e \<Rightarrow> Some (Inl e)
              | Inr (out, ap, m) \<Rightarrow> vsprintf_loop (fmt + 1 + of_nat k + 1) ap out m)"
        and b: "cstr m (fmt + 1 + of_nat k) bs" "k + length bs = length gs"
        by (elim exE conjE) (rule that)
      have fm: "formatted strs fs ap = (case ?c of Inl e \<Rightarrow> ([], Some e)
             | Inr (out, ap) \<Rightarrow> (let (r, e) = formatted strs (tl bs) ap in (out @ r, e)))"
        using Cons True d by (simp add: formatted_Cons)
      have c: "conversion (peek bs) pad w ap out m = Some (case ?c of Inl e \<Rightarrow> Inl e
          | Inr (bs, ap) \<Rightarrow> Inr (out + of_nat (length bs), ap, snd (emit bs out m)))"
      proof (rule conversion_converted)
        show "strs s = Some cs \<Longrightarrow> cstr m s cs \<and> apart s (Suc (length cs)) out (length r)" for s cs
          using hyps(5) by (simp add: known_def)
        show "?c \<noteq> Inl OutOfBounds" using fm hyps(1,2) by auto
        show "?c = Inr (bs', ap') \<Longrightarrow> length bs' \<le> length r" for bs' ap'
          using fm hyps(1) by (auto split: prod.splits)
      qed
      show ?thesis
      proof (cases ?c)
        case (Inl x)
        then have "r = []" "e = Some x" using fm hyps(1) by simp_all
        then show ?thesis using k c Inl by (simp add: result_def)
      next
        case (Inr p)
        obtain cs ap1 where "p = (cs, ap1)" by (cases p)
        with Inr have p: "?c = Inr (cs, ap1)" by simp
        obtain r1 where r: "formatted strs (tl bs) ap1 = (r1, e)" "r = cs @ r1"
          using fm p hyps(1) by (auto split: prod.splits)
        have nz: "peek bs \<noteq> 0" using p by (auto simp: converted_def)
        define f1 where "f1 = fmt + 1 + of_nat k + 1"
        define m1 where "m1 = snd (emit cs out m)"
        define o1 where "o1 = out + of_nat (length cs)"
        have t: "cstr m f1 (tl bs)" "length bs = Suc (length (tl bs))"
          using cstr_tl [OF b(1) nz] by (simp_all add: f1_def)
        have "length fs = Suc (Suc (k + length (tl bs)))" using Cons t(2) b(2) by simp
        moreover have f1: "f1 = fmt + of_nat (Suc (Suc k))" by (simp add: f1_def)
        ultimately have "apart fmt (Suc (Suc k) + Suc (length (tl bs))) out (length cs + length r1)"
          using hyps(4) r(2) by simp
        then have a: "apart f1 (Suc (length (tl bs))) out (length cs + length r1)"
          unfolding f1 by (rule apart_left)
        have "cstr m1 f1 (tl bs)" unfolding m1_def by (rule cstr_emit [OF t(1) apart_mono [OF a]]) simp_all
        moreover have "apart f1 (Suc (length (tl bs))) o1 (length r1)" unfolding o1_def by (rule apart_right [OF a])
        moreover have "known strs m1 o1 (length r1)"
          unfolding m1_def o1_def by (rule known_emit) (use hyps(5) r(2) in simp)
        moreover have "length (tl bs) < length fs" using t(2) b(2) Cons by simp
        ultimately have "vsprintf_loop f1 ap1 o1 m1 = result r1 e o1 m1"
          using r(1) hyps(2) by (intro IH)
        moreover have "vsprintf_loop fmt ap out m = vsprintf_loop f1 ap1 o1 m1"
          unfolding k c p f1_def o1_def m1_def by simp
        moreover have "result r e out m = result r1 e o1 m1" unfolding r(2) result_append o1_def m1_def ..
        ultimately show ?thesis by simp
      qed
    qed
  qed
qed

lemma bytes_at_step:
  assumes "length bs < 4294967296"
  shows "bytes_at (out + 1) bs (m(out := b)) = bytes_at out (b # bs) m"
proof
  fix a :: u32
  have "a - out = 0 \<longleftrightarrow> a = out" by simp
  moreover have "unat (a - (out + 1)) = unat (a - out) - 1" if "a \<noteq> out"
    using that unat_minus_one [of "a - out"] by (simp add: diff_diff_add)
  moreover have "unat (a - out) \<noteq> 0" if "a \<noteq> out" using that by (simp add: unat_eq_zero)
  moreover have "unat (a - (out + 1)) = 4294967295" if "a = out" using that by (simp add: unsigned_minus_1_eq_mask mask_eq_exp_minus_1)
  ultimately show "bytes_at (out + 1) bs (m(out := b)) a = bytes_at out (b # bs) m a"
    using assms by (cases "a = out") (auto simp: bytes_at_def nth_Cons' not_less)
qed

lemma emit_bytes_at: "length bs \<le> 4294967296 \<Longrightarrow> emit bs out m = (out + of_nat (length bs), bytes_at out bs m)"
proof (induction bs arbitrary: out m)
  case (Cons b bs)
  then show ?case using bytes_at_step [of bs out m b] Cons.IH [of "out + 1" "m(out := b)"]
    by (simp add: add.assoc del: fun_upd_apply)
qed (simp add: bytes_at_def)

lemma vsprintf_formatted:
  assumes "formatted strs fs ap = (r, e)" "e \<noteq> Some OutOfBounds" "cstr m fmt fs"
    "apart fmt (Suc (length fs)) out (length r)" "known strs m out (length r)" "length r < 2 ^ 32"
  shows "vsprintf out fmt ap m = Some (case e of Some x \<Rightarrow> Inl x
    | None \<Rightarrow> Inr (of_nat (length r), bytes_at out (r @ [0]) m))"
proof -
  have "emit r out m = (out + of_nat (length r), bytes_at out r m)" using assms(6) by (intro emit_bytes_at) simp
  moreover have "emit (r @ [0]) out m = (out + of_nat (length r) + 1, bytes_at out (r @ [0]) m)"
    using assms(6) emit_bytes_at [of "r @ [0]" out m] by (simp add: add.commute add.left_commute)
  ultimately have "(bytes_at out r m)(out + of_nat (length r) := 0) = bytes_at out (r @ [0]) m"
    by (simp add: emit_append)
  then show ?thesis
    using vsprintf_loop_formatted [OF assms(1-5)] \<open>emit r out m = _\<close>
    by (cases e) (simp_all add: vsprintf_def result_def del: fun_upd_apply)
qed

text \<open>C9: \<open>vsprintf\<close> refines its specification: if the text of the format and arguments is
  known, and the output is apart from the format and the strings printed, it returns the length of
  the text, having written it with its NUL and nothing else; and it panics where the format has a
  conversion that is not supported.\<close>

theorem vsprintf_refines:
  assumes "formatted strs fs ap = (r, e)" "e \<noteq> Some OutOfBounds" "cstr m fmt fs"
    "apart fmt (Suc (length fs)) out (length r)" "known strs m out (length r)" "length r < 2 ^ 32"
  shows "vsprintf out fmt ap m = Some (case e of Some x \<Rightarrow> Inl x
    | None \<Rightarrow> Inr (of_nat (length r), bytes_at out (r @ [0]) m))"
  using assms by (rule vsprintf_formatted)

text \<open>\<open>"%3d,%s"\<close> of \<open>-7\<close> and \<open>"ok"\<close>.\<close>

lemma vsprintf_refines_witness:
  "\<exists>m. vsprintf 256 16 [- 7, 32] (bytes_at 16 [37, 51, 100, 44, 37, 115, 0] (bytes_at 32 [111, 107, 0] (\<lambda>_. 1)))
    = Some (Inr (7, bytes_at 256 [45, 32, 32, 55, 44, 111, 107, 0] m))"
proof -
  let ?m = "bytes_at 16 [37, 51, 100, 44, 37, 115, 0] (bytes_at 32 [111, 107, 0] (\<lambda>_. 1))"
  define strs where "strs = (\<lambda>p :: u32. if p = 32 then Some [111, 107 :: u8] else None)"
  have "show_nat 7 = [digit_char 7]" by (subst show_nat.simps) simp
  then have "decimal (- 7) = [55]" "sint (- 7 :: u32) = - 7"
    using of_char_digit [of 7] by (simp_all add: decimal_def)
  moreover have two: "replicate 2 (32 :: u8) = [32, 32]" by (simp add: numeral_2_eq_2)
  moreover have "directive [51, 100, 44, 37, 115] = (32, 3, [100, 44, 37, 115])" "directive [115] = (32, 0, [115])"
    by (simp_all add: directive_def peek_def)
  ultimately have f: "formatted strs [37, 51, 100, 44, 37, 115] [- 7, 32] = ([45, 32, 32, 55, 44, 111, 107], None)"
    by (simp add: formatted_Nil formatted_Cons peek_def converted_def padded_def strs_def two)
  have c: "cstr ?m 16 [37, 51, 100, 44, 37, 115]" by (simp add: bytes_at_def)
  have a: "apart 16 (Suc (length [37 :: u8, 51, 100, 44, 37, 115])) 256 (length [45 :: u8, 32, 32, 55, 44, 111, 107])"
    "apart 32 (Suc (length [111 :: u8, 107])) 256 (length [45 :: u8, 32, 32, 55, 44, 111, 107])"
    by (intro apart_intervals; simp)+
  have "cstr ?m 32 [111, 107]" by (simp add: bytes_at_def)
  with a(2) have k: "known strs ?m 256 (length [45 :: u8, 32, 32, 55, 44, 111, 107])"
    unfolding known_def strs_def by (metis option.inject option.distinct(1))
  have "vsprintf 256 16 [- 7, 32] ?m = Some (Inr (7, bytes_at 256 [45, 32, 32, 55, 44, 111, 107, 0] ?m))"
    using vsprintf_refines [OF f _ c a(1) k] by simp
  then show ?thesis by blast
qed

section \<open>Printing and reading a number\<close>

lemma unat_of_char [simp]: "unat (of_char c :: u8) = of_char c"
proof -
  have "(of_char c :: u8) = of_nat (of_char c)" by (rule of_nat_of_char [symmetric])
  then have "unat (of_char c :: u8) = of_char c mod 256" by (simp only: unat_of_nat) simp
  then show ?thesis by simp
qed

lemma foldl_show_nat:
  "foldl (\<lambda>n b. n * 10 + (unat b - 48)) x (map of_char cs :: u8 list) = digits_val x cs"
  by (induction cs arbitrary: x) (simp_all add: digit_val_def)

lemma digit_byte_show_nat: "b \<in> set (map of_char (show_nat n) :: u8 list) \<Longrightarrow> digit_byte b"
  using show_nat_digits [of _ n] by (auto simp: digit_byte_def word_le_nat_alt is_digit_def)

text \<open>\<open>atoi\<close> reads back what \<open>sprintf\<close> writes for a number that is not negative, whatever the
  width it is padded to with spaces.\<close>

theorem sprintf_atoi:
  assumes "cstr m fmt (37 # fs)" "directive fs = (32, w, [100])" "0 \<le> sint x" "n = max 10 (nat (sint w))"
    and "apart fmt (Suc (Suc (length fs))) out n"
  shows "\<exists>ret m'. sprintf out fmt [x] m = Some (Inr (ret, m')) \<and> atoi m' out = Some x"
proof -
  define k where "k = nat (sint w - int (length (decimal x)))"
  define r where "r = replicate k (32 :: u8) @ decimal x"
  have "uint (word_of_int (sint x) :: u32) = sint x"
    using assms(3) sint_less [of x] by (simp only: uint_word_of_int) simp
  then have "uint x = sint x" by simp
  then have x: "nat \<bar>sint x\<bar> = unat x" "x \<noteq> 0x80000000"
    using assms(3) by (auto simp: unat_eq_nat_uint)
  have d: "decimal x = map of_char (show_nat (unat x))" using x by (simp add: decimal_def)
  have "length (decimal x) \<le> 10" using length_show_nat [of "unat x" 10] unat_lt32 [of x] by (simp add: d)
  then have l: "length r \<le> n" "n < 2 ^ 32"
    using assms(4) sint_less [of w] by (auto simp: r_def k_def)
  have "formatted (\<lambda>_. None) (37 # fs) [x] = (r, None)"
    using assms(2,3) by (simp add: formatted_Cons formatted_Nil peek_def converted_def padded_def r_def k_def)
  from vsprintf_formatted [OF this _ assms(1) _ _, of out] apart_mono [OF assms(5)] l
  have s: "sprintf out fmt [x] m = Some (Inr (of_nat (length r), bytes_at out (r @ [0]) m))"
    by (simp add: sprintf_def known_def)
  let ?m = "bytes_at out (r @ [0]) m"
  have at: "?m (out + of_nat i) = (r @ [0]) ! i" if "i \<le> length r" for i
    using that l by (simp add: bytes_at_def unat_offset)
  have "atoi ?m out = Some (of_nat (foldl (\<lambda>n b. n * 10 + (unat b - 48)) 0 (decimal x)))"
  proof (rule atoi_value [of k])
    show "\<forall>i < k. ?m (out + of_nat i) = 32" using at by (simp add: r_def nth_append)
    have "?m (out + of_nat (k + i)) = decimal x ! i" if "i < length (decimal x)" for i
      using at [of "k + i"] that by (simp add: r_def nth_append)
    then show "\<forall>i < length (decimal x). ?m (out + of_nat k + of_nat i) = decimal x ! i" by (simp add: add.assoc)
    show "\<forall>b \<in> set (decimal x). digit_byte b" unfolding d using digit_byte_show_nat by blast
    have "?m (out + of_nat (length r)) = 0" using at [of "length r"] by simp
    then show "\<not> digit_byte (?m (out + of_nat k + of_nat (length (decimal x))))"
      by (simp add: r_def digit_byte_def add.assoc)
    show "decimal x \<noteq> [] \<or> ?m (out + of_nat k) \<noteq> 32" by (simp add: d)
  qed
  then have "atoi ?m out = Some x" by (simp add: d foldl_show_nat)
  with s show ?thesis by blast
qed

text \<open>\<open>"%6d"\<close> of 42.\<close>

lemma sprintf_atoi_witness:
  "\<exists>ret m'. sprintf 256 16 [42] (bytes_at 16 [37, 54, 100, 0] (\<lambda>_. 0)) = Some (Inr (ret, m')) \<and> atoi m' 256 = Some 42"
proof -
  have a: "cstr (bytes_at 16 [37, 54, 100, 0] (\<lambda>_. 0)) 16 [37, 54, 100]" by (simp add: bytes_at_def)
  have b: "directive [54, 100] = (32, 6, [100])" by (simp add: directive_def peek_def)
  have "apart 16 (Suc (Suc (length [54 :: u8, 100]))) 256 10" by (intro apart_intervals) simp_all
  from sprintf_atoi [OF a b _ _ this] show ?thesis by simp
qed

lemma putch_loop_cstr: "cstr m p cs \<Longrightarrow> putch_loop p m = Some cs"
  by (induction cs arbitrary: p) (subst putch_loop.simps; simp)+

text \<open>C38: \<open>printf\<close> of a text of known characters prints it and returns its length if it is
  shorter than 128 bytes, overflows its array if it is not, and panics on a conversion that is not
  supported.\<close>

theorem printf_spec:
  assumes "formatted strs fs ap = (r, e)" "e \<noteq> Some OutOfBounds" "cstr m fmt fs" "0 \<notin> set r"
    "apart fmt (Suc (length fs)) buf (length r)" "known strs m buf (length r)" "length r < 2 ^ 32"
  shows "printf buf fmt ap m = Some (case e of Some x \<Rightarrow> Inl x
    | None \<Rightarrow> if length r < 128 then Inr (of_nat (length r), r, bytes_at buf (r @ [0]) m) else Inl OutOfBounds)"
proof -
  have "cstr (bytes_at buf (r @ [0]) m) buf r"
    using assms(4,7) unfolding cstr_nth by (auto simp: bytes_at_def unat_offset nth_append in_set_conv_nth)
  moreover have "128 \<le> (of_nat (length r) :: u32) \<longleftrightarrow> 128 \<le> length r"
    using assms(7) by (simp add: word_le_nat_alt unat_offset)
  ultimately show ?thesis using vsprintf_formatted [OF assms(1-3,5-7)]
    by (cases e) (simp_all add: printf_def putch_loop_cstr not_less)
qed

text \<open>\<open>"%u"\<close> is not supported.\<close>

lemma printf_spec_witness:
  "printf 256 16 [7] (bytes_at 16 [37, 117, 0] (\<lambda>_. 1)) = Some (Inl (Panic ''Not implemented''))"
proof -
  have a: "cstr (bytes_at 16 [37, 117, 0] (\<lambda>_. 1)) 16 [37, 117]" by (simp add: bytes_at_def)
  have "directive [117] = (32, 0, [117])" by (simp add: directive_def peek_def)
  then have "formatted (\<lambda>_. None) [37, 117] [7] = ([], Some (Panic ''Not implemented''))"
    by (simp add: formatted_Cons peek_def converted_def)
  from printf_spec [OF this _ a] show ?thesis by (simp add: apart_def known_def)
qed

end
