(* ===== verification/NesPpu.thy ===== *)
theory NesPpu imports Prelude begin

text \<open>
  LiteNES, the NES emulator of \<open>am-kernels/kernels/litenes/src\<close>: its state, the bit operations of
  \<open>common.c\<close>, the picture processing unit (\<open>ppu.c\<close>: registers, video memory, the two scanline
  renderers) and the canvas of \<open>fce.c\<close>.  The fields of \<open>CPU_STATE\<close>, \<open>PPU_STATE\<close> and the static
  variables of the C files are the fields of one record, as every component can reach every other
  through the memory map; members the code never reads are left out, and \<open>fb_draws\<close>
  records what \<open>io_write (AM_GPU_FBDRAW, ...)\<close> sent to the screen.
\<close>

unbundle bit_operations_syntax

section \<open>The state of the machine\<close>

record nes =
  rPC :: u16
  rSP :: u8
  rA :: u8
  rX :: u8
  rY :: u8
  rP :: u8
  CPU_RAM :: "u16 \<Rightarrow> u8"
  op_value :: int
  op_address :: int
  op_cycles :: int
  cpu_cycles :: u64
  cart :: "u16 \<Rightarrow> u8"
  mmc_id :: u8
  chr_pages :: "nat \<Rightarrow> nat \<Rightarrow> u8"
  chr_pages_number :: nat
  PPUCTRL :: u8
  PPUMASK :: u8
  PPUSTATUS :: u8
  OAMADDR :: u8
  PPUSCROLL :: u16
  PPUSCROLL_X :: u8
  PPUSCROLL_Y :: u8
  PPUADDR :: u16
  PPUDATA :: u16
  scroll_received_x :: bool
  addr_received_high_byte :: bool
  ready :: bool
  mirroring :: int
  mirroring_xor :: int
  scanline :: int
  ppu_2007_first_read :: bool
  ppu_addr_latch :: u8
  PPU_SPRRAM :: "u8 \<Rightarrow> u8"
  PPU_RAM :: "nat \<Rightarrow> u8"
  ppu_sprite_hit_occured :: bool
  ppu_latch :: u8
  screen_background :: "int \<Rightarrow> int \<Rightarrow> u8"
  l_h_addition_table :: "u8 \<Rightarrow> u8 \<Rightarrow> nat \<Rightarrow> u8"
  l_h_addition_flip_table :: "u8 \<Rightarrow> u8 \<Rightarrow> nat \<Rightarrow> u8"
  joy_p :: int
  key_state :: "nat \<Rightarrow> int"
  prev_write :: u8
  frame_cnt :: int
  canvas :: "int \<Rightarrow> u32"
  fb_draws :: "(int \<times> int \<times> (int \<Rightarrow> u32)) list"

text \<open>The static initialisers.\<close>

definition nes0 :: nes where
  "nes0 =
     \<lparr>rPC = 0, rSP = 0, rA = 0, rX = 0, rY = 0, rP = 0, CPU_RAM = (\<lambda>_. 0),
      op_value = 0, op_address = 0, op_cycles = 0, cpu_cycles = 0,
      cart = (\<lambda>_. 0), mmc_id = 0, chr_pages = (\<lambda>_ _. 0), chr_pages_number = 0,
      PPUCTRL = 0, PPUMASK = 0, PPUSTATUS = 0, OAMADDR = 0, PPUSCROLL = 0, PPUSCROLL_X = 0,
      PPUSCROLL_Y = 0, PPUADDR = 0, PPUDATA = 0, scroll_received_x = False,
      addr_received_high_byte = False, ready = False, mirroring = 0, mirroring_xor = 0,
      scanline = 0, ppu_2007_first_read = False, ppu_addr_latch = 0, PPU_SPRRAM = (\<lambda>_. 0),
      PPU_RAM = (\<lambda>_. 0), ppu_sprite_hit_occured = False, ppu_latch = 0,
      screen_background = (\<lambda>_ _. 0), l_h_addition_table = (\<lambda>_ _ _. 0),
      l_h_addition_flip_table = (\<lambda>_ _ _. 0), joy_p = 10, key_state = (\<lambda>_. 0), prev_write = 0,
      frame_cnt = 0, canvas = (\<lambda>_. 0), fb_draws = []\<rparr>"

section \<open>Bits of a byte\<close>

definition common_bit_set :: "u8 \<Rightarrow> nat \<Rightarrow> bool" where
  "common_bit_set v n \<longleftrightarrow> v AND push_bit n 1 \<noteq> 0"

definition common_set_bitb :: "u8 \<Rightarrow> nat \<Rightarrow> u8" where "common_set_bitb v n = v OR push_bit n 1"
definition common_unset_bitb :: "u8 \<Rightarrow> nat \<Rightarrow> u8" where "common_unset_bitb v n = v AND NOT (push_bit n 1)"
definition common_toggle_bitb :: "u8 \<Rightarrow> nat \<Rightarrow> u8" where "common_toggle_bitb v n = v XOR push_bit n 1"
definition common_modify_bitb :: "u8 \<Rightarrow> nat \<Rightarrow> bool \<Rightarrow> u8" where
  "common_modify_bitb v n b = (if b then common_set_bitb v n else common_unset_bitb v n)"

section \<open>Registers of the PPU\<close>

definition ppu_base_nametable_addresses :: "u16 list" where
  "ppu_base_nametable_addresses = [0x2000, 0x2400, 0x2800, 0x2C00]"

definition ppu_base_nametable_address :: "nes \<Rightarrow> u16" where
  "ppu_base_nametable_address s = ppu_base_nametable_addresses ! unat (PPUCTRL s AND 3)"

definition ppu_vram_address_increment :: "nes \<Rightarrow> u8" where
  "ppu_vram_address_increment s = (if common_bit_set (PPUCTRL s) 2 then 32 else 1)"

definition ppu_sprite_pattern_table_address :: "nes \<Rightarrow> u16" where
  "ppu_sprite_pattern_table_address s = (if common_bit_set (PPUCTRL s) 3 then 0x1000 else 0)"

definition ppu_background_pattern_table_address :: "nes \<Rightarrow> u16" where
  "ppu_background_pattern_table_address s = (if common_bit_set (PPUCTRL s) 4 then 0x1000 else 0)"

definition ppu_sprite_height :: "nes \<Rightarrow> u8" where
  "ppu_sprite_height s = (if common_bit_set (PPUCTRL s) 5 then 16 else 8)"

definition ppu_generates_nmi :: "nes \<Rightarrow> bool" where "ppu_generates_nmi s = common_bit_set (PPUCTRL s) 7"

definition ppu_shows_background_in_leftmost_8px :: "nes \<Rightarrow> bool" where
  "ppu_shows_background_in_leftmost_8px s = common_bit_set (PPUMASK s) 1"

definition ppu_shows_background :: "nes \<Rightarrow> bool" where "ppu_shows_background s = common_bit_set (PPUMASK s) 3"
definition ppu_shows_sprites :: "nes \<Rightarrow> bool" where "ppu_shows_sprites s = common_bit_set (PPUMASK s) 4"

definition ppu_renders_grayscale :: "nes \<Rightarrow> bool" where "ppu_renders_grayscale s = common_bit_set (PPUMASK s) 0"
definition ppu_shows_sprites_in_leftmost_8px :: "nes \<Rightarrow> bool" where "ppu_shows_sprites_in_leftmost_8px s = common_bit_set (PPUMASK s) 2"
definition ppu_intensifies_reds :: "nes \<Rightarrow> bool" where "ppu_intensifies_reds s = common_bit_set (PPUMASK s) 5"
definition ppu_intensifies_greens :: "nes \<Rightarrow> bool" where "ppu_intensifies_greens s = common_bit_set (PPUMASK s) 6"
definition ppu_intensifies_blues :: "nes \<Rightarrow> bool" where "ppu_intensifies_blues s = common_bit_set (PPUMASK s) 7"

definition ppu_set_renders_grayscale :: "bool \<Rightarrow> nes \<Rightarrow> nes" where
  "ppu_set_renders_grayscale b s = s\<lparr>PPUMASK := common_modify_bitb (PPUMASK s) 0 b\<rparr>"

definition ppu_set_shows_background_in_leftmost_8px :: "bool \<Rightarrow> nes \<Rightarrow> nes" where
  "ppu_set_shows_background_in_leftmost_8px b s = s\<lparr>PPUMASK := common_modify_bitb (PPUMASK s) 1 b\<rparr>"

definition ppu_set_shows_sprites_in_leftmost_8px :: "bool \<Rightarrow> nes \<Rightarrow> nes" where
  "ppu_set_shows_sprites_in_leftmost_8px b s = s\<lparr>PPUMASK := common_modify_bitb (PPUMASK s) 2 b\<rparr>"

definition ppu_set_shows_background :: "bool \<Rightarrow> nes \<Rightarrow> nes" where
  "ppu_set_shows_background b s = s\<lparr>PPUMASK := common_modify_bitb (PPUMASK s) 3 b\<rparr>"

definition ppu_set_shows_sprites :: "bool \<Rightarrow> nes \<Rightarrow> nes" where
  "ppu_set_shows_sprites b s = s\<lparr>PPUMASK := common_modify_bitb (PPUMASK s) 4 b\<rparr>"

definition ppu_set_intensifies_reds :: "bool \<Rightarrow> nes \<Rightarrow> nes" where
  "ppu_set_intensifies_reds b s = s\<lparr>PPUMASK := common_modify_bitb (PPUMASK s) 5 b\<rparr>"

definition ppu_set_intensifies_greens :: "bool \<Rightarrow> nes \<Rightarrow> nes" where
  "ppu_set_intensifies_greens b s = s\<lparr>PPUMASK := common_modify_bitb (PPUMASK s) 6 b\<rparr>"

definition ppu_set_intensifies_blues :: "bool \<Rightarrow> nes \<Rightarrow> nes" where
  "ppu_set_intensifies_blues b s = s\<lparr>PPUMASK := common_modify_bitb (PPUMASK s) 7 b\<rparr>"

definition ppu_sprite_overflow :: "nes \<Rightarrow> bool" where "ppu_sprite_overflow s = common_bit_set (PPUSTATUS s) 5"
definition ppu_sprite_0_hit :: "nes \<Rightarrow> bool" where "ppu_sprite_0_hit s = common_bit_set (PPUSTATUS s) 6"
definition ppu_in_vblank :: "nes \<Rightarrow> bool" where "ppu_in_vblank s = common_bit_set (PPUSTATUS s) 7"

definition ppu_set_sprite_overflow :: "bool \<Rightarrow> nes \<Rightarrow> nes" where
  "ppu_set_sprite_overflow b s = s\<lparr>PPUSTATUS := common_modify_bitb (PPUSTATUS s) 5 b\<rparr>"

definition ppu_set_sprite_0_hit :: "bool \<Rightarrow> nes \<Rightarrow> nes" where
  "ppu_set_sprite_0_hit b s = s\<lparr>PPUSTATUS := common_modify_bitb (PPUSTATUS s) 6 b\<rparr>"

definition ppu_set_in_vblank :: "bool \<Rightarrow> nes \<Rightarrow> nes" where
  "ppu_set_in_vblank b s = s\<lparr>PPUSTATUS := common_modify_bitb (PPUSTATUS s) 7 b\<rparr>"

section \<open>Video memory\<close>

definition ppu_get_real_ram_address :: "u16 \<Rightarrow> u16" where
  "ppu_get_real_ram_address a =
     (if a < 0x2000 then a
      else if a < 0x3F00 then (if a < 0x3000 then a else a)
      else if a < 0x4000 then
        (let a = 0x3F00 OR (a AND 0x1F)
         in if a = 0x3F10 \<or> a = 0x3F14 \<or> a = 0x3F18 \<or> a = 0x3F1C then a - 0x10 else a)
      else 0xFFFF)"

text \<open>\<open>PPU_RAM\<close> has \<open>0x4000\<close> bytes; an access beyond them, which C leaves undefined, is an abort.\<close>

definition ppu_ram_read :: "u16 \<Rightarrow> nes \<Rightarrow> abort + u8" where
  "ppu_ram_read a s =
     (let i = unat (ppu_get_real_ram_address a) in if i < 0x4000 then Inr (PPU_RAM s i) else Inl OutOfBounds)"

definition ppu_ram_write :: "u16 \<Rightarrow> u8 \<Rightarrow> nes \<Rightarrow> abort + nes" where
  "ppu_ram_write a v s =
     (let i = unat (ppu_get_real_ram_address a)
      in if i < 0x4000 then Inr (s\<lparr>PPU_RAM := (PPU_RAM s)(i := v)\<rparr>) else Inl OutOfBounds)"

definition ppu_copy :: "u16 \<Rightarrow> (nat \<Rightarrow> u8) \<Rightarrow> nat \<Rightarrow> nes \<Rightarrow> abort + nes" where
  "ppu_copy a src n s =
     (if unat a + n \<le> 0x4000
      then Inr (s\<lparr>PPU_RAM := (\<lambda>i. if unat a \<le> i \<and> i < unat a + n then src (i - unat a) else PPU_RAM s i)\<rparr>)
      else Inl OutOfBounds)"

definition ppu_sprram_write :: "u8 \<Rightarrow> nes \<Rightarrow> nes" where
  "ppu_sprram_write v s = s\<lparr>PPU_SPRRAM := (PPU_SPRRAM s)(OAMADDR s := v), OAMADDR := OAMADDR s + 1\<rparr>"

definition ppu_set_mirroring :: "u8 \<Rightarrow> nes \<Rightarrow> nes" where
  "ppu_set_mirroring m s = s\<lparr>mirroring := uint m, mirroring_xor := push_bit (unat m) 0x400\<rparr>"

section \<open>Ports\<close>

definition ppuio_read :: "u16 \<Rightarrow> nes \<Rightarrow> abort + u8 \<times> nes" where
  "ppuio_read address s =
     (let s = s\<lparr>PPUADDR := PPUADDR s AND 0x3FFF\<rparr>; port = address AND 7 in
      if port = 2 then
        (let v = PPUSTATUS s;
             s = ppu_set_sprite_0_hit False (ppu_set_in_vblank False s)
         in Inr (v, s\<lparr>scroll_received_x := False, PPUSCROLL := 0, addr_received_high_byte := False,
                      ppu_latch := v, ppu_addr_latch := 0, ppu_2007_first_read := True\<rparr>))
      else if port = 4 then
        (let v = PPU_SPRRAM s (OAMADDR s) in Inr (v, s\<lparr>ppu_latch := v\<rparr>))
      else if port = 7 then
        rbind (ppu_ram_read (PPUADDR s) s) (\<lambda>v.
          let s = (if PPUADDR s < 0x3F00 then s\<lparr>ppu_latch := v\<rparr> else s\<lparr>ppu_latch := 0\<rparr>)
          in Inr (v, if ppu_2007_first_read s then s\<lparr>ppu_2007_first_read := False\<rparr>
                     else s\<lparr>PPUADDR := PPUADDR s + ucast (ppu_vram_address_increment s)\<rparr>))
      else Inr (0xFF, s))"

definition ppuio_write :: "u16 \<Rightarrow> u8 \<Rightarrow> nes \<Rightarrow> abort + nes" where
  "ppuio_write address v s =
     (let port = address AND 7; s = s\<lparr>ppu_latch := v, PPUADDR := PPUADDR s AND 0x3FFF\<rparr>;
          done = (\<lambda>s. Inr (s\<lparr>ppu_latch := v\<rparr>)) in
      if port = 0 then done (if ready s then s\<lparr>PPUCTRL := v\<rparr> else s)
      else if port = 1 then done (if ready s then s\<lparr>PPUMASK := v\<rparr> else s)
      else if port = 3 then done (s\<lparr>OAMADDR := v\<rparr>)
      else if port = 4 then done (ppu_sprram_write v s)
      else if port = 5 then
        (let s = (if scroll_received_x s then s\<lparr>PPUSCROLL_Y := v\<rparr> else s\<lparr>PPUSCROLL_X := v\<rparr>)
         in done (s\<lparr>scroll_received_x := \<not> scroll_received_x s\<rparr>))
      else if port = 6 then
        (if \<not> ready s then Inr s
         else
           let s = (if addr_received_high_byte s then s\<lparr>PPUADDR := push_bit 8 (ucast (ppu_addr_latch s)) + ucast v\<rparr>
                    else s\<lparr>ppu_addr_latch := v\<rparr>)
           in done (s\<lparr>addr_received_high_byte := \<not> addr_received_high_byte s, ppu_2007_first_read := True\<rparr>))
      else if port = 7 then
        (if PPUADDR s > 0x1FFF \<or> PPUADDR s < 0x4000
         then rbind (ppu_ram_write (word_of_int (uint (PPUADDR s) XOR mirroring_xor s)) v s) (\<lambda>s.
              rbind (ppu_ram_write (PPUADDR s) v s) done)
         else rbind (ppu_ram_write (PPUADDR s) v s) done)
      else done s)"

definition ppu_init :: "nes \<Rightarrow> nes" where
  "ppu_init s =
     s\<lparr>PPUCTRL := 0, PPUMASK := 0, PPUSTATUS := 0xA0, OAMADDR := 0, PPUSCROLL_X := 0,
       PPUSCROLL_Y := 0, PPUADDR := 0, PPUDATA := 0, ppu_2007_first_read := True,
       l_h_addition_table := (\<lambda>l h x. push_bit 1 (drop_bit (7 - x) h AND 1) OR (drop_bit (7 - x) l AND 1)),
       l_h_addition_flip_table := (\<lambda>l h x. push_bit 1 (drop_bit x h AND 1) OR (drop_bit x l AND 1))\<rparr>"

section \<open>The canvas\<close>

definition palette :: "u32 list" where
  "palette =
    [0x808080, 0x0000BB, 0x3700BF, 0x8400A6, 0xBB006A, 0xB7001E, 0xB30000, 0x912600,
     0x7B2B00, 0x003E00, 0x00480D, 0x003C22, 0x002F66, 0x000000, 0x050505, 0x050505,
     0xC8C8C8, 0x0059FF, 0x443CFF, 0xB733CC, 0xFF33AA, 0xFF375E, 0xFF371A, 0xD54B00,
     0xC46200, 0x3C7B00, 0x1E8415, 0x009566, 0x0084C4, 0x111111, 0x090909, 0x090909,
     0xFFFFFF, 0x0095FF, 0x6F84FF, 0xD56FFF, 0xFF77CC, 0xFF6F99, 0xFF7B59, 0xFF915F,
     0xFFA233, 0xA6BF00, 0x51D96A, 0x4DD5AE, 0x00D9FF, 0x666666, 0x0D0D0D, 0x0D0D0D,
     0xFFFFFF, 0x84BFFF, 0xBBBBFF, 0xD0BBFF, 0xFFBFEA, 0xFFBFCC, 0xFFC4B7, 0xFFCCAE,
     0xFFD9A2, 0xCCE199, 0xAEEEB7, 0xAAF7EE, 0xB3EEFF, 0xDDDDDD, 0x111111, 0x111111]"

definition SCR_W :: int where "SCR_W = 256"
definition SCR_H :: int where "SCR_H = 240"
definition FRAME_SKIP :: int where "FRAME_SKIP = 1"

definition candraw :: "nes \<Rightarrow> bool" where "candraw s \<longleftrightarrow> frame_cnt s mod (1 + FRAME_SKIP) = 0"

definition palette_at :: "u8 \<Rightarrow> abort + u32" where
  "palette_at idx = (if unat idx < length palette then Inr (palette ! unat idx) else Inl OutOfBounds)"

definition draw :: "int \<Rightarrow> int \<Rightarrow> u8 \<Rightarrow> nes \<Rightarrow> abort + nes" where
  "draw x y idx s =
     (if x \<ge> 0 \<and> x < SCR_W \<and> y \<ge> 0 \<and> y < SCR_H \<and> candraw s
      then rbind (palette_at idx) (\<lambda>c. Inr (s\<lparr>canvas := (canvas s)(y * SCR_W + x := c)\<rparr>))
      else Inr s)"

section \<open>Scanlines\<close>

text \<open>\<open>ppu_screen_background\<close> is \<open>264\<close> by \<open>248\<close>.\<close>

definition in_background :: "int \<Rightarrow> int \<Rightarrow> bool" where
  "in_background x y \<longleftrightarrow> 0 \<le> x \<and> x < 264 \<and> 0 \<le> y \<and> y < 248"

definition set_background :: "int \<Rightarrow> int \<Rightarrow> u8 \<Rightarrow> nes \<Rightarrow> abort + nes" where
  "set_background x y c s =
     (if in_background x y then Inr (s\<lparr>screen_background := (screen_background s)(x := (screen_background s x)(y := c))\<rparr>)
      else Inl OutOfBounds)"

definition bg_pixel :: "bool \<Rightarrow> int \<Rightarrow> u8 \<Rightarrow> u8 \<Rightarrow> nat \<Rightarrow> nes \<Rightarrow> abort + nes" where
  "bg_pixel mirror tile_x l h x s =
     (let color = l_h_addition_table s l h x in
      if color \<noteq> 0 then
        (let attribute_address = word_of_int (uint (ppu_base_nametable_address s) + (if mirror then 0x400 else 0)
                                   + 0x3C0 + drop_bit 2 tile_x + drop_bit 5 (scanline s) * 8);
             top = scanline s mod 32 < 16;
             left = tile_x mod 4 < 2
         in rbind (ppu_ram_read attribute_address s) (\<lambda>palette_attribute.
              let pa = (if \<not> top then drop_bit 4 palette_attribute else palette_attribute);
                  pa = (if \<not> left then drop_bit 2 pa else pa);
                  pa = pa AND 3;
                  palette_address = 0x3F00 + push_bit 2 (ucast pa :: u16)
              in rbind (ppu_ram_read (palette_address + ucast color) s) (\<lambda>idx.
                 rbind (set_background (push_bit 3 tile_x + int x) (scanline s) color s) (\<lambda>s.
                 draw (push_bit 3 tile_x + int x - uint (PPUSCROLL_X s) + (if mirror then 256 else 0))
                      (scanline s + 1) idx s))))
      else Inr s)"

definition bg_tile :: "bool \<Rightarrow> int \<Rightarrow> nes \<Rightarrow> abort + nes" where
  "bg_tile mirror tile_x s =
     (if push_bit 3 tile_x - uint (PPUSCROLL_X s) + (if mirror then 256 else 0) > 256 then Inr s
      else
        let tile_y = drop_bit 3 (scanline s) in
        rbind (ppu_ram_read (word_of_int (uint (ppu_base_nametable_address s) + tile_x + push_bit 5 tile_y
                               + (if mirror then 0x400 else 0))) s) (\<lambda>tile_index.
        let tile_address = ppu_background_pattern_table_address s + 16 * ucast tile_index;
            y_in_tile = scanline s AND 7
        in rbind (ppu_ram_read (tile_address + word_of_int y_in_tile) s) (\<lambda>l.
           rbind (ppu_ram_read (tile_address + word_of_int y_in_tile + 8) s) (\<lambda>h.
           run_ops (bg_pixel mirror tile_x l h) [0..<8] s))))"

definition ppu_draw_background_scanline :: "bool \<Rightarrow> nes \<Rightarrow> abort + nes" where
  "ppu_draw_background_scanline mirror s =
     run_ops (bg_tile mirror) [(if ppu_shows_background_in_leftmost_8px s then 0 else 1)..31] s"

definition sprite_pixel :: "u8 \<Rightarrow> u8 \<Rightarrow> u8 \<Rightarrow> nat \<Rightarrow> nes \<Rightarrow> abort + nes" where
  "sprite_pixel n l h x s =
     (let sprite_x = uint (PPU_SPRRAM s (n + 3)); sprite_y = uint (PPU_SPRRAM s n);
          hflip = (PPU_SPRRAM s (n + 2) AND 0x40 \<noteq> 0);
          y_in_tile = scanline s AND 7;
          palette_address = 0x3F10 + push_bit 2 (ucast (PPU_SPRRAM s (n + 2) AND 3) :: u16);
          color = (if hflip then l_h_addition_flip_table s l h x else l_h_addition_table s l h x)
      in if color \<noteq> 0 then
           (let screen_x = sprite_x + int x in
            rbind (ppu_ram_read (palette_address + ucast color) s) (\<lambda>idx.
            rbind (if PPU_SPRRAM s (n + 2) AND 0x20 \<noteq> 0 then draw screen_x (sprite_y + y_in_tile + 1) idx s
                   else draw screen_x (sprite_y + y_in_tile + 1) idx s) (\<lambda>s.
            if ppu_shows_background s \<and> \<not> ppu_sprite_hit_occured s \<and> n = 0 then
              (if \<not> in_background screen_x (sprite_y + y_in_tile) then Inl OutOfBounds
               else if screen_background s screen_x (sprite_y + y_in_tile) = color
               then Inr ((ppu_set_sprite_0_hit True s)\<lparr>ppu_sprite_hit_occured := True\<rparr>)
               else Inr s)
            else Inr s)))
         else Inr s)"

definition sprite :: "u8 \<Rightarrow> int \<times> nes \<Rightarrow> abort + int \<times> nes" where
  "sprite n st =
     (case st of (scanline_sprite_count, s) \<Rightarrow>
        let sprite_y = uint (PPU_SPRRAM s n) in
        if sprite_y > scanline s \<or> sprite_y + uint (ppu_sprite_height s) < scanline s
        then Inr (scanline_sprite_count, s)
        else
          let scanline_sprite_count = scanline_sprite_count + 1;
              s = (if scanline_sprite_count > 8 then ppu_set_sprite_overflow True s else s);
              vflip = (PPU_SPRRAM s (n + 2) AND 0x80 \<noteq> 0);
              tile_address = ppu_sprite_pattern_table_address s + 16 * ucast (PPU_SPRRAM s (n + 1));
              y_in_tile = scanline s AND 7;
              row = (if vflip then 7 - y_in_tile else y_in_tile)
          in rbind (ppu_ram_read (tile_address + word_of_int row) s) (\<lambda>l.
             rbind (ppu_ram_read (tile_address + word_of_int row + 8) s) (\<lambda>h.
             rbind (run_ops (sprite_pixel n l h) [0..<8] s) (\<lambda>s. Inr (scanline_sprite_count, s)))))"

definition ppu_draw_sprite_scanline :: "nes \<Rightarrow> abort + nes" where
  "ppu_draw_sprite_scanline s =
     rbind (run_ops sprite (map (\<lambda>k. 4 * of_nat k) [0..<64]) (0, s)) (\<lambda>r. Inr (snd r))"

end
