(* ===== verification/NesMem.thy ===== *)
theory NesMem imports NesPpu begin

text \<open>
  The memory map of LiteNES (\<open>memory.c\<close>): the 2 KiB of CPU RAM (\<open>cpu.c\<close>) and its mirrors, the PPU's
  ports, the joypad port (\<open>psg.c\<close>), and the cartridge (\<open>mmc.c\<close>).  Reading a port changes the state,
  so every read returns one.  Where C leaves the order of two reads open, the left one comes first.
\<close>

unbundle bit_operations_syntax

section \<open>CPU RAM\<close>

definition cpu_ram_read :: "u16 \<Rightarrow> nes \<Rightarrow> u8" where
  "cpu_ram_read a s = CPU_RAM s (a AND 0x7FF)"

definition cpu_ram_write :: "u16 \<Rightarrow> u8 \<Rightarrow> nes \<Rightarrow> nes" where
  "cpu_ram_write a v s = s\<lparr>CPU_RAM := (CPU_RAM s)(a AND 0x7FF := v)\<rparr>"

section \<open>Cartridge\<close>

definition MMC_MAX_PAGE_COUNT :: nat where "MMC_MAX_PAGE_COUNT = 1"

definition mmc_read :: "u16 \<Rightarrow> nes \<Rightarrow> u8" where "mmc_read a s = cart s a"

definition mmc_write :: "u16 \<Rightarrow> u8 \<Rightarrow> nes \<Rightarrow> abort + nes" where
  "mmc_write a v s =
     rbind (if mmc_id s = 3
            then (if unat (v AND 3) < MMC_MAX_PAGE_COUNT then ppu_copy 0 (chr_pages s (unat (v AND 3))) 0x2000 s
                  else Inl OutOfBounds)
            else Inr s)
       (\<lambda>s. Inr (s\<lparr>cart := (cart s)(a := v)\<rparr>))"

text \<open>\<open>memcpy\<close> into \<open>memory\<close>; \<open>n\<close> bytes from \<open>a\<close> must fit.\<close>

definition mmc_copy :: "u16 \<Rightarrow> (nat \<Rightarrow> u8) \<Rightarrow> nat \<Rightarrow> nes \<Rightarrow> abort + nes" where
  "mmc_copy a src n s =
     (if unat a + n \<le> 0x10000
      then Inr (s\<lparr>cart := (\<lambda>i. if unat a \<le> unat i \<and> unat i < unat a + n then src (unat i - unat a) else cart s i)\<rparr>)
      else Inl OutOfBounds)"

definition mmc_append_chr_rom_page :: "(nat \<Rightarrow> u8) \<Rightarrow> nes \<Rightarrow> abort + nes" where
  "mmc_append_chr_rom_page src s =
     (if chr_pages_number s < MMC_MAX_PAGE_COUNT
      then Inr (s\<lparr>chr_pages := (chr_pages s)(chr_pages_number s :=
                       (\<lambda>i. if i < 0x2000 then src i else chr_pages s (chr_pages_number s) i)),
                  chr_pages_number := chr_pages_number s + 1\<rparr>)
      else Inl AssertFail)"

section \<open>Joypad\<close>

text \<open>\<open>MAP\<close>: the key codes of \<open>KEYS\<close> (J, K, U, I, W, S, A, D of \<open>amdev.h\<close>).\<close>

definition MAP :: "nat list" where
  "MAP = [0, 49, 50, 35, 36, 30, 44, 43, 45, 255] @ replicate 246 0"

definition psgio_read :: "u16 \<Rightarrow> nes \<Rightarrow> u8 \<times> nes" where
  "psgio_read a s =
     (if a = 0x4016 then
        let p = joy_p s; s = s\<lparr>joy_p := p + 1\<rparr> in
        if p < 9 then (word_of_int (key_state s (MAP ! nat (joy_p s))), s) else (0, s)
      else (0, s))"

definition psgio_write :: "u16 \<Rightarrow> u8 \<Rightarrow> nes \<Rightarrow> nes" where
  "psgio_write a v s =
     (let s = (if a = 0x4016 then if v AND 1 = 0 \<and> prev_write s = 1 then s\<lparr>joy_p := 0\<rparr> else s else s)
      in s\<lparr>prev_write := v AND 1\<rparr>)"

text \<open>\<open>psg_detect_key\<close>: the key events the machine has ready, code and whether it is down, up to
  the first \<open>AM_KEY_NONE\<close>.\<close>

fun psg_detect_key :: "(u8 \<times> bool) list \<Rightarrow> nes \<Rightarrow> nes" where
  "psg_detect_key [] s = s"
| "psg_detect_key ((keycode, keydown) # evs) s =
     (if keycode = 0 then s
      else psg_detect_key evs (s\<lparr>key_state := (key_state s)(unat keycode := of_bool keydown)\<rparr>))"

definition psg_init :: "nes \<Rightarrow> nes" where
  "psg_init s = s\<lparr>key_state := (key_state s)(0 := 1)\<rparr>"

section \<open>The map\<close>

definition memory_readb :: "u16 \<Rightarrow> nes \<Rightarrow> abort + u8 \<times> nes" where
  "memory_readb a s =
     (let bank = drop_bit 13 a in
      if bank = 0 then Inr (cpu_ram_read (a AND 0x07FF) s, s)
      else if bank = 1 then ppuio_read a s
      else if bank = 2 then Inr (psgio_read a s)
      else if bank = 3 then Inr (cpu_ram_read (a AND 0x1FFF) s, s)
      else Inr (mmc_read a s, s))"

definition dma :: "u8 \<Rightarrow> nat \<Rightarrow> nes \<Rightarrow> abort + nes" where
  "dma v i s = Inr (ppu_sprram_write (cpu_ram_read (0x100 * ucast v + of_nat i) s) s)"

definition memory_writeb :: "u16 \<Rightarrow> u8 \<Rightarrow> nes \<Rightarrow> abort + nes" where
  "memory_writeb a v s =
     (if a = 0x4014 then run_ops (dma v) [0..<256] s
      else
        let bank = drop_bit 13 a in
        if bank = 0 then Inr (cpu_ram_write (a AND 0x07FF) v s)
        else if bank = 1 then ppuio_write a v s
        else if bank = 2 then Inr (psgio_write a v s)
        else if bank = 3 then Inr (cpu_ram_write (a AND 0x1FFF) v s)
        else mmc_write a v s)"

definition memory_readw :: "u16 \<Rightarrow> nes \<Rightarrow> abort + u16 \<times> nes" where
  "memory_readw a s =
     rbind (memory_readb a s) (\<lambda>(l, s). rbind (memory_readb (a + 1) s) (\<lambda>(h, s).
       Inr (ucast l + push_bit 8 (ucast h), s)))"

definition memory_writew :: "u16 \<Rightarrow> u16 \<Rightarrow> nes \<Rightarrow> abort + nes" where
  "memory_writew a v s =
     rbind (memory_writeb a (ucast (v AND 0xFF)) s) (\<lambda>s. memory_writeb (a + 1) (ucast (drop_bit 8 v)) s)"

end
