(* ===== verification/NesCpu.thy ===== *)
theory NesCpu imports NesMem begin

text \<open>
  The 6502 of LiteNES: addressing modes (\<open>cpu-addressing.c\<close>), instructions, the opcode tables,
  reset, interrupts and the run loop (\<open>cpu.c\<close>).  An instruction is an operation on the machine that
  may abort, as the memory it reaches may.
\<close>

unbundle bit_operations_syntax

section \<open>Flags\<close>

definition carry_bp :: nat where "carry_bp = 0"
definition zero_bp :: nat where "zero_bp = 1"
definition interrupt_bp :: nat where "interrupt_bp = 2"
definition decimal_bp :: nat where "decimal_bp = 3"
definition break_bp :: nat where "break_bp = 4"
definition unused_bp :: nat where "unused_bp = 5"
definition overflow_bp :: nat where "overflow_bp = 6"
definition negative_bp :: nat where "negative_bp = 7"

definition zero_flag :: u8 where "zero_flag = 0x02"
definition interrupt_flag :: u8 where "interrupt_flag = 0x04"
definition break_flag :: u8 where "break_flag = 0x10"
definition unused_flag :: u8 where "unused_flag = 0x20"
definition negative_flag :: u8 where "negative_flag = 0x80"

lemmas bp_defs = carry_bp_def zero_bp_def interrupt_bp_def decimal_bp_def break_bp_def unused_bp_def
  overflow_bp_def negative_bp_def
lemmas flag_defs = zero_flag_def interrupt_flag_def break_flag_def unused_flag_def negative_flag_def

definition cpu_zn_flag_table :: "u8 list" where
  "cpu_zn_flag_table = zero_flag # replicate 127 0 @ replicate 128 negative_flag"

definition cpu_flag_set :: "nat \<Rightarrow> nes \<Rightarrow> bool" where "cpu_flag_set n s = common_bit_set (rP s) n"
definition cpu_modify_flag :: "nat \<Rightarrow> bool \<Rightarrow> nes \<Rightarrow> nes" where
  "cpu_modify_flag n b s = s\<lparr>rP := common_modify_bitb (rP s) n b\<rparr>"
definition cpu_set_flag :: "nat \<Rightarrow> nes \<Rightarrow> nes" where "cpu_set_flag n s = s\<lparr>rP := common_set_bitb (rP s) n\<rparr>"
definition cpu_unset_flag :: "nat \<Rightarrow> nes \<Rightarrow> nes" where "cpu_unset_flag n s = s\<lparr>rP := common_unset_bitb (rP s) n\<rparr>"

definition cpu_update_zn_flags :: "u8 \<Rightarrow> nes \<Rightarrow> nes" where
  "cpu_update_zn_flags v s =
     s\<lparr>rP := (rP s AND NOT (zero_flag OR negative_flag)) OR cpu_zn_flag_table ! unat v\<rparr>"

definition cpu_branch :: "bool \<Rightarrow> nes \<Rightarrow> nes" where
  "cpu_branch flag s = (if flag then s\<lparr>rPC := word_of_int (op_address s)\<rparr> else s)"

definition cpu_compare :: "u8 \<Rightarrow> nes \<Rightarrow> nes" where
  "cpu_compare reg s =
     (let result = uint reg - op_value s in
      cpu_modify_flag negative_bp (drop_bit 7 result AND 1 \<noteq> 0)
        (cpu_modify_flag zero_bp (result = 0) (cpu_modify_flag carry_bp (result \<ge> 0) s)))"

section \<open>Interrupt addresses and the stack\<close>

definition cpu_nmi_interrupt_address :: "nes \<Rightarrow> abort + u16 \<times> nes" where
  "cpu_nmi_interrupt_address s = memory_readw 0xFFFA s"
definition cpu_reset_interrupt_address :: "nes \<Rightarrow> abort + u16 \<times> nes" where
  "cpu_reset_interrupt_address s = memory_readw 0xFFFC s"
definition cpu_irq_interrupt_address :: "nes \<Rightarrow> abort + u16 \<times> nes" where
  "cpu_irq_interrupt_address s = memory_readw 0xFFFE s"

definition cpu_stack_pushb :: "u8 \<Rightarrow> nes \<Rightarrow> abort + nes" where
  "cpu_stack_pushb v s = memory_writeb (0x100 + ucast (rSP s)) v (s\<lparr>rSP := rSP s - 1\<rparr>)"

definition cpu_stack_pushw :: "u16 \<Rightarrow> nes \<Rightarrow> abort + nes" where
  "cpu_stack_pushw v s = rbind (memory_writew (0xFF + ucast (rSP s)) v s) (\<lambda>s. Inr (s\<lparr>rSP := rSP s - 2\<rparr>))"

definition cpu_stack_popb :: "nes \<Rightarrow> abort + u8 \<times> nes" where
  "cpu_stack_popb s = (let s = s\<lparr>rSP := rSP s + 1\<rparr> in memory_readb (0x100 + ucast (rSP s)) s)"

definition cpu_stack_popw :: "nes \<Rightarrow> abort + u16 \<times> nes" where
  "cpu_stack_popw s = (let s = s\<lparr>rSP := rSP s + 2\<rparr> in memory_readw (0xFF + ucast (rSP s)) s)"

section \<open>Addressing modes\<close>

definition cpu_address_implied :: "nes \<Rightarrow> abort + nes" where "cpu_address_implied s = Inr s"

definition cpu_address_immediate :: "nes \<Rightarrow> abort + nes" where
  "cpu_address_immediate s =
     rbind (memory_readb (rPC s) s) (\<lambda>(v, s). Inr (s\<lparr>op_value := uint v, rPC := rPC s + 1\<rparr>))"

text \<open>\<open>op_value = CPU_RAM[op_address]\<close> after \<open>op_address\<close> was set to a zero page address.\<close>

definition zero_page_operand :: "int \<Rightarrow> nes \<Rightarrow> nes" where
  "zero_page_operand a s =
     s\<lparr>op_address := a, op_value := uint (CPU_RAM s (word_of_int a)), rPC := rPC s + 1\<rparr>"

definition cpu_address_zero_page :: "nes \<Rightarrow> abort + nes" where
  "cpu_address_zero_page s = rbind (memory_readb (rPC s) s) (\<lambda>(a, s). Inr (zero_page_operand (uint a) s))"

definition cpu_address_zero_page_x :: "nes \<Rightarrow> abort + nes" where
  "cpu_address_zero_page_x s =
     rbind (memory_readb (rPC s) s) (\<lambda>(a, s). Inr (zero_page_operand ((uint a + uint (rX s)) AND 0xFF) s))"

definition cpu_address_zero_page_y :: "nes \<Rightarrow> abort + nes" where
  "cpu_address_zero_page_y s =
     rbind (memory_readb (rPC s) s) (\<lambda>(a, s). Inr (zero_page_operand ((uint a + uint (rY s)) AND 0xFF) s))"

text \<open>\<open>op_address = a; op_value = memory_readb (op_address)\<close>, then \<open>cpu.PC += n\<close>.\<close>

definition memory_operand :: "int \<Rightarrow> u16 \<Rightarrow> nes \<Rightarrow> abort + nes" where
  "memory_operand a n s =
     rbind (memory_readb (word_of_int a) (s\<lparr>op_address := a\<rparr>)) (\<lambda>(v, s).
       Inr (s\<lparr>op_value := uint v, rPC := rPC s + n\<rparr>))"

text \<open>An additional cycle when \<open>op_address\<close> and \<open>PC\<close> are on different pages.\<close>

definition page_cross :: "nes \<Rightarrow> nes" where
  "page_cross s =
     (if drop_bit 8 (op_address s) \<noteq> drop_bit 8 (uint (rPC s)) then s\<lparr>op_cycles := op_cycles s + 1\<rparr> else s)"

definition cpu_address_absolute :: "nes \<Rightarrow> abort + nes" where
  "cpu_address_absolute s = rbind (memory_readw (rPC s) s) (\<lambda>(a, s). memory_operand (uint a) 2 s)"

definition cpu_address_absolute_x :: "nes \<Rightarrow> abort + nes" where
  "cpu_address_absolute_x s =
     rbind (memory_readw (rPC s) s) (\<lambda>(a, s).
     rbind (memory_operand (uint a + uint (rX s)) 2 s) (\<lambda>s. Inr (page_cross s)))"

definition cpu_address_absolute_y :: "nes \<Rightarrow> abort + nes" where
  "cpu_address_absolute_y s =
     rbind (memory_readw (rPC s) s) (\<lambda>(a, s).
     rbind (memory_operand ((uint a + uint (rY s)) AND 0xFFFF) 2 s) (\<lambda>s. Inr (page_cross s)))"

definition cpu_address_relative :: "nes \<Rightarrow> abort + nes" where
  "cpu_address_relative s =
     rbind (memory_readb (rPC s) s) (\<lambda>(v, s).
       let s = s\<lparr>op_address := uint v, rPC := rPC s + 1\<rparr>;
           s = (if op_address s AND 0x80 \<noteq> 0 then s\<lparr>op_address := op_address s - 0x100\<rparr> else s);
           s = s\<lparr>op_address := op_address s + uint (rPC s)\<rparr>
       in Inr (page_cross s))"

definition cpu_address_indirect :: "nes \<Rightarrow> abort + nes" where
  "cpu_address_indirect s =
     rbind (memory_readw (rPC s) s) (\<lambda>(arg_addr, s).
     rbind (if arg_addr AND 0xFF = 0xFF
            then rbind (memory_readb (arg_addr AND 0xFF00) s) (\<lambda>(h, s). rbind (memory_readb arg_addr s) (\<lambda>(l, s).
                   Inr (s\<lparr>op_address := push_bit 8 (uint h) + uint l\<rparr>)))
            else rbind (memory_readw arg_addr s) (\<lambda>(a, s). Inr (s\<lparr>op_address := uint a\<rparr>)))
       (\<lambda>s. Inr (s\<lparr>rPC := rPC s + 2\<rparr>)))"

definition cpu_address_indirect_x :: "nes \<Rightarrow> abort + nes" where
  "cpu_address_indirect_x s =
     rbind (memory_readb (rPC s) s) (\<lambda>(arg_addr, s).
     rbind (memory_readb ((ucast arg_addr + ucast (rX s) + 1) AND 0xFF) s) (\<lambda>(h, s).
     rbind (memory_readb ((ucast arg_addr + ucast (rX s)) AND 0xFF) s) (\<lambda>(l, s).
     memory_operand (push_bit 8 (uint h) OR uint l) 1 s)))"

definition cpu_address_indirect_y :: "nes \<Rightarrow> abort + nes" where
  "cpu_address_indirect_y s =
     rbind (memory_readb (rPC s) s) (\<lambda>(arg_addr, s).
     rbind (memory_readb ((ucast arg_addr + 1) AND 0xFF) s) (\<lambda>(h, s).
     rbind (memory_readb (ucast arg_addr) s) (\<lambda>(l, s).
     rbind (memory_operand (((push_bit 8 (uint h) OR uint l) + uint (rY s)) AND 0xFFFF) 1 s) (\<lambda>s.
     Inr (page_cross s)))))"

section \<open>Instructions\<close>

text \<open>\<open>____FE____\<close>, the handler of the instructions not implemented, and \<open>NOP\<close>.\<close>

definition FE_op :: "nes \<Rightarrow> abort + nes" where "FE_op s = Inr s"
definition cpu_op_nop :: "nes \<Rightarrow> abort + nes" where "cpu_op_nop s = Inr s"

text \<open>\<open>cpu_update_zn_flags (cpu.A = v)\<close> and its like.\<close>

definition set_A :: "u8 \<Rightarrow> nes \<Rightarrow> nes" where "set_A v s = cpu_update_zn_flags v (s\<lparr>rA := v\<rparr>)"
definition set_X :: "u8 \<Rightarrow> nes \<Rightarrow> nes" where "set_X v s = cpu_update_zn_flags v (s\<lparr>rX := v\<rparr>)"
definition set_Y :: "u8 \<Rightarrow> nes \<Rightarrow> nes" where "set_Y v s = cpu_update_zn_flags v (s\<lparr>rY := v\<rparr>)"

text \<open>\<open>memory_writeb (op_address, v)\<close>.\<close>

definition store :: "u8 \<Rightarrow> nes \<Rightarrow> abort + nes" where
  "store v s = memory_writeb (word_of_int (op_address s)) v s"

definition cpu_op_adc :: "nes \<Rightarrow> abort + nes" where
  "cpu_op_adc s =
     (let a = uint (rA s); result = a + op_value s + (if cpu_flag_set carry_bp s then 1 else 0);
          s = cpu_modify_flag carry_bp (result AND 0x100 \<noteq> 0) s;
          s = cpu_modify_flag overflow_bp (NOT (a XOR op_value s) AND (a XOR result) AND 0x80 \<noteq> 0) s
      in Inr (set_A (word_of_int (result AND 0xFF)) s))"

definition cpu_op_sbc :: "nes \<Rightarrow> abort + nes" where
  "cpu_op_sbc s =
     (let a = uint (rA s); result = a - op_value s - (if cpu_flag_set carry_bp s then 0 else 1);
          s = cpu_modify_flag carry_bp (result AND 0x100 = 0) s;
          s = cpu_modify_flag overflow_bp ((a XOR op_value s) AND (a XOR result) AND 0x80 \<noteq> 0) s
      in Inr (set_A (word_of_int (result AND 0xFF)) s))"

definition cpu_op_and :: "nes \<Rightarrow> abort + nes" where
  "cpu_op_and s = Inr (set_A (word_of_int (uint (rA s) AND op_value s)) s)"
definition cpu_op_bit :: "nes \<Rightarrow> abort + nes" where
  "cpu_op_bit s =
     (let s = cpu_modify_flag zero_bp (uint (rA s) AND op_value s = 0) s
      in Inr (s\<lparr>rP := (rP s AND 0x3F) OR word_of_int (0xC0 AND op_value s)\<rparr>))"
definition cpu_op_eor :: "nes \<Rightarrow> abort + nes" where
  "cpu_op_eor s = Inr (set_A (word_of_int (uint (rA s) XOR op_value s)) s)"
definition cpu_op_ora :: "nes \<Rightarrow> abort + nes" where
  "cpu_op_ora s = Inr (set_A (word_of_int (uint (rA s) OR op_value s)) s)"

definition cpu_op_asla :: "nes \<Rightarrow> abort + nes" where
  "cpu_op_asla s =
     (let s = cpu_modify_flag carry_bp (rA s AND 0x80 \<noteq> 0) s in Inr (set_A (push_bit 1 (rA s)) s))"

definition cpu_op_asl :: "nes \<Rightarrow> abort + nes" where
  "cpu_op_asl s =
     (let s = cpu_modify_flag carry_bp (op_value s AND 0x80 \<noteq> 0) s;
          s = s\<lparr>op_value := push_bit 1 (op_value s) AND 0xFF\<rparr>;
          s = cpu_update_zn_flags (word_of_int (op_value s)) s
      in store (word_of_int (op_value s)) s)"

definition cpu_op_lsra :: "nes \<Rightarrow> abort + nes" where
  "cpu_op_lsra s =
     (let v = drop_bit 1 (rA s); s = cpu_modify_flag carry_bp (rA s AND 1 \<noteq> 0) s in Inr (set_A v s))"

definition cpu_op_lsr :: "nes \<Rightarrow> abort + nes" where
  "cpu_op_lsr s =
     (let s = cpu_modify_flag carry_bp (op_value s AND 1 \<noteq> 0) s;
          s = s\<lparr>op_value := drop_bit 1 (op_value s) AND 0xFF\<rparr>
      in rbind (store (word_of_int (op_value s)) s) (\<lambda>s.
         Inr (cpu_update_zn_flags (word_of_int (op_value s)) s)))"

definition cpu_op_rola :: "nes \<Rightarrow> abort + nes" where
  "cpu_op_rola s =
     (let v = push_bit 1 (uint (rA s)) OR (if cpu_flag_set carry_bp s then 1 else 0);
          s = cpu_modify_flag carry_bp (v > 0xFF) s
      in Inr (set_A (word_of_int (v AND 0xFF)) s))"

definition cpu_op_rol :: "nes \<Rightarrow> abort + nes" where
  "cpu_op_rol s =
     (let s = s\<lparr>op_value := push_bit 1 (op_value s) OR (if cpu_flag_set carry_bp s then 1 else 0)\<rparr>;
          s = cpu_modify_flag carry_bp (op_value s > 0xFF) s;
          s = s\<lparr>op_value := op_value s AND 0xFF\<rparr>
      in rbind (store (word_of_int (op_value s)) s) (\<lambda>s.
         Inr (cpu_update_zn_flags (word_of_int (op_value s)) s)))"

definition cpu_op_rora :: "nes \<Rightarrow> abort + nes" where
  "cpu_op_rora s =
     (let carry = cpu_flag_set carry_bp s;
          s = cpu_modify_flag carry_bp (rA s AND 1 \<noteq> 0) s;
          s = s\<lparr>rA := drop_bit 1 (rA s) OR push_bit 7 (of_bool carry)\<rparr>;
          s = cpu_modify_flag zero_bp (rA s = 0) s
      in Inr (cpu_modify_flag negative_bp carry s))"

definition cpu_op_ror :: "nes \<Rightarrow> abort + nes" where
  "cpu_op_ror s =
     (let carry = cpu_flag_set carry_bp s;
          s = cpu_modify_flag carry_bp (op_value s AND 1 \<noteq> 0) s;
          s = s\<lparr>op_value := (drop_bit 1 (op_value s) OR push_bit 7 (of_bool carry)) AND 0xFF\<rparr>;
          s = cpu_modify_flag zero_bp (op_value s = 0) s;
          s = cpu_modify_flag negative_bp carry s
      in store (word_of_int (op_value s)) s)"

definition cpu_op_lda :: "nes \<Rightarrow> abort + nes" where "cpu_op_lda s = Inr (set_A (word_of_int (op_value s)) s)"
definition cpu_op_ldx :: "nes \<Rightarrow> abort + nes" where "cpu_op_ldx s = Inr (set_X (word_of_int (op_value s)) s)"
definition cpu_op_ldy :: "nes \<Rightarrow> abort + nes" where "cpu_op_ldy s = Inr (set_Y (word_of_int (op_value s)) s)"
definition cpu_op_sta :: "nes \<Rightarrow> abort + nes" where "cpu_op_sta s = store (rA s) s"
definition cpu_op_stx :: "nes \<Rightarrow> abort + nes" where "cpu_op_stx s = store (rX s) s"
definition cpu_op_sty :: "nes \<Rightarrow> abort + nes" where "cpu_op_sty s = store (rY s) s"
definition cpu_op_tax :: "nes \<Rightarrow> abort + nes" where "cpu_op_tax s = Inr (set_X (rA s) s)"
definition cpu_op_txa :: "nes \<Rightarrow> abort + nes" where "cpu_op_txa s = Inr (set_A (rX s) s)"
definition cpu_op_tay :: "nes \<Rightarrow> abort + nes" where "cpu_op_tay s = Inr (set_Y (rA s) s)"
definition cpu_op_tya :: "nes \<Rightarrow> abort + nes" where "cpu_op_tya s = Inr (set_A (rY s) s)"
definition cpu_op_tsx :: "nes \<Rightarrow> abort + nes" where "cpu_op_tsx s = Inr (set_X (rSP s) s)"
definition cpu_op_txs :: "nes \<Rightarrow> abort + nes" where "cpu_op_txs s = Inr (s\<lparr>rSP := rX s\<rparr>)"

definition cpu_op_bcs :: "nes \<Rightarrow> abort + nes" where "cpu_op_bcs s = Inr (cpu_branch (cpu_flag_set carry_bp s) s)"
definition cpu_op_beq :: "nes \<Rightarrow> abort + nes" where "cpu_op_beq s = Inr (cpu_branch (cpu_flag_set zero_bp s) s)"
definition cpu_op_bmi :: "nes \<Rightarrow> abort + nes" where "cpu_op_bmi s = Inr (cpu_branch (cpu_flag_set negative_bp s) s)"
definition cpu_op_bvs :: "nes \<Rightarrow> abort + nes" where "cpu_op_bvs s = Inr (cpu_branch (cpu_flag_set overflow_bp s) s)"
definition cpu_op_bne :: "nes \<Rightarrow> abort + nes" where "cpu_op_bne s = Inr (cpu_branch (\<not> cpu_flag_set zero_bp s) s)"
definition cpu_op_bcc :: "nes \<Rightarrow> abort + nes" where "cpu_op_bcc s = Inr (cpu_branch (\<not> cpu_flag_set carry_bp s) s)"
definition cpu_op_bpl :: "nes \<Rightarrow> abort + nes" where "cpu_op_bpl s = Inr (cpu_branch (\<not> cpu_flag_set negative_bp s) s)"
definition cpu_op_bvc :: "nes \<Rightarrow> abort + nes" where "cpu_op_bvc s = Inr (cpu_branch (\<not> cpu_flag_set overflow_bp s) s)"

definition cpu_op_jmp :: "nes \<Rightarrow> abort + nes" where "cpu_op_jmp s = Inr (s\<lparr>rPC := word_of_int (op_address s)\<rparr>)"
definition cpu_op_jsr :: "nes \<Rightarrow> abort + nes" where
  "cpu_op_jsr s = rbind (cpu_stack_pushw (rPC s - 1) s) (\<lambda>s. Inr (s\<lparr>rPC := word_of_int (op_address s)\<rparr>))"
definition cpu_op_rts :: "nes \<Rightarrow> abort + nes" where
  "cpu_op_rts s = rbind (cpu_stack_popw s) (\<lambda>(a, s). Inr (s\<lparr>rPC := a + 1\<rparr>))"

definition cpu_op_brk :: "nes \<Rightarrow> abort + nes" where
  "cpu_op_brk s =
     rbind (cpu_stack_pushw (rPC s - 1) s) (\<lambda>s.
     rbind (cpu_stack_pushb (rP s) s) (\<lambda>s.
     rbind (cpu_nmi_interrupt_address (s\<lparr>rP := rP s OR (unused_flag OR break_flag)\<rparr>)) (\<lambda>(a, s).
     Inr (s\<lparr>rPC := a\<rparr>))))"
definition cpu_op_rti :: "nes \<Rightarrow> abort + nes" where
  "cpu_op_rti s =
     rbind (cpu_stack_popb s) (\<lambda>(p, s).
     rbind (cpu_stack_popw (s\<lparr>rP := p OR unused_flag\<rparr>)) (\<lambda>(a, s). Inr (s\<lparr>rPC := a\<rparr>)))"

definition cpu_op_clc :: "nes \<Rightarrow> abort + nes" where "cpu_op_clc s = Inr (cpu_unset_flag carry_bp s)"
definition cpu_op_cld :: "nes \<Rightarrow> abort + nes" where "cpu_op_cld s = Inr (cpu_unset_flag decimal_bp s)"
definition cpu_op_cli :: "nes \<Rightarrow> abort + nes" where "cpu_op_cli s = Inr (cpu_unset_flag interrupt_bp s)"
definition cpu_op_clv :: "nes \<Rightarrow> abort + nes" where "cpu_op_clv s = Inr (cpu_unset_flag overflow_bp s)"
definition cpu_op_sec :: "nes \<Rightarrow> abort + nes" where "cpu_op_sec s = Inr (cpu_set_flag carry_bp s)"
definition cpu_op_sed :: "nes \<Rightarrow> abort + nes" where "cpu_op_sed s = Inr (cpu_set_flag decimal_bp s)"
definition cpu_op_sei :: "nes \<Rightarrow> abort + nes" where "cpu_op_sei s = Inr (cpu_set_flag interrupt_bp s)"

definition cpu_op_cmp :: "nes \<Rightarrow> abort + nes" where "cpu_op_cmp s = Inr (cpu_compare (rA s) s)"
definition cpu_op_cpx :: "nes \<Rightarrow> abort + nes" where "cpu_op_cpx s = Inr (cpu_compare (rX s) s)"
definition cpu_op_cpy :: "nes \<Rightarrow> abort + nes" where "cpu_op_cpy s = Inr (cpu_compare (rY s) s)"

definition cpu_op_inc :: "nes \<Rightarrow> abort + nes" where
  "cpu_op_inc s =
     (let result = word_of_int (op_value s + 1)
      in rbind (store result s) (\<lambda>s. Inr (cpu_update_zn_flags result s)))"
definition cpu_op_inx :: "nes \<Rightarrow> abort + nes" where "cpu_op_inx s = Inr (set_X (rX s + 1) s)"
definition cpu_op_iny :: "nes \<Rightarrow> abort + nes" where "cpu_op_iny s = Inr (set_Y (rY s + 1) s)"
definition cpu_op_dec :: "nes \<Rightarrow> abort + nes" where
  "cpu_op_dec s =
     (let result = word_of_int (op_value s - 1)
      in rbind (store result s) (\<lambda>s. Inr (cpu_update_zn_flags result s)))"
definition cpu_op_dex :: "nes \<Rightarrow> abort + nes" where "cpu_op_dex s = Inr (set_X (rX s - 1) s)"
definition cpu_op_dey :: "nes \<Rightarrow> abort + nes" where "cpu_op_dey s = Inr (set_Y (rY s - 1) s)"

definition cpu_op_php :: "nes \<Rightarrow> abort + nes" where "cpu_op_php s = cpu_stack_pushb (rP s OR 0x30) s"
definition cpu_op_pha :: "nes \<Rightarrow> abort + nes" where "cpu_op_pha s = cpu_stack_pushb (rA s) s"
definition cpu_op_pla :: "nes \<Rightarrow> abort + nes" where
  "cpu_op_pla s = rbind (cpu_stack_popb s) (\<lambda>(v, s). Inr (set_A v s))"
definition cpu_op_plp :: "nes \<Rightarrow> abort + nes" where
  "cpu_op_plp s = rbind (cpu_stack_popb s) (\<lambda>(v, s). Inr (s\<lparr>rP := (v AND 0xEF) OR 0x20\<rparr>))"

definition cpu_op_aso :: "nes \<Rightarrow> abort + nes" where "cpu_op_aso s = rbind (cpu_op_asl s) cpu_op_ora"
definition cpu_op_axa :: "nes \<Rightarrow> abort + nes" where
  "cpu_op_axa s = store (word_of_int (uint (rA s AND rX s) AND drop_bit 8 (op_address s))) s"
definition cpu_op_axs :: "nes \<Rightarrow> abort + nes" where "cpu_op_axs s = store (rA s AND rX s) s"
definition cpu_op_dcm :: "nes \<Rightarrow> abort + nes" where
  "cpu_op_dcm s =
     (let s = s\<lparr>op_value := (op_value s - 1) AND 0xFF\<rparr> in rbind (store (word_of_int (op_value s)) s) cpu_op_cmp)"
definition cpu_op_ins :: "nes \<Rightarrow> abort + nes" where
  "cpu_op_ins s =
     (let s = s\<lparr>op_value := (op_value s + 1) AND 0xFF\<rparr> in rbind (store (word_of_int (op_value s)) s) cpu_op_sbc)"
definition cpu_op_lax :: "nes \<Rightarrow> abort + nes" where
  "cpu_op_lax s = (let s = s\<lparr>rX := word_of_int (op_value s)\<rparr> in Inr (set_A (rX s) s))"
definition cpu_op_lse :: "nes \<Rightarrow> abort + nes" where "cpu_op_lse s = rbind (cpu_op_lsr s) cpu_op_eor"
definition cpu_op_rla :: "nes \<Rightarrow> abort + nes" where "cpu_op_rla s = rbind (cpu_op_rol s) cpu_op_and"
definition cpu_op_rra :: "nes \<Rightarrow> abort + nes" where "cpu_op_rra s = rbind (cpu_op_ror s) cpu_op_adc"

section \<open>Opcode tables\<close>

text \<open>The entries \<open>cpu_init\<close> makes: opcode, cycles, handler and addressing mode; first the base
  instruction set, then the extended one, then the instructions not implemented.\<close>

type_synonym op_entry = "u8 \<times> int \<times> (nes \<Rightarrow> abort + nes) \<times> (nes \<Rightarrow> abort + nes)"

definition base_instructions :: "op_entry list" where
  "base_instructions =
    [(0x00, 7, cpu_op_brk, cpu_address_implied), (0x01, 6, cpu_op_ora, cpu_address_indirect_x), (0x05, 3, cpu_op_ora, cpu_address_zero_page),
     (0x06, 5, cpu_op_asl, cpu_address_zero_page), (0x08, 3, cpu_op_php, cpu_address_implied), (0x09, 2, cpu_op_ora, cpu_address_immediate),
     (0x0A, 2, cpu_op_asla, cpu_address_implied), (0x0D, 4, cpu_op_ora, cpu_address_absolute), (0x0E, 6, cpu_op_asl, cpu_address_absolute),
     (0x10, 2, cpu_op_bpl, cpu_address_relative), (0x11, 5, cpu_op_ora, cpu_address_indirect_y), (0x15, 4, cpu_op_ora, cpu_address_zero_page_x),
     (0x16, 6, cpu_op_asl, cpu_address_zero_page_x), (0x18, 2, cpu_op_clc, cpu_address_implied), (0x19, 4, cpu_op_ora, cpu_address_absolute_y),
     (0x1D, 4, cpu_op_ora, cpu_address_absolute_x), (0x1E, 7, cpu_op_asl, cpu_address_absolute_x), (0x20, 6, cpu_op_jsr, cpu_address_absolute),
     (0x21, 6, cpu_op_and, cpu_address_indirect_x), (0x24, 3, cpu_op_bit, cpu_address_zero_page), (0x25, 3, cpu_op_and, cpu_address_zero_page),
     (0x26, 5, cpu_op_rol, cpu_address_zero_page), (0x28, 4, cpu_op_plp, cpu_address_implied), (0x29, 2, cpu_op_and, cpu_address_immediate),
     (0x2A, 2, cpu_op_rola, cpu_address_implied), (0x2C, 4, cpu_op_bit, cpu_address_absolute), (0x2D, 2, cpu_op_and, cpu_address_absolute),
     (0x2E, 6, cpu_op_rol, cpu_address_absolute), (0x30, 2, cpu_op_bmi, cpu_address_relative), (0x31, 5, cpu_op_and, cpu_address_indirect_y),
     (0x35, 4, cpu_op_and, cpu_address_zero_page_x), (0x36, 6, cpu_op_rol, cpu_address_zero_page_x), (0x38, 2, cpu_op_sec, cpu_address_implied),
     (0x39, 4, cpu_op_and, cpu_address_absolute_y), (0x3D, 4, cpu_op_and, cpu_address_absolute_x), (0x3E, 7, cpu_op_rol, cpu_address_absolute_x),
     (0x40, 6, cpu_op_rti, cpu_address_implied), (0x41, 6, cpu_op_eor, cpu_address_indirect_x), (0x45, 3, cpu_op_eor, cpu_address_zero_page),
     (0x46, 5, cpu_op_lsr, cpu_address_zero_page), (0x48, 3, cpu_op_pha, cpu_address_implied), (0x49, 2, cpu_op_eor, cpu_address_immediate),
     (0x4A, 2, cpu_op_lsra, cpu_address_implied), (0x4C, 3, cpu_op_jmp, cpu_address_absolute), (0x4D, 4, cpu_op_eor, cpu_address_absolute),
     (0x4E, 6, cpu_op_lsr, cpu_address_absolute), (0x50, 2, cpu_op_bvc, cpu_address_relative), (0x51, 5, cpu_op_eor, cpu_address_indirect_y),
     (0x55, 4, cpu_op_eor, cpu_address_zero_page_x), (0x56, 6, cpu_op_lsr, cpu_address_zero_page_x), (0x58, 2, cpu_op_cli, cpu_address_implied),
     (0x59, 4, cpu_op_eor, cpu_address_absolute_y), (0x5D, 4, cpu_op_eor, cpu_address_absolute_x), (0x5E, 7, cpu_op_lsr, cpu_address_absolute_x),
     (0x60, 6, cpu_op_rts, cpu_address_implied), (0x61, 6, cpu_op_adc, cpu_address_indirect_x), (0x65, 3, cpu_op_adc, cpu_address_zero_page),
     (0x66, 5, cpu_op_ror, cpu_address_zero_page), (0x68, 4, cpu_op_pla, cpu_address_implied), (0x69, 2, cpu_op_adc, cpu_address_immediate),
     (0x6A, 2, cpu_op_rora, cpu_address_implied), (0x6C, 5, cpu_op_jmp, cpu_address_indirect), (0x6D, 4, cpu_op_adc, cpu_address_absolute),
     (0x6E, 6, cpu_op_ror, cpu_address_absolute), (0x70, 2, cpu_op_bvs, cpu_address_relative), (0x71, 5, cpu_op_adc, cpu_address_indirect_y),
     (0x75, 4, cpu_op_adc, cpu_address_zero_page_x), (0x76, 6, cpu_op_ror, cpu_address_zero_page_x), (0x78, 2, cpu_op_sei, cpu_address_implied),
     (0x79, 4, cpu_op_adc, cpu_address_absolute_y), (0x7D, 4, cpu_op_adc, cpu_address_absolute_x), (0x7E, 7, cpu_op_ror, cpu_address_absolute_x),
     (0x81, 6, cpu_op_sta, cpu_address_indirect_x), (0x84, 3, cpu_op_sty, cpu_address_zero_page), (0x85, 3, cpu_op_sta, cpu_address_zero_page),
     (0x86, 3, cpu_op_stx, cpu_address_zero_page), (0x88, 2, cpu_op_dey, cpu_address_implied), (0x8A, 2, cpu_op_txa, cpu_address_implied),
     (0x8C, 4, cpu_op_sty, cpu_address_absolute), (0x8D, 4, cpu_op_sta, cpu_address_absolute), (0x8E, 4, cpu_op_stx, cpu_address_absolute),
     (0x90, 2, cpu_op_bcc, cpu_address_relative), (0x91, 6, cpu_op_sta, cpu_address_indirect_y), (0x94, 4, cpu_op_sty, cpu_address_zero_page_x),
     (0x95, 4, cpu_op_sta, cpu_address_zero_page_x), (0x96, 4, cpu_op_stx, cpu_address_zero_page_y), (0x98, 2, cpu_op_tya, cpu_address_implied),
     (0x99, 5, cpu_op_sta, cpu_address_absolute_y), (0x9A, 2, cpu_op_txs, cpu_address_implied), (0x9D, 5, cpu_op_sta, cpu_address_absolute_x),
     (0xA0, 2, cpu_op_ldy, cpu_address_immediate), (0xA1, 6, cpu_op_lda, cpu_address_indirect_x), (0xA2, 2, cpu_op_ldx, cpu_address_immediate),
     (0xA4, 3, cpu_op_ldy, cpu_address_zero_page), (0xA5, 3, cpu_op_lda, cpu_address_zero_page), (0xA6, 3, cpu_op_ldx, cpu_address_zero_page),
     (0xA8, 2, cpu_op_tay, cpu_address_implied), (0xA9, 2, cpu_op_lda, cpu_address_immediate), (0xAA, 2, cpu_op_tax, cpu_address_implied),
     (0xAC, 4, cpu_op_ldy, cpu_address_absolute), (0xAD, 4, cpu_op_lda, cpu_address_absolute), (0xAE, 4, cpu_op_ldx, cpu_address_absolute),
     (0xB0, 2, cpu_op_bcs, cpu_address_relative), (0xB1, 5, cpu_op_lda, cpu_address_indirect_y), (0xB4, 4, cpu_op_ldy, cpu_address_zero_page_x),
     (0xB5, 4, cpu_op_lda, cpu_address_zero_page_x), (0xB6, 4, cpu_op_ldx, cpu_address_zero_page_y), (0xB8, 2, cpu_op_clv, cpu_address_implied),
     (0xB9, 4, cpu_op_lda, cpu_address_absolute_y), (0xBA, 2, cpu_op_tsx, cpu_address_implied), (0xBC, 4, cpu_op_ldy, cpu_address_absolute_x),
     (0xBD, 4, cpu_op_lda, cpu_address_absolute_x), (0xBE, 4, cpu_op_ldx, cpu_address_absolute_y), (0xC0, 2, cpu_op_cpy, cpu_address_immediate),
     (0xC1, 6, cpu_op_cmp, cpu_address_indirect_x), (0xC4, 3, cpu_op_cpy, cpu_address_zero_page), (0xC5, 3, cpu_op_cmp, cpu_address_zero_page),
     (0xC6, 5, cpu_op_dec, cpu_address_zero_page), (0xC8, 2, cpu_op_iny, cpu_address_implied), (0xC9, 2, cpu_op_cmp, cpu_address_immediate),
     (0xCA, 2, cpu_op_dex, cpu_address_implied), (0xCC, 4, cpu_op_cpy, cpu_address_absolute), (0xCD, 4, cpu_op_cmp, cpu_address_absolute),
     (0xCE, 6, cpu_op_dec, cpu_address_absolute), (0xD0, 2, cpu_op_bne, cpu_address_relative), (0xD1, 5, cpu_op_cmp, cpu_address_indirect_y),
     (0xD5, 4, cpu_op_cmp, cpu_address_zero_page_x), (0xD6, 6, cpu_op_dec, cpu_address_zero_page_x), (0xD8, 2, cpu_op_cld, cpu_address_implied),
     (0xD9, 4, cpu_op_cmp, cpu_address_absolute_y), (0xDD, 4, cpu_op_cmp, cpu_address_absolute_x), (0xDE, 7, cpu_op_dec, cpu_address_absolute_x),
     (0xE0, 2, cpu_op_cpx, cpu_address_immediate), (0xE1, 6, cpu_op_sbc, cpu_address_indirect_x), (0xE4, 3, cpu_op_cpx, cpu_address_zero_page),
     (0xE5, 3, cpu_op_sbc, cpu_address_zero_page), (0xE6, 5, cpu_op_inc, cpu_address_zero_page), (0xE8, 2, cpu_op_inx, cpu_address_implied),
     (0xE9, 2, cpu_op_sbc, cpu_address_immediate), (0xEA, 2, cpu_op_nop, cpu_address_implied), (0xEC, 4, cpu_op_cpx, cpu_address_absolute),
     (0xED, 4, cpu_op_sbc, cpu_address_absolute), (0xEE, 6, cpu_op_inc, cpu_address_absolute), (0xF0, 2, cpu_op_beq, cpu_address_relative),
     (0xF1, 5, cpu_op_sbc, cpu_address_indirect_y), (0xF5, 4, cpu_op_sbc, cpu_address_zero_page_x), (0xF6, 6, cpu_op_inc, cpu_address_zero_page_x),
     (0xF8, 2, cpu_op_sed, cpu_address_implied), (0xF9, 4, cpu_op_sbc, cpu_address_absolute_y), (0xFD, 4, cpu_op_sbc, cpu_address_absolute_x),
     (0xFE, 7, cpu_op_inc, cpu_address_absolute_x)]"

definition extended_instructions :: "op_entry list" where
  "extended_instructions =
    [(0x03, 8, cpu_op_aso, cpu_address_indirect_x), (0x07, 5, cpu_op_aso, cpu_address_zero_page), (0x0F, 6, cpu_op_aso, cpu_address_absolute),
     (0x13, 8, cpu_op_aso, cpu_address_indirect_y), (0x17, 6, cpu_op_aso, cpu_address_zero_page_x), (0x1B, 7, cpu_op_aso, cpu_address_absolute_y),
     (0x1F, 7, cpu_op_aso, cpu_address_absolute_x), (0x23, 8, cpu_op_rla, cpu_address_indirect_x), (0x27, 5, cpu_op_rla, cpu_address_zero_page),
     (0x2F, 6, cpu_op_rla, cpu_address_absolute), (0x33, 8, cpu_op_rla, cpu_address_indirect_y), (0x37, 6, cpu_op_rla, cpu_address_zero_page_x),
     (0x3B, 7, cpu_op_rla, cpu_address_absolute_y), (0x3F, 7, cpu_op_rla, cpu_address_absolute_x), (0x43, 8, cpu_op_lse, cpu_address_indirect_x),
     (0x47, 5, cpu_op_lse, cpu_address_zero_page), (0x4F, 6, cpu_op_lse, cpu_address_absolute), (0x53, 8, cpu_op_lse, cpu_address_indirect_y),
     (0x57, 6, cpu_op_lse, cpu_address_zero_page_x), (0x5B, 7, cpu_op_lse, cpu_address_absolute_y), (0x5F, 7, cpu_op_lse, cpu_address_absolute_x),
     (0x63, 8, cpu_op_rra, cpu_address_indirect_x), (0x67, 5, cpu_op_rra, cpu_address_zero_page), (0x6F, 6, cpu_op_rra, cpu_address_absolute),
     (0x73, 8, cpu_op_rra, cpu_address_indirect_y), (0x77, 6, cpu_op_rra, cpu_address_zero_page_x), (0x7B, 7, cpu_op_rra, cpu_address_absolute_y),
     (0x7F, 7, cpu_op_rra, cpu_address_absolute_x), (0x83, 6, cpu_op_axs, cpu_address_indirect_x), (0x87, 3, cpu_op_axs, cpu_address_zero_page),
     (0x8F, 4, cpu_op_axs, cpu_address_absolute), (0x93, 6, cpu_op_axa, cpu_address_indirect_y), (0x97, 4, cpu_op_axs, cpu_address_zero_page_y),
     (0x9F, 5, cpu_op_axa, cpu_address_absolute_y), (0xA3, 6, cpu_op_lax, cpu_address_indirect_x), (0xA7, 3, cpu_op_lax, cpu_address_zero_page),
     (0xAF, 4, cpu_op_lax, cpu_address_absolute), (0xB3, 5, cpu_op_lax, cpu_address_indirect_y), (0xB7, 4, cpu_op_lax, cpu_address_zero_page_y),
     (0xBF, 4, cpu_op_lax, cpu_address_absolute_y), (0xC3, 8, cpu_op_dcm, cpu_address_indirect_x), (0xC7, 5, cpu_op_dcm, cpu_address_zero_page),
     (0xCF, 6, cpu_op_dcm, cpu_address_absolute), (0xD3, 8, cpu_op_dcm, cpu_address_indirect_y), (0xD7, 6, cpu_op_dcm, cpu_address_zero_page_x),
     (0xDB, 7, cpu_op_dcm, cpu_address_absolute_y), (0xDF, 7, cpu_op_dcm, cpu_address_absolute_x), (0xE3, 8, cpu_op_ins, cpu_address_indirect_x),
     (0xE7, 5, cpu_op_ins, cpu_address_zero_page), (0xEB, 2, cpu_op_sbc, cpu_address_immediate), (0xEF, 6, cpu_op_ins, cpu_address_absolute),
     (0xF3, 8, cpu_op_ins, cpu_address_indirect_y), (0xF7, 6, cpu_op_ins, cpu_address_zero_page_x), (0xFB, 7, cpu_op_ins, cpu_address_absolute_y),
     (0xFF, 7, cpu_op_ins, cpu_address_absolute_x)]"

definition not_implemented :: "op_entry list" where
  "not_implemented =
    [(0x04, 1, FE_op, cpu_address_zero_page), (0x0C, 1, FE_op, cpu_address_absolute), (0x14, 1, FE_op, cpu_address_zero_page_x),
     (0x1A, 1, FE_op, cpu_address_implied), (0x1C, 1, FE_op, cpu_address_absolute_x), (0x34, 1, FE_op, cpu_address_zero_page_x),
     (0x3A, 1, FE_op, cpu_address_implied), (0x3C, 1, FE_op, cpu_address_absolute_x), (0x44, 1, FE_op, cpu_address_zero_page),
     (0x54, 1, FE_op, cpu_address_zero_page_x), (0x5A, 1, FE_op, cpu_address_implied), (0x5C, 1, FE_op, cpu_address_absolute_x),
     (0x64, 1, FE_op, cpu_address_zero_page), (0x74, 1, FE_op, cpu_address_zero_page_x), (0x7A, 1, FE_op, cpu_address_implied),
     (0x7C, 1, FE_op, cpu_address_absolute_x), (0x80, 1, FE_op, cpu_address_immediate), (0xD4, 1, FE_op, cpu_address_zero_page_x),
     (0xDA, 1, FE_op, cpu_address_implied), (0xDC, 1, FE_op, cpu_address_absolute_x), (0xF4, 1, FE_op, cpu_address_zero_page_x),
     (0xFA, 1, FE_op, cpu_address_implied), (0xFC, 1, FE_op, cpu_address_absolute_x)]"

definition op_table :: "op_entry list" where
  "op_table = base_instructions @ extended_instructions @ not_implemented"

text \<open>\<open>cpu_op_address_mode [o]\<close> with its handler and cycles; \<open>None\<close> for a null pointer.\<close>

definition op_lookup :: "u8 \<Rightarrow> (int \<times> (nes \<Rightarrow> abort + nes) \<times> (nes \<Rightarrow> abort + nes)) option" where
  "op_lookup opc = map_of op_table opc"

section \<open>Life cycle\<close>

definition cpu_init :: "nes \<Rightarrow> nes" where
  "cpu_init s = s\<lparr>rP := 0x24, rSP := 0, rA := 0, rX := 0, rY := 0\<rparr>"

definition cpu_reset :: "nes \<Rightarrow> abort + nes" where
  "cpu_reset s =
     rbind (cpu_reset_interrupt_address s) (\<lambda>(a, s).
       Inr (s\<lparr>rPC := a, rSP := rSP s - 3, rP := rP s OR interrupt_flag\<rparr>))"

definition cpu_interrupt :: "nes \<Rightarrow> abort + nes" where
  "cpu_interrupt s =
     (if ppu_generates_nmi s then
        let s = cpu_unset_flag unused_bp (s\<lparr>rP := rP s OR interrupt_flag\<rparr>) in
        rbind (cpu_stack_pushw (rPC s) s) (\<lambda>s.
        rbind (cpu_stack_pushb (rP s) s) (\<lambda>s.
        rbind (cpu_nmi_interrupt_address s) (\<lambda>(a, s). Inr (s\<lparr>rPC := a\<rparr>))))
      else Inr s)"

definition cpu_clock :: "nes \<Rightarrow> u64" where "cpu_clock s = cpu_cycles s"

text \<open>One iteration of \<open>cpu_run\<close>: the cycles it took, and the machine after it.\<close>

definition cpu_step :: "nes \<Rightarrow> abort + int \<times> nes" where
  "cpu_step s =
     rbind (memory_readb (rPC s) (s\<lparr>rPC := rPC s + 1\<rparr>)) (\<lambda>(op_code, s).
     rbind (case op_lookup op_code of
              None \<Rightarrow> Inr (0, s)
            | Some (n, handler, mode) \<Rightarrow> rbind (rbind (mode s) handler) (\<lambda>s. Inr (n, s)))
       (\<lambda>(n, s). Inr (n + op_cycles s,
                      s\<lparr>cpu_cycles := cpu_cycles s - word_of_int (n + op_cycles s), op_cycles := 0\<rparr>)))"

partial_function (option) cpu_loop :: "int \<Rightarrow> nes \<Rightarrow> (abort + nes) option" where
  "cpu_loop cycles s =
     (if cycles > 0
      then (case cpu_step s of Inl e \<Rightarrow> Some (Inl e) | Inr (n, s) \<Rightarrow> cpu_loop (cycles - n) s)
      else Some (Inr s))"

definition cpu_run :: "int \<Rightarrow> nes \<Rightarrow> (abort + nes) option" where
  "cpu_run cycles s = cpu_loop (if cycles < 0 then - (- cycles div 3) else cycles div 3) s"

end
