(* ===== verification/NesSafe.thy ===== *)
theory NesSafe imports NesCpu begin

text \<open>
  No 6502 program makes LiteNES access memory out of bounds: the invariant of the machine, and that
  every memory access, addressing mode and instruction keeps it and returns, for a cartridge
  without a mapper.
\<close>

unbundle bit_operations_syntax

section \<open>The invariant\<close>

text \<open>The invariant of the machine while its clock stands at \<open>k\<close>.\<close>

definition nes_inv :: "u64 \<Rightarrow> nes \<Rightarrow> bool" where
  "nes_inv k s \<longleftrightarrow> cpu_cycles s = k \<and> mmc_id s = 0 \<and> mirroring_xor s \<in> {0, 0x400, 0x800} \<and> 0 \<le> op_cycles s"

text \<open>An operation that returns a good state, and one that also returns a value.\<close>

definition good :: "u64 \<Rightarrow> abort + nes \<Rightarrow> bool" where
  "good k r \<longleftrightarrow> (case r of Inl e \<Rightarrow> False | Inr s \<Rightarrow> nes_inv k s)"

definition goodv :: "u64 \<Rightarrow> abort + 'v \<times> nes \<Rightarrow> bool" where
  "goodv k r \<longleftrightarrow> (case r of Inl e \<Rightarrow> False | Inr (v, s) \<Rightarrow> nes_inv k s)"

lemma good_simps [simp]: "good k (Inr s) = nes_inv k s" "goodv k (Inr (v, s)) = nes_inv k s" "\<not> good k (Inl e)" "\<not> goodv k (Inl e)"
  by (simp_all add: good_def goodv_def)

lemma goodv_Inr: "goodv k (Inr p) = nes_inv k (snd p)"
  by (cases p) simp

lemma good_bind: "good k r \<Longrightarrow> (\<And>s. nes_inv k s \<Longrightarrow> good k (f s)) \<Longrightarrow> good k (rbind r f)"
  by (cases r) auto

lemma good_bindv: "goodv k r \<Longrightarrow> (\<And>v s. nes_inv k s \<Longrightarrow> good k (f (v, s))) \<Longrightarrow> good k (rbind r f)"
  by (cases r) (auto simp: goodv_def)

lemma goodv_bind: "good k r \<Longrightarrow> (\<And>s. nes_inv k s \<Longrightarrow> goodv k (f s)) \<Longrightarrow> goodv k (rbind r f)"
  by (cases r) auto

lemma goodv_bindv: "goodv k r \<Longrightarrow> (\<And>v s. nes_inv k s \<Longrightarrow> goodv k (f (v, s))) \<Longrightarrow> goodv k (rbind r f)"
  by (cases r) (auto simp: goodv_def)

lemmas good_binds = good_bind good_bindv goodv_bind goodv_bindv

lemma nes_inv_updates [simp]:
  "nes_inv k (s\<lparr>rPC := a\<rparr>) = nes_inv k s" "nes_inv k (s\<lparr>rSP := b\<rparr>) = nes_inv k s" "nes_inv k (s\<lparr>rA := b\<rparr>) = nes_inv k s"
  "nes_inv k (s\<lparr>rX := b\<rparr>) = nes_inv k s" "nes_inv k (s\<lparr>rY := b\<rparr>) = nes_inv k s" "nes_inv k (s\<lparr>rP := b\<rparr>) = nes_inv k s"
  "nes_inv k (s\<lparr>CPU_RAM := m\<rparr>) = nes_inv k s" "nes_inv k (s\<lparr>op_value := i\<rparr>) = nes_inv k s"
  "nes_inv k (s\<lparr>op_address := i\<rparr>) = nes_inv k s" "nes_inv k (s\<lparr>cpu_cycles := c\<rparr>) \<longleftrightarrow> k = c \<and> nes_inv (cpu_cycles s) s"
  "nes_inv k (s\<lparr>cart := m\<rparr>) = nes_inv k s" "nes_inv k (s\<lparr>PPUCTRL := b\<rparr>) = nes_inv k s"
  "nes_inv k (s\<lparr>PPUMASK := b\<rparr>) = nes_inv k s" "nes_inv k (s\<lparr>PPUSTATUS := b\<rparr>) = nes_inv k s"
  "nes_inv k (s\<lparr>OAMADDR := b\<rparr>) = nes_inv k s" "nes_inv k (s\<lparr>PPUSCROLL := a\<rparr>) = nes_inv k s"
  "nes_inv k (s\<lparr>PPUSCROLL_X := b\<rparr>) = nes_inv k s" "nes_inv k (s\<lparr>PPUSCROLL_Y := b\<rparr>) = nes_inv k s"
  "nes_inv k (s\<lparr>PPUADDR := a\<rparr>) = nes_inv k s" "nes_inv k (s\<lparr>scroll_received_x := f\<rparr>) = nes_inv k s"
  "nes_inv k (s\<lparr>addr_received_high_byte := f\<rparr>) = nes_inv k s" "nes_inv k (s\<lparr>ppu_2007_first_read := f\<rparr>) = nes_inv k s"
  "nes_inv k (s\<lparr>ppu_addr_latch := b\<rparr>) = nes_inv k s" "nes_inv k (s\<lparr>PPU_SPRRAM := r\<rparr>) = nes_inv k s"
  "nes_inv k (s\<lparr>PPU_RAM := p\<rparr>) = nes_inv k s" "nes_inv k (s\<lparr>ppu_latch := b\<rparr>) = nes_inv k s"
  "nes_inv k (s\<lparr>joy_p := i\<rparr>) = nes_inv k s" "nes_inv k (s\<lparr>prev_write := b\<rparr>) = nes_inv k s"
  "nes_inv k s \<Longrightarrow> nes_inv k (s\<lparr>op_cycles := op_cycles s + 1\<rparr>)" "nes_inv k s \<Longrightarrow> nes_inv k (s\<lparr>op_cycles := 0\<rparr>)"
  by (auto simp: nes_inv_def)

section \<open>Video memory and ports\<close>

lemma masked_addr: "unat (x AND 0x3FFF) < 0x4000" for x :: u16
  using unat_and_mask [of x 14] by (simp add: mask_eq_exp_minus_1)

lemma real_address_bound: "unat a < 0x4000 \<Longrightarrow> unat (ppu_get_real_ram_address a) < 0x4000"
proof -
  assume a: "unat a < 0x4000"
  have m: "0x3F00 OR (a AND 0x1F) \<le> (0x3FFF :: u16)"
  proof -
    have "(0x3F00 OR (a AND 0x1F)) AND 0x3FFF = 0x3F00 OR (a AND 0x1F)"
      by (simp add: bit.conj_disj_distrib2 and.assoc)
    then show ?thesis using masked_addr [of "0x3F00 OR (a AND 0x1F)"] by (simp add: word_le_nat_alt)
  qed
  have "unat (0x3F00 OR (a AND 0x1F) :: u16) < 0x4000" using m by (simp add: word_le_nat_alt)
  with a show ?thesis
    by (auto simp: ppu_get_real_ram_address_def Let_def word_less_nat_alt)
qed

lemma ram_write_ok: "unat a < 0x4000 \<Longrightarrow> \<exists>p. ppu_ram_write a v s = Inr (s\<lparr>PPU_RAM := p\<rparr>)"
  by (auto simp: ppu_ram_write_def Let_def real_address_bound)

lemma ram_read_ok: "unat a < 0x4000 \<Longrightarrow> \<exists>v. ppu_ram_read a s = Inr v"
  by (simp add: ppu_ram_read_def Let_def real_address_bound)


lemma xor_addr:
  fixes x :: u16
  assumes "k \<in> {0, 0x400, 0x800}"
  shows "unat (word_of_int (uint (x AND 0x3FFF) XOR k) :: u16) < 0x4000"
proof -
  have m: "(0x3FFF :: u16) = mask 14" by (simp add: mask_eq_exp_minus_1)
  have "word_of_int (uint (x AND 0x3FFF) XOR k) = (x AND 0x3FFF) XOR word_of_int k"
    by (rule bit_word_eqI) (simp add: bit_simps)
  moreover have "(word_of_int k :: u16) AND mask 14 = word_of_int k"
    using assms by (auto simp: mask_eq_exp_minus_1)
  then have "((x AND 0x3FFF) XOR word_of_int k) AND mask 14 = (x AND 0x3FFF) XOR word_of_int k"
    unfolding m by (simp add: bit.conj_xor_distrib2 and.assoc)
  ultimately show ?thesis using unat_and_mask [of "(x AND 0x3FFF) XOR word_of_int k" 14] by simp
qed

lemma inv_xor: "nes_inv k s \<Longrightarrow> mirroring_xor s \<in> {0, 0x400, 0x800}"
  by (simp add: nes_inv_def)

lemma good_ppuio_read: "nes_inv k s \<Longrightarrow> goodv k (ppuio_read a s)"
proof -
  assume i: "nes_inv k s"
  define t where "t = s\<lparr>PPUADDR := PPUADDR s AND 0x3FFF\<rparr>"
  obtain v where v: "ppu_ram_read (PPUADDR t) t = Inr v"
    using ram_read_ok [OF masked_addr, of "PPUADDR s" t] by (auto simp: t_def)
  have "nes_inv k t" using i by (simp add: t_def)
  then show ?thesis
    unfolding ppuio_read_def t_def [symmetric]
    by (simp add: Let_def ppu_set_sprite_0_hit_def ppu_set_in_vblank_def v)
qed

lemma good_ppuio_write: "nes_inv k s \<Longrightarrow> good k (ppuio_write a v s)"
proof -
  assume i: "nes_inv k s"
  define t where "t = s\<lparr>ppu_latch := v, PPUADDR := PPUADDR s AND 0x3FFF\<rparr>"
  have t: "nes_inv k t" "PPUADDR t = PPUADDR s AND 0x3FFF" "mirroring_xor t = mirroring_xor s"
    using i by (simp_all add: t_def)
  obtain p where p: "ppu_ram_write (word_of_int (uint (PPUADDR t) XOR mirroring_xor t)) v t = Inr (t\<lparr>PPU_RAM := p\<rparr>)"
    using ram_write_ok [OF xor_addr [OF inv_xor [OF i]], of "PPUADDR s" v t] unfolding t(2,3) by blast
  obtain q where q: "ppu_ram_write (PPUADDR t) v (t\<lparr>PPU_RAM := p\<rparr>) = Inr (t\<lparr>PPU_RAM := q\<rparr>)"
    using ram_write_ok [OF masked_addr, of "PPUADDR s" v "t\<lparr>PPU_RAM := p\<rparr>"] unfolding t(2) by auto
  obtain r where r: "ppu_ram_write (PPUADDR t) v t = Inr (t\<lparr>PPU_RAM := r\<rparr>)"
    using ram_write_ok [OF masked_addr, of "PPUADDR s" v t] unfolding t(2) by auto
  show ?thesis
    unfolding ppuio_write_def t_def [symmetric]
    using t(1) by (simp add: Let_def ppu_sprram_write_def p q r)
qed

section \<open>The memory map\<close>

lemma good_readb [inv_intros]: "nes_inv k s \<Longrightarrow> goodv k (memory_readb a s)"
  by (simp add: memory_readb_def Let_def good_ppuio_read goodv_Inr psgio_read_def)

lemma good_dma: "nes_inv k s \<Longrightarrow> good k (run_ops (dma v) xs s)"
proof (induction xs arbitrary: s)
  case (Cons x xs)
  then show ?case by (simp add: dma_def ppu_sprram_write_def)
qed simp

lemma good_mmc_write: "nes_inv k s \<Longrightarrow> good k (mmc_write a v s)"
  by (auto simp: mmc_write_def nes_inv_def)

lemma good_writeb [inv_intros]: "nes_inv k s \<Longrightarrow> good k (memory_writeb a v s)"
  by (simp add: memory_writeb_def Let_def good_ppuio_write good_dma good_mmc_write cpu_ram_write_def psgio_write_def)

lemma good_readw [inv_intros]: "nes_inv k s \<Longrightarrow> goodv k (memory_readw a s)"
  unfolding memory_readw_def by (intro goodv_bindv good_readb) (auto intro!: goodv_bindv good_readb)

lemma good_writew [inv_intros]: "nes_inv k s \<Longrightarrow> good k (memory_writew a v s)"
  unfolding memory_writew_def by (intro good_bind good_writeb)

section \<open>Addressing modes\<close>

lemma good_operand [inv_intros]: "nes_inv k s \<Longrightarrow> good k (memory_operand a n s)"
  unfolding memory_operand_def by (intro good_bindv good_readb) auto

lemma inv_page_cross [simp]: "nes_inv k s \<Longrightarrow> nes_inv k (page_cross s)"
  by (simp add: page_cross_def)

lemmas mode_defs = cpu_address_implied_def cpu_address_immediate_def cpu_address_zero_page_def
  cpu_address_zero_page_x_def cpu_address_zero_page_y_def cpu_address_absolute_def
  cpu_address_absolute_x_def cpu_address_absolute_y_def cpu_address_relative_def
  cpu_address_indirect_def cpu_address_indirect_x_def cpu_address_indirect_y_def zero_page_operand_def

lemma good_modes [inv_intros]:
  assumes "nes_inv k s"
  shows "good k (cpu_address_implied s)" "good k (cpu_address_immediate s)" "good k (cpu_address_zero_page s)"
    "good k (cpu_address_zero_page_x s)" "good k (cpu_address_zero_page_y s)" "good k (cpu_address_absolute s)"
    "good k (cpu_address_absolute_x s)" "good k (cpu_address_absolute_y s)" "good k (cpu_address_relative s)"
    "good k (cpu_address_indirect s)" "good k (cpu_address_indirect_x s)" "good k (cpu_address_indirect_y s)"
  using assms
  by (auto simp: mode_defs Let_def intro!: good_bindv good_bind good_readb good_readw good_operand)

section \<open>Instructions\<close>

lemma inv_flags [simp]: "nes_inv k (cpu_modify_flag n b s) = nes_inv k s" "nes_inv k (cpu_set_flag n s) = nes_inv k s"
  "nes_inv k (cpu_unset_flag n s) = nes_inv k s" "nes_inv k (cpu_update_zn_flags v s) = nes_inv k s"
  "nes_inv k (set_A v s) = nes_inv k s" "nes_inv k (set_X v s) = nes_inv k s" "nes_inv k (set_Y v s) = nes_inv k s"
  "nes_inv k (cpu_branch b s) = nes_inv k s" "nes_inv k (cpu_compare v s) = nes_inv k s"
  by (simp_all add: cpu_modify_flag_def cpu_set_flag_def cpu_unset_flag_def cpu_update_zn_flags_def set_A_def set_X_def
      set_Y_def cpu_branch_def cpu_compare_def Let_def)

lemma good_store [inv_intros]: "nes_inv k s \<Longrightarrow> good k (store v s)"
  unfolding store_def by (rule good_writeb)

lemma good_stack [inv_intros]:
  assumes "nes_inv k s"
  shows "good k (cpu_stack_pushb v s)" "good k (cpu_stack_pushw w s)" "goodv k (cpu_stack_popb s)" "goodv k (cpu_stack_popw s)"
    "goodv k (cpu_nmi_interrupt_address s)" "goodv k (cpu_reset_interrupt_address s)"
  using assms
  by (auto simp: cpu_stack_pushb_def cpu_stack_pushw_def cpu_stack_popb_def cpu_stack_popw_def Let_def
      cpu_nmi_interrupt_address_def cpu_reset_interrupt_address_def
      intro!: good_bind good_writeb good_writew good_readb good_readw)

text \<open>Instructions on registers alone, then those that reach memory.\<close>

lemmas register_ops = FE_op_def cpu_op_nop_def cpu_op_adc_def cpu_op_sbc_def cpu_op_and_def
  cpu_op_bit_def cpu_op_eor_def cpu_op_ora_def cpu_op_asla_def cpu_op_lsra_def cpu_op_rola_def
  cpu_op_rora_def cpu_op_lda_def cpu_op_ldx_def cpu_op_ldy_def cpu_op_tax_def cpu_op_txa_def
  cpu_op_tay_def cpu_op_tya_def cpu_op_tsx_def cpu_op_txs_def cpu_op_bcs_def cpu_op_beq_def
  cpu_op_bmi_def cpu_op_bvs_def cpu_op_bne_def cpu_op_bcc_def cpu_op_bpl_def cpu_op_bvc_def
  cpu_op_jmp_def cpu_op_clc_def cpu_op_cld_def cpu_op_cli_def cpu_op_clv_def cpu_op_sec_def
  cpu_op_sed_def cpu_op_sei_def cpu_op_cmp_def cpu_op_cpx_def cpu_op_cpy_def cpu_op_inx_def
  cpu_op_iny_def cpu_op_dex_def cpu_op_dey_def cpu_op_lax_def

lemma good_register_ops [inv_intros]:
  assumes "nes_inv k s"
  shows "good k (FE_op s)" "good k (cpu_op_nop s)" "good k (cpu_op_adc s)" "good k (cpu_op_sbc s)"
    "good k (cpu_op_and s)" "good k (cpu_op_bit s)" "good k (cpu_op_eor s)" "good k (cpu_op_ora s)"
    "good k (cpu_op_asla s)" "good k (cpu_op_lsra s)" "good k (cpu_op_rola s)" "good k (cpu_op_rora s)"
    "good k (cpu_op_lda s)" "good k (cpu_op_ldx s)" "good k (cpu_op_ldy s)" "good k (cpu_op_tax s)"
    "good k (cpu_op_txa s)" "good k (cpu_op_tay s)" "good k (cpu_op_tya s)" "good k (cpu_op_tsx s)"
    "good k (cpu_op_txs s)" "good k (cpu_op_bcs s)" "good k (cpu_op_beq s)" "good k (cpu_op_bmi s)"
    "good k (cpu_op_bvs s)" "good k (cpu_op_bne s)" "good k (cpu_op_bcc s)" "good k (cpu_op_bpl s)"
    "good k (cpu_op_bvc s)" "good k (cpu_op_jmp s)" "good k (cpu_op_clc s)" "good k (cpu_op_cld s)"
    "good k (cpu_op_cli s)" "good k (cpu_op_clv s)" "good k (cpu_op_sec s)" "good k (cpu_op_sed s)"
    "good k (cpu_op_sei s)" "good k (cpu_op_cmp s)" "good k (cpu_op_cpx s)" "good k (cpu_op_cpy s)"
    "good k (cpu_op_inx s)" "good k (cpu_op_iny s)" "good k (cpu_op_dex s)" "good k (cpu_op_dey s)"
    "good k (cpu_op_lax s)"
  using assms by (simp_all add: register_ops Let_def)

lemma good_store_ops [inv_intros]:
  assumes "nes_inv k s"
  shows "good k (cpu_op_asl s)" "good k (cpu_op_lsr s)" "good k (cpu_op_rol s)" "good k (cpu_op_ror s)"
    "good k (cpu_op_sta s)" "good k (cpu_op_stx s)" "good k (cpu_op_sty s)" "good k (cpu_op_inc s)" "good k
    (cpu_op_dec s)" "good k (cpu_op_php s)" "good k (cpu_op_pha s)" "good k (cpu_op_axa s)" "good k
    (cpu_op_axs s)"
  using assms
  by (auto simp: cpu_op_asl_def cpu_op_lsr_def cpu_op_rol_def cpu_op_ror_def cpu_op_sta_def cpu_op_stx_def cpu_op_sty_def cpu_op_inc_def cpu_op_dec_def cpu_op_php_def cpu_op_pha_def cpu_op_axa_def cpu_op_axs_def Let_def
      intro!: good_bind good_store good_stack)

lemma good_stack_ops [inv_intros]:
  assumes "nes_inv k s"
  shows "good k (cpu_op_jsr s)" "good k (cpu_op_rts s)" "good k (cpu_op_brk s)" "good k (cpu_op_rti s)"
    "good k (cpu_op_pla s)" "good k (cpu_op_plp s)"
  using assms
  by (auto simp: cpu_op_jsr_def cpu_op_rts_def cpu_op_brk_def cpu_op_rti_def cpu_op_pla_def cpu_op_plp_def Let_def
      intro!: good_bind good_bindv good_stack)

lemma good_extended_ops [inv_intros]:
  assumes "nes_inv k s"
  shows "good k (cpu_op_aso s)" "good k (cpu_op_dcm s)" "good k (cpu_op_ins s)" "good k (cpu_op_lse s)"
    "good k (cpu_op_rla s)" "good k (cpu_op_rra s)"
  using assms
  by (auto simp: cpu_op_aso_def cpu_op_dcm_def cpu_op_ins_def cpu_op_lse_def cpu_op_rla_def cpu_op_rra_def Let_def
      intro!: good_bind good_store good_store_ops good_register_ops)

section \<open>A step\<close>

lemma table_good:
  assumes "nes_inv k s" "op_lookup opc = Some (n, handler, mode)"
  shows "good k (handler s)" "good k (mode s)" "1 \<le> n" "n \<le> 8"
proof -
  have "(opc, n, handler, mode) \<in> set op_table" using assms(2) by (simp add: op_lookup_def map_of_SomeD)
  moreover have "list_all (\<lambda>(opc, n, handler, mode). good k (handler s) \<and> good k (mode s) \<and> 1 \<le> n \<and> n \<le> 8) op_table"
    using assms(1) unfolding op_table_def base_instructions_def extended_instructions_def not_implemented_def
    by (simp add: good_modes good_register_ops good_store_ops good_stack_ops good_extended_ops)
  ultimately show "good k (handler s)" "good k (mode s)" "1 \<le> n" "n \<le> 8" by (auto simp: list_all_iff)
qed


lemma read_PC: "memory_readb a s = Inr (v, s') \<Longrightarrow> rPC s' = rPC s"
  by (auto simp: memory_readb_def Let_def psgio_read_def ppuio_read_def rbind_Inr_iff ppu_set_sprite_0_hit_def
      ppu_set_in_vblank_def split: if_splits)

lemma read_4000: "memory_readb 0x4000 s = Inr (0, s)"
  by (simp add: memory_readb_def psgio_read_def)

lemma lookup_0: "op_lookup 0 \<noteq> None"
  by (simp add: op_lookup_def op_table_def base_instructions_def)

text \<open>One iteration: it returns, and it takes a cycle or it leaves the program counter on the next
  byte, an instruction without an entry; at \<open>0x4000\<close>, where a read gives 0, it takes a cycle.\<close>

lemma step_good:
  assumes "nes_inv k s"
  shows "\<exists>n s'. cpu_step s = Inr (n, s') \<and> nes_inv (k - word_of_int n) s' \<and> 0 \<le> n
    \<and> (0 < n \<or> rPC s' = rPC s + 1 \<and> rPC s \<noteq> 0x4000)"
proof -
  let ?s = "s\<lparr>rPC := rPC s + 1\<rparr>"
  have "goodv k (memory_readb (rPC s) ?s)" using assms by (simp add: good_readb)
  then obtain opc s1 where r: "memory_readb (rPC s) ?s = Inr (opc, s1)" "nes_inv k s1"
    by (auto simp: goodv_def split: sum.splits)
  have pc: "rPC s1 = rPC s + 1" using read_PC [OF r(1)] by simp
  show ?thesis
  proof (cases "op_lookup opc")
    case None
    then have "rPC s \<noteq> 0x4000" using r(1) read_4000 [of ?s] lookup_0 by auto
    moreover have "0 \<le> op_cycles s1" using r(2) by (simp add: nes_inv_def)
    ultimately show ?thesis using r pc None by (simp add: cpu_step_def nes_inv_def)
  next
    case (Some e)
    obtain n handler mode where e: "e = (n, handler, mode)" by (cases e)
    note g = table_good [OF _ Some [unfolded e]]
    obtain s2 where m: "mode s1 = Inr s2" "nes_inv k s2"
      using g(2) [OF r(2)] by (auto simp: good_def split: sum.splits)
    obtain s3 where h: "handler s2 = Inr s3" "nes_inv k s3"
      using g(1) [OF m(2)] by (auto simp: good_def split: sum.splits)
    have "0 \<le> op_cycles s3" "1 \<le> n" using h(2) g(3) [OF r(2)] by (simp_all add: nes_inv_def)
    then show ?thesis using r m h Some e by (simp add: cpu_step_def nes_inv_def)
  qed
qed

lemma distance_less:
  assumes "pc \<noteq> (0x4000 :: u16)"
  shows "unat (0x4000 - (pc + 1)) < unat (0x4000 - pc)"
proof -
  have "x \<noteq> 0 \<Longrightarrow> unat (x - 1) < unat x" for x :: u16
    by (simp add: unat_minus_one unat_gt_0)
  moreover have "0x4000 - (pc + 1) = 0x4000 - pc - 1" by (simp only: diff_diff_add)
  ultimately show ?thesis using assms by (simp only: right_minus_eq)
qed

text \<open>Bytes without an entry cannot be all the CPU meets: the program counter would reach \<open>0x4000\<close>.\<close>

lemma loop_returns:
  "nes_inv k s \<Longrightarrow> \<exists>s' used. cpu_loop cycles s = Some (Inr s') \<and> nes_inv (k - word_of_int used) s'
    \<and> 0 \<le> used \<and> cycles \<le> used"
proof (induction "(nat cycles, unat (0x4000 - rPC s))" arbitrary: cycles k s rule: wf_induct_rule [OF wf_lex_prod [OF wf_less_than wf_less_than]])
  case 1
  show ?case
  proof (cases "cycles > 0")
    case False
    then show ?thesis using 1(2) by (subst cpu_loop.simps) (auto intro!: exI [of _ 0])
  next
    case True
    obtain n s' where st: "cpu_step s = Inr (n, s')" "nes_inv (k - word_of_int n) s'" "0 \<le> n"
      and d: "0 < n \<or> rPC s' = rPC s + 1 \<and> rPC s \<noteq> 0x4000"
      using step_good [OF 1(2)] by blast
    have "((nat (cycles - n), unat (0x4000 - rPC s')), nat cycles, unat (0x4000 - rPC s))
        \<in> less_than <*lex*> less_than"
      using d st(3) True distance_less [of "rPC s"] by auto
    from 1(1) [OF this st(2)] obtain t used where
      "cpu_loop (cycles - n) s' = Some (Inr t)" "nes_inv (k - word_of_int n - word_of_int used) t" "0 \<le> used" "cycles - n \<le> used"
      by auto
    with True st show ?thesis
      by (subst cpu_loop.simps) (auto intro!: exI [of _ "n + used"] simp: algebra_simps)
  qed
qed

lemma run_returns:
  assumes "nes_inv k s"
  shows "\<exists>s' used. cpu_run cycles s = Some (Inr s') \<and> nes_inv (k - word_of_int used) s' \<and> 0 \<le> used \<and> cycles div 3 \<le> used"
proof -
  have "(if cycles < 0 then - (- cycles div 3) else cycles div 3) \<ge> cycles div 3" by presburger
  with loop_returns [OF assms] show ?thesis unfolding cpu_run_def by (meson order_trans)
qed

end
