(* ===== verification/NesRun.thy ===== *)
theory NesRun imports NesCpu begin

text \<open>
  LiteNES as a whole: loading a ROM, a frame (\<open>fce.c\<close>) and a scanline (\<open>ppu_cycle\<close> of \<open>ppu.c\<close>),
  which lets the CPU run, draws, and raises the interrupt of the vertical blank.  The endless loop
  of \<open>fce_run\<close> is \<open>fce_frames\<close>, a number of its iterations; waiting for the timer and printing the
  frame rate are left out.
\<close>

unbundle bit_operations_syntax

section \<open>Screen\<close>

text \<open>\<open>AM_GPU_CONFIG\<close> gives the size of the screen; the two pads divide like C.\<close>

definition c_half :: "int \<Rightarrow> int" where "c_half x = (if x < 0 then - (- x div 2) else x div 2)"

definition fce_update_screen :: "int \<times> int \<Rightarrow> nes \<Rightarrow> abort + nes" where
  "fce_update_screen cfg s =
     (let s = s\<lparr>frame_cnt := frame_cnt s + 1\<rparr> in
      if \<not> candraw s then Inr s
      else
        rbind (ppu_ram_read 0x3F00 s) (\<lambda>idx. rbind (palette_at idx) (\<lambda>bgc.
          let xpad = c_half (fst cfg - SCR_W); ypad = c_half (snd cfg - SCR_H) in
          if xpad < 0 \<or> ypad < 0 then Inl (Panic ''screen too small'')
          else Inr (s\<lparr>fb_draws := fb_draws s @ [(xpad, ypad, canvas s)],
                      canvas := (\<lambda>i. if 0 \<le> i \<and> i < SCR_W * SCR_H then bgc else canvas s i)\<rparr>))))"

section \<open>A scanline\<close>

definition ppu_cycle :: "int \<times> int \<Rightarrow> nes \<Rightarrow> abort + nes" where
  "ppu_cycle cfg s =
     (let s = (if \<not> ready s \<and> cpu_clock s > 29658 then s\<lparr>ready := True\<rparr> else s) in
      rbind (of_loop (cpu_run 256 s)) (\<lambda>s.
      let s = s\<lparr>scanline := scanline s + 1\<rparr> in
      rbind (if scanline s < SCR_H \<and> ppu_shows_background s
             then rbind (ppu_draw_background_scanline False s) (ppu_draw_background_scanline True)
             else Inr s) (\<lambda>s.
      rbind (of_loop (cpu_run (85 - 16) s)) (\<lambda>s.
      rbind (if scanline s < SCR_H \<and> ppu_shows_sprites s then ppu_draw_sprite_scanline s else Inr s) (\<lambda>s.
      rbind (of_loop (cpu_run 16 s)) (\<lambda>s.
      if scanline s = 241 then cpu_interrupt (ppu_set_sprite_0_hit False (ppu_set_in_vblank True s))
      else if scanline s = 262 then
        fce_update_screen cfg (ppu_set_in_vblank False (s\<lparr>scanline := -1, ppu_sprite_hit_occured := False\<rparr>))
      else Inr s))))))"

fun ppu_run :: "int \<times> int \<Rightarrow> nat \<Rightarrow> nes \<Rightarrow> abort + nes" where
  "ppu_run cfg 0 s = Inr s"
| "ppu_run cfg (Suc n) s = rbind (ppu_cycle cfg s) (ppu_run cfg n)"

section \<open>ROM\<close>

text \<open>The fields of \<open>ines_header\<close>, at the start of the image.\<close>

definition prg_block_count :: "(nat \<Rightarrow> u8) \<Rightarrow> nat" where "prg_block_count rom = unat (rom 4)"
definition chr_block_count :: "(nat \<Rightarrow> u8) \<Rightarrow> nat" where "chr_block_count rom = unat (rom 5)"
definition rom_type :: "(nat \<Rightarrow> u8) \<Rightarrow> u16" where "rom_type rom = ucast (rom 6) OR push_bit 8 (ucast (rom 7))"

text \<open>Block \<open>i\<close> of the loop that copies the CHR pages.\<close>

definition load_chr :: "(nat \<Rightarrow> u8) \<Rightarrow> nat \<Rightarrow> nat \<Rightarrow> nes \<Rightarrow> abort + nes" where
  "load_chr rom base i s =
     (let blk = (\<lambda>k. rom (base + i * 0x2000 + k)) in
      rbind (mmc_append_chr_rom_page blk s) (\<lambda>s. if i = 0 then ppu_copy 0 blk 0x2000 s else Inr s))"

definition fce_load_rom :: "(nat \<Rightarrow> u8) \<Rightarrow> nes \<Rightarrow> abort + int \<times> nes" where
  "fce_load_rom rom s =
     (if \<not> (rom 0 = 0x4E \<and> rom 1 = 0x45 \<and> rom 2 = 0x53 \<and> rom 3 = 0x1A) then Inr (-1, s)
      else
        let s = s\<lparr>mmc_id := ucast (drop_bit 4 (rom_type rom AND 0xF0))\<rparr>;
            prg_size = prg_block_count rom * 0x4000;
            blk = (\<lambda>k. rom (16 + k))
        in if mmc_id s = 0 \<or> mmc_id s = 3 then
             rbind (if prg_block_count rom = 1
                    then rbind (mmc_copy 0x8000 blk 0x4000 s) (mmc_copy 0xC000 blk 0x4000)
                    else mmc_copy 0x8000 blk 0x8000 s) (\<lambda>s.
             rbind (run_ops (load_chr rom (16 + prg_size)) [0..<chr_block_count rom] s) (\<lambda>s. Inr (0, s)))
           else Inr (-1, s))"

definition fce_init :: "(nat \<Rightarrow> u8) \<Rightarrow> nes \<Rightarrow> abort + nes" where
  "fce_init rom s = cpu_reset (ppu_set_mirroring (ucast (rom_type rom AND 1)) (ppu_init (cpu_init s)))"

section \<open>Frames\<close>

text \<open>The scanlines of one iteration of \<open>fce_run\<close>; \<open>keys i\<close> are the key events ready after scanline
  \<open>i\<close>.\<close>

definition fce_scanline :: "int \<times> int \<Rightarrow> (nat \<Rightarrow> (u8 \<times> bool) list) \<Rightarrow> nat \<Rightarrow> nes \<Rightarrow> abort + nes" where
  "fce_scanline cfg keys i s = rbind (ppu_cycle cfg s) (\<lambda>s. Inr (psg_detect_key (keys i) s))"

definition fce_frame :: "int \<times> int \<Rightarrow> (nat \<Rightarrow> (u8 \<times> bool) list) \<Rightarrow> nes \<Rightarrow> abort + nes" where
  "fce_frame cfg keys s = run_ops (fce_scanline cfg keys) [0..<262] s"

fun fce_frames :: "int \<times> int \<Rightarrow> (nat \<Rightarrow> (u8 \<times> bool) list) list \<Rightarrow> nes \<Rightarrow> abort + nes" where
  "fce_frames cfg [] s = Inr s"
| "fce_frames cfg (k # ks) s = rbind (fce_frame cfg k s) (fce_frames cfg ks)"

end
