(* ===== verification/NesFrame.thy ===== *)
theory NesFrame imports NesSafe NesRun begin

text \<open>
  Whole frames of LiteNES: the renderers keep the machine's invariant and can stop only at the
  palette, so a frame of any program on a cartridge without a mapper ends.
\<close>

unbundle bit_operations_syntax

section \<open>Renderers\<close>

text \<open>The state is in shape; the aborts a frame can end in.\<close>

definition machine_inv :: "nes \<Rightarrow> bool" where "machine_inv s \<longleftrightarrow> nes_inv (cpu_cycles s) s"

definition frame_abort :: "abort \<Rightarrow> bool" where
  "frame_abort e \<longleftrightarrow> e = OutOfBounds \<or> e = Panic ''screen too small''"

definition fine :: "abort + nes \<Rightarrow> bool" where
  "fine r \<longleftrightarrow> (case r of Inl e \<Rightarrow> frame_abort e | Inr s \<Rightarrow> machine_inv s)"

lemma fine_simps [simp]: "fine (Inr s) = machine_inv s" "fine (Inl e) = frame_abort e"
  by (simp_all add: fine_def)

lemma fine_bind: "fine r \<Longrightarrow> (\<And>s. machine_inv s \<Longrightarrow> fine (f s)) \<Longrightarrow> fine (rbind r f)"
  by (cases r) auto

lemma machine_inv_updates [simp]:
  "machine_inv (s\<lparr>PPUSTATUS := b\<rparr>) = machine_inv s" "machine_inv (s\<lparr>canvas := c\<rparr>) = machine_inv s"
  "machine_inv (s\<lparr>screen_background := g\<rparr>) = machine_inv s" "machine_inv (s\<lparr>ppu_sprite_hit_occured := f\<rparr>) = machine_inv s"
  "machine_inv (s\<lparr>scanline := i\<rparr>) = machine_inv s" "machine_inv (s\<lparr>ready := f\<rparr>) = machine_inv s"
  "machine_inv (s\<lparr>frame_cnt := i\<rparr>) = machine_inv s" "machine_inv (s\<lparr>fb_draws := d\<rparr>) = machine_inv s"
  "machine_inv (s\<lparr>key_state := ks\<rparr>) = machine_inv s" "machine_inv (s\<lparr>rP := b\<rparr>) = machine_inv s"
  "machine_inv (s\<lparr>rPC := a\<rparr>) = machine_inv s"
  by (simp_all add: machine_inv_def nes_inv_def)

lemma machine_inv_status [simp]:
  "machine_inv (ppu_set_sprite_overflow b s) = machine_inv s" "machine_inv (ppu_set_sprite_0_hit b s) = machine_inv s"
  "machine_inv (ppu_set_in_vblank b s) = machine_inv s"
  by (simp_all add: ppu_set_sprite_overflow_def ppu_set_sprite_0_hit_def ppu_set_in_vblank_def)

lemma read_abort: "ppu_ram_read a s = Inl e \<Longrightarrow> frame_abort e" "palette_at i = Inl e \<Longrightarrow> frame_abort e"
  by (auto simp: ppu_ram_read_def palette_at_def frame_abort_def Let_def split: if_splits)

text \<open>Reads that leave the state alone.\<close>

lemma fine_bind_read:
  "(\<And>v. fine (f v)) \<Longrightarrow> fine (rbind (ppu_ram_read a s) f)"
  "(\<And>v. fine (g v)) \<Longrightarrow> fine (rbind (palette_at i) g)"
  by (cases "ppu_ram_read a s"; auto dest: read_abort) (cases "palette_at i"; auto dest: read_abort)

lemma oob_frame_abort [simp]: "frame_abort OutOfBounds" "frame_abort (Panic ''screen too small'')"
  by (simp_all add: frame_abort_def)

lemma fine_draw: "machine_inv s \<Longrightarrow> fine (draw x y i s)"
  by (auto simp: draw_def intro!: fine_bind_read dest: read_abort)

lemma fine_run_ops: "(\<And>x s. machine_inv s \<Longrightarrow> fine (f x s)) \<Longrightarrow> machine_inv s \<Longrightarrow> fine (run_ops f xs s)"
proof (induction xs arbitrary: s)
  case (Cons x xs)
  then show ?case by (auto intro: fine_bind)
qed simp

lemma fine_bg_pixel: "machine_inv s \<Longrightarrow> fine (bg_pixel m tx l h x s)"
  by (auto simp: bg_pixel_def set_background_def Let_def intro!: fine_bind_read fine_bind fine_draw dest: read_abort)

lemma fine_bg_tile: "machine_inv s \<Longrightarrow> fine (bg_tile m tx s)"
  by (auto simp: bg_tile_def Let_def intro!: fine_bind_read fine_run_ops fine_bg_pixel dest: read_abort)

lemma fine_background [inv_intros]: "machine_inv s \<Longrightarrow> fine (ppu_draw_background_scanline m s)"
  unfolding ppu_draw_background_scanline_def by (intro fine_run_ops fine_bg_tile)

lemma fine_sprite_pixel: "machine_inv s \<Longrightarrow> fine (sprite_pixel n l h x s)"
  by (auto simp: sprite_pixel_def Let_def intro!: fine_bind_read fine_bind fine_draw dest: read_abort)

lemma fine_sprite: "machine_inv s \<Longrightarrow> fine (rbind (sprite n (c, s)) (\<lambda>r. Inr (snd r)))"
proof -
  assume i: "machine_inv s"
  have p: "fine (rbind (rbind (run_ops (sprite_pixel n l h) xs t) (\<lambda>s. Inr (c', s))) (\<lambda>r. Inr (snd r)))"
    if "machine_inv t" for l h xs t and c' :: int
  proof -
    have "fine (run_ops (sprite_pixel n l h) xs t)" by (rule fine_run_ops [OF fine_sprite_pixel that])
    then show ?thesis by (cases "run_ops (sprite_pixel n l h) xs t") simp_all
  qed
  show ?thesis using i
    by (auto simp: sprite_def Let_def rbind_assoc intro!: fine_bind_read p [unfolded rbind_assoc, simplified])
qed

lemma fine_sprites: "machine_inv s \<Longrightarrow> fine (rbind (run_ops sprite ns (c, s)) (\<lambda>r. Inr (snd r)))"
proof (induction ns arbitrary: c s)
  case (Cons n ns)
  from fine_sprite [OF Cons.prems, of n c] show ?case
  proof (cases "sprite n (c, s)")
    case (Inr r)
    then show ?thesis using Cons.IH [of "snd r" "fst r"] fine_sprite [OF Cons.prems, of n c] by simp
  qed simp
qed simp

lemma fine_sprite_scanline [inv_intros]: "machine_inv s \<Longrightarrow> fine (ppu_draw_sprite_scanline s)"
  unfolding ppu_draw_sprite_scanline_def by (rule fine_sprites)

section \<open>Scanlines and frames\<close>

lemma fine_run [inv_intros]: "machine_inv s \<Longrightarrow> fine (of_loop (cpu_run n s))"
proof -
  assume "machine_inv s"
  then obtain s' used where "cpu_run n s = Some (Inr s')" "nes_inv (cpu_cycles s - word_of_int used) s'"
    using run_returns machine_inv_def by blast
  moreover from this have "machine_inv s'" by (auto simp: machine_inv_def nes_inv_def)
  ultimately show ?thesis by simp
qed

lemma good_fine: "good k r \<Longrightarrow> fine r"
  by (cases r) (auto simp: machine_inv_def nes_inv_def)

lemma good_interrupt: "nes_inv k s \<Longrightarrow> good k (cpu_interrupt s)"
  by (auto simp: cpu_interrupt_def Let_def intro!: good_binds good_stack)

lemma fine_interrupt [inv_intros]: "machine_inv s \<Longrightarrow> fine (cpu_interrupt s)"
  using good_interrupt good_fine machine_inv_def by blast

lemma fine_update_screen [inv_intros]: "machine_inv s \<Longrightarrow> fine (fce_update_screen cfg s)"
  by (auto simp: fce_update_screen_def Let_def intro!: fine_bind_read dest: read_abort)

lemma fine_cycle [inv_intros]: "machine_inv s \<Longrightarrow> fine (ppu_cycle cfg s)"
  unfolding ppu_cycle_def Let_def
  by (intro fine_bind fine_run) (auto intro!: fine_bind fine_run fine_background fine_sprite_scanline fine_interrupt fine_update_screen)

lemma inv_detect_key [simp]: "machine_inv (psg_detect_key evs s) = machine_inv s"
  by (induction evs s rule: psg_detect_key.induct) auto

lemma fine_scanline: "machine_inv s \<Longrightarrow> fine (fce_scanline cfg keys i s)"
  unfolding fce_scanline_def by (intro fine_bind fine_cycle) auto

interpretation frame: safe_machine "fce_scanline cfg keys" machine_inv frame_abort for cfg keys
proof unfold_locales
  fix s x s' assume "machine_inv s" "fce_scanline cfg keys x s = Inr s'"
  then show "machine_inv s'" using fine_scanline [of s cfg keys x] by simp
next
  fix s x e assume "machine_inv s" "fce_scanline cfg keys x s = Inl e"
  then show "frame_abort e" using fine_scanline [of s cfg keys x] by simp
qed


lemma fine_frames: "machine_inv s \<Longrightarrow> fine (fce_frames cfg ks s)"
proof (induction cfg ks s rule: fce_frames.induct)
  case (2 cfg k ks s)
  have "fine (fce_frame cfg k s)"
    using frame.run_inv [OF 2(2), of cfg k] frame.run_allowed [OF 2(2), of cfg k]
    by (cases "fce_frame cfg k s") (auto simp: fce_frame_def)
  then show ?case using 2(1) by (auto intro: fine_bind)
qed simp

section \<open>From the ROM on\<close>

lemma ppu_copy_frame: "ppu_copy a f n s = Inr s' \<Longrightarrow> op_cycles s' = op_cycles s \<and> mmc_id s' = mmc_id s \<and> mirroring_xor s' = mirroring_xor s"
  by (auto simp: ppu_copy_def split: if_splits)

lemma mmc_copy_frame: "mmc_copy a f n s = Inr s' \<Longrightarrow> op_cycles s' = op_cycles s \<and> mmc_id s' = mmc_id s \<and> mirroring_xor s' = mirroring_xor s"
  by (auto simp: mmc_copy_def split: if_splits)

lemma load_chr_frame:
  "run_ops (load_chr rom b) is s = Inr s' \<Longrightarrow> op_cycles s' = op_cycles s \<and> mmc_id s' = mmc_id s \<and> mirroring_xor s' = mirroring_xor s"
proof (induction "is" arbitrary: s)
  case (Cons i js)
  then obtain t where t: "load_chr rom b i s = Inr t" "run_ops (load_chr rom b) js t = Inr s'" by (auto simp: rbind_Inr_iff)
  from t(1) have "op_cycles t = op_cycles s \<and> mmc_id t = mmc_id s \<and> mirroring_xor t = mirroring_xor s"
    by (auto simp: load_chr_def Let_def rbind_Inr_iff mmc_append_chr_rom_page_def split: if_splits dest!: ppu_copy_frame)
  with Cons.IH [OF t(2)] show ?case by simp
qed simp

lemma load_rom_frame:
  "fce_load_rom rom s = Inr (r, s') \<Longrightarrow> op_cycles s' = op_cycles s \<and> mirroring_xor s' = mirroring_xor s"
  by (auto simp: fce_load_rom_def Let_def rbind_Inr_iff split: if_splits dest!: mmc_copy_frame load_chr_frame)

lemma mirroring_choice: "mirroring_xor (ppu_set_mirroring (ucast (w AND 1 :: u16)) s) \<in> {0x400, 0x800}"
proof -
  have "unat (w AND 1) = unat w mod 2" using unat_and_mask [of w 1] by (simp add: mask_eq_exp_minus_1)
  then have "w AND 1 = 0 \<or> w AND 1 = 1" by (auto simp: word_unat_eq_iff)
  then show ?thesis by (auto simp: ppu_set_mirroring_def)
qed

lemma init_good:
  assumes "op_cycles s = 0" "mmc_id s = 0"
  shows "\<exists>t. fce_init rom s = Inr t \<and> machine_inv t"
proof -
  let ?t = "ppu_set_mirroring (ucast (rom_type rom AND 1)) (ppu_init (cpu_init s))"
  have "op_cycles ?t = 0 \<and> mmc_id ?t = 0" using assms by (simp add: ppu_set_mirroring_def ppu_init_def cpu_init_def)
  then have "nes_inv (cpu_cycles ?t) ?t" using mirroring_choice [of "rom_type rom" "ppu_init (cpu_init s)"] by (auto simp: nes_inv_def)
  then have "good (cpu_cycles ?t) (cpu_reset ?t)"
    unfolding cpu_reset_def by (intro good_bindv good_stack) auto
  then show ?thesis by (auto simp: fce_init_def good_def machine_inv_def nes_inv_def split: sum.splits)
qed


text \<open>A ROM of one program block of zero bytes.\<close>

definition example_rom :: "nat \<Rightarrow> u8" where
  "example_rom k = (if k = 0 then 0x4E else if k = 1 then 0x45 else if k = 2 then 0x53 else if k = 3 then 0x1A
     else if k = 4 then 1 else 0)"

lemma example_rom_loads: "\<exists>s. fce_load_rom example_rom nes0 = Inr (0, s) \<and> mmc_id s = 0"
proof -
  have h: "rom_type example_rom = 0" "prg_block_count example_rom = 1" "chr_block_count example_rom = 0"
    by (simp_all add: rom_type_def prg_block_count_def chr_block_count_def example_rom_def)
  have "mmc_copy 0x8000 f 0x4000 s = Inr t \<Longrightarrow> mmc_id t = mmc_id s" for f s t
    by (auto dest: mmc_copy_frame)
  then show ?thesis
    unfolding fce_load_rom_def Let_def h by (simp add: example_rom_def mmc_copy_def nes0_def)
qed




end
