(* ===== verification/NesArith.thy ===== *)
theory NesArith imports NesCpu begin

text \<open>
  What the 6502 of LiteNES computes: its flags, addition, subtraction and comparison, and the
  stack with the calls and interrupts that use it.
\<close>

unbundle bit_operations_syntax

section \<open>Flags\<close>

lemma bit_set_bit [simp]: "common_bit_set v n \<longleftrightarrow> bit v n"
  by (simp add: common_bit_set_def bit_iff_and_push_bit_not_eq_0)

lemma bit_modify: "n < 8 \<Longrightarrow> bit (common_modify_bitb v n b) m \<longleftrightarrow> (if m = n then b else bit v m)"
  using bit_imp_le_length [of v m]
  by (auto simp: common_modify_bitb_def common_set_bitb_def common_unset_bitb_def bit_simps simp del: push_bit_of_1)

text \<open>The four flags an arithmetic instruction sets, and the others.\<close>

definition flags_are :: "u8 \<Rightarrow> bool \<Rightarrow> bool \<Rightarrow> bool \<Rightarrow> bool \<Rightarrow> u8 \<Rightarrow> bool" where
  "flags_are p n v z c p' \<longleftrightarrow>
     bit p' negative_bp = n \<and> bit p' overflow_bp = v \<and> bit p' zero_bp = z \<and> bit p' carry_bp = c
     \<and> p' AND 0x3C = p AND 0x3C"

lemma bit7: "bit v 7 \<longleftrightarrow> 128 \<le> unat v" for v :: u8
proof -
  have "bit v 7 \<longleftrightarrow> bit (unat v) 7" by (simp add: bit_unsigned_iff)
  also have "\<dots> \<longleftrightarrow> odd (unat v div 128)" by (simp add: bit_iff_odd)
  finally have e: "bit v 7 \<longleftrightarrow> odd (unat v div 128)" .
  show ?thesis
  proof (cases "128 \<le> unat v")
    case True
    then have "unat v div 128 = 1" using unat_lt8 [of v] by simp
    with e True show ?thesis by simp
  qed (use e in simp)
qed

lemma zn_table: "cpu_zn_flag_table ! unat v = (if v = 0 then 0x02 else 0) OR (if bit v 7 then 0x80 else 0)"
  for v :: u8
proof -
  have n: "unat v < 256" by (rule unat_lt8)
  note b = bit7
  show ?thesis
  proof (cases "unat v")
    case 0
    then have "v = 0" by (simp add: unat_eq_zero)
    then show ?thesis by (simp add: cpu_zn_flag_table_def zero_flag_def)
  next
    case (Suc k)
    then have "v \<noteq> 0" by auto
    then show ?thesis using n b Suc by (simp add: cpu_zn_flag_table_def nth_append negative_flag_def)
  qed
qed

lemma bit_update_zn:
  "bit (rP (cpu_update_zn_flags v s)) m \<longleftrightarrow> (if m = 1 then v = 0 else if m = 7 then bit v 7 else bit (rP s) m)"
proof -
  have "bit (0x02 :: u8) m \<longleftrightarrow> m = 1" "bit (0x80 :: u8) m \<longleftrightarrow> m = 7" "bit (0x82 :: u8) m \<longleftrightarrow> m = 1 \<or> m = 7"
    using bit_imp_le_length [of "0x02 :: u8" m] bit_imp_le_length [of "0x80 :: u8" m] bit_imp_le_length [of "0x82 :: u8" m]
    by (auto simp: less_Suc_eq numeral_eq_Suc)
  then show ?thesis
    using bit_imp_le_length [of "rP s" m]
    by (auto simp: cpu_update_zn_flags_def zn_table zero_flag_def negative_flag_def bit_simps)
qed


section \<open>Addition, subtraction, comparison\<close>

text \<open>A byte held in an \<open>int\<close>, its sign, and the bits the code tests.\<close>

definition signed8 :: "int \<Rightarrow> int" where "signed8 v = (if v < 128 then v else v - 256)"

lemma int_bit: "k AND 2 ^ n \<noteq> 0 \<longleftrightarrow> odd (k div 2 ^ n)" for k :: int
proof -
  have "k AND 2 ^ n \<noteq> 0 \<longleftrightarrow> bit k n"
    by (simp add: bit_iff_and_push_bit_not_eq_0 push_bit_eq_mult)
  then show ?thesis by (simp add: bit_iff_odd)
qed

lemmas bit_7_8 = int_bit [of _ 7, simplified] int_bit [of _ 8, simplified]

lemma and_FF: "(word_of_int (k AND 0xFF) :: u8) = word_of_int k"
proof -
  have m: "0xFF = (mask 8 :: int)" by (simp add: mask_eq_exp_minus_1)
  show ?thesis unfolding m by (rule bit_word_eqI) (simp add: bit_simps)
qed

lemma overflow_bits:
  fixes a v r :: int
  shows "NOT (a XOR v) AND (a XOR r) AND 0x80 \<noteq> 0 \<longleftrightarrow> odd (a div 128) = odd (v div 128) \<and> odd (a div 128) \<noteq> odd (r div 128)"
    "(a XOR v) AND (a XOR r) AND 0x80 \<noteq> 0 \<longleftrightarrow> odd (a div 128) \<noteq> odd (v div 128) \<and> odd (a div 128) \<noteq> odd (r div 128)"
proof -
  have b: "bit k 7 \<longleftrightarrow> odd (k div 128)" for k :: int by (simp add: bit_iff_odd)
  have k: "x AND y AND 0x80 \<noteq> 0 \<longleftrightarrow> bit x 7 \<and> bit y 7" for x y :: int
  proof -
    have "x AND y AND 0x80 \<noteq> 0 \<longleftrightarrow> bit (x AND y) 7"
      using bit_7_8(1) [of "x AND y"] by (simp only: b and.assoc)
    then show ?thesis by (simp only: bit_and_iff)
  qed
  have n: "bit (NOT x) 7 \<longleftrightarrow> \<not> bit x 7" for x :: int by (simp add: bit_not_iff)
  show "NOT (a XOR v) AND (a XOR r) AND 0x80 \<noteq> 0 \<longleftrightarrow> odd (a div 128) = odd (v div 128) \<and> odd (a div 128) \<noteq> odd (r div 128)"
    "(a XOR v) AND (a XOR r) AND 0x80 \<noteq> 0 \<longleftrightarrow> odd (a div 128) \<noteq> odd (v div 128) \<and> odd (a div 128) \<noteq> odd (r div 128)"
    unfolding k n bit_xor_iff unfolding b by blast+
qed

lemma uint_lt8: "uint (x :: u8) < 256"
  using unsigned_less [of x, where ?'a = int] by simp

lemma div128: "0 \<le> x \<Longrightarrow> x < 256 \<Longrightarrow> odd (x div 128) \<longleftrightarrow> 128 \<le> x" for x :: int
proof -
  assume "0 \<le> x" "x < 256"
  then have "x div 128 = (if 128 \<le> x then 1 else 0)" by auto
  then show ?thesis by simp
qed

lemma add_carry: "0 \<le> r \<Longrightarrow> r < 512 \<Longrightarrow> odd (r div 256) \<longleftrightarrow> 256 \<le> r" for r :: int
proof -
  assume "0 \<le> r" "r < 512"
  then have "r div 256 = (if 256 \<le> r then 1 else 0)" by auto
  then show ?thesis by simp
qed

lemma sub_carry: "- 256 \<le> r \<Longrightarrow> r < 256 \<Longrightarrow> even (r div 256) \<longleftrightarrow> 0 \<le> r" for r :: int
proof -
  assume "- 256 \<le> r" "r < 256"
  then have "r div 256 = (if 0 \<le> r then 0 else -1)" by auto
  then show ?thesis by simp
qed

lemma add_overflow:
  fixes a v c :: int
  assumes "0 \<le> a" "a < 256" "0 \<le> v" "v < 256" "c = 0 \<or> c = 1"
  shows "(128 \<le> a) = (128 \<le> v) \<and> (128 \<le> a) \<noteq> odd ((a + v + c) div 128)
    \<longleftrightarrow> \<not> (- 128 \<le> signed8 a + signed8 v + c \<and> signed8 a + signed8 v + c \<le> 127)"
proof -
  have "(a + v + c) div 128 = (if a + v + c < 128 then 0 else if a + v + c < 256 then 1 else if a + v + c < 384 then 2 else 3)"
    using assms by auto
  then show ?thesis using assms by (auto simp: signed8_def split: if_splits)
qed

lemma sub_overflow:
  fixes a v c :: int
  assumes "0 \<le> a" "a < 256" "0 \<le> v" "v < 256" "c = 0 \<or> c = 1"
  shows "(128 \<le> a) \<noteq> (128 \<le> v) \<and> (128 \<le> a) \<noteq> odd ((a - v - c) div 128)
    \<longleftrightarrow> \<not> (- 128 \<le> signed8 a - signed8 v - c \<and> signed8 a - signed8 v - c \<le> 127)"
proof -
  have "(a - v - c) div 128 = (if a - v - c < -128 then -2 else if a - v - c < 0 then -1 else if a - v - c < 128 then 0 else 1)"
    using assms by auto
  then show ?thesis using assms by (auto simp: signed8_def split: if_splits)
qed


lemma flags_areI:
  assumes "\<And>m. m < 8 \<Longrightarrow> bit p' m \<longleftrightarrow> (if m = 0 then c else if m = 1 then z else if m = 6 then v else if m = 7 then n else bit p m)"
  shows "flags_are p n v z c p'"
proof -
  have "bit (0x3C :: u8) m \<longleftrightarrow> m \<in> {2, 3, 4, 5}" if "m < 8" for m
  proof -
    have "m \<in> {0, 1, 2, 3, 4, 5, 6, 7}" using that by auto
    then show ?thesis by auto
  qed
  then have "p' AND 0x3C = p AND 0x3C"
    by (intro bit_word_eqI) (auto simp: bit_and_iff assms)
  then show ?thesis by (simp add: flags_are_def bp_defs assms)
qed

lemma set_A_frame: "t = s\<lparr>rP := x\<rparr> \<Longrightarrow> set_A w t = s\<lparr>rA := w, rP := rP (set_A w t)\<rparr>"
  by (simp add: set_A_def cpu_update_zn_flags_def)

lemma adc_value:
  fixes s :: nes
  assumes "0 \<le> op_value s" "op_value s < 256"
  defines "c \<equiv> of_bool (bit (rP s) carry_bp)" and "a \<equiv> uint (rA s)" and "v \<equiv> op_value s"
  shows "\<exists>p. cpu_op_adc s = Inr (s\<lparr>rA := word_of_int (a + v + c), rP := p\<rparr>)
    \<and> flags_are (rP s) (bit (word_of_int (a + v + c) :: u8) 7)
        (\<not> (- 128 \<le> signed8 a + signed8 v + c \<and> signed8 a + signed8 v + c \<le> 127))
        ((word_of_int (a + v + c) :: u8) = 0) (256 \<le> a + v + c) p"
proof -
  have a: "0 \<le> a" "a < 256" using uint_lt8 [of "rA s"] by (simp_all add: a_def)
  have v: "0 \<le> v" "v < 256" using assms by simp_all
  have c: "c = 0 \<or> c = 1" by (simp add: c_def)
  let ?r = "a + v + c"
  define t where "t = cpu_modify_flag overflow_bp (NOT (a XOR v) AND (a XOR ?r) AND 0x80 \<noteq> 0) (cpu_modify_flag carry_bp (?r AND 0x100 \<noteq> 0) s)"
  have "cpu_op_adc s = Inr (set_A (word_of_int (?r AND 0xFF)) t)"
    by (simp add: cpu_op_adc_def Let_def t_def a_def v_def c_def cpu_flag_set_def cpu_modify_flag_def)
  moreover have "t = s\<lparr>rP := rP t\<rparr>" by (simp add: t_def cpu_modify_flag_def)
  ultimately have "cpu_op_adc s = Inr (s\<lparr>rA := word_of_int ?r, rP := rP (set_A (word_of_int ?r) t)\<rparr>)"
    using set_A_frame by (metis and_FF)
  moreover have "flags_are (rP s) (bit (word_of_int ?r :: u8) 7)
      (\<not> (- 128 \<le> signed8 a + signed8 v + c \<and> signed8 a + signed8 v + c \<le> 127))
      ((word_of_int ?r :: u8) = 0) (256 \<le> ?r) (rP (set_A (word_of_int ?r) t))"
  proof (rule flags_areI)
    fix m :: nat assume m: "m < 8"
    have ov: "(NOT (a XOR v) AND (a XOR ?r) AND 0x80 \<noteq> 0) \<longleftrightarrow> \<not> (- 128 \<le> signed8 a + signed8 v + c \<and> signed8 a + signed8 v + c \<le> 127)"
      unfolding overflow_bits div128 [OF a] div128 [OF v] by (rule add_overflow [OF a v c])
    have ca: "?r AND 0x100 \<noteq> 0 \<longleftrightarrow> 256 \<le> ?r"
      unfolding bit_7_8 by (rule add_carry) (use a v c in auto)
    have tP: "bit (rP (t\<lparr>rA := x\<rparr>)) m \<longleftrightarrow> (if m = 6 then \<not> (- 128 \<le> signed8 a + signed8 v + c \<and> signed8 a + signed8 v + c \<le> 127)
        else if m = 0 then 256 \<le> ?r else bit (rP s) m)" for x
      unfolding t_def cpu_modify_flag_def ov ca by (simp add: bit_modify bp_defs)
    show "bit (rP (set_A (word_of_int ?r) t)) m \<longleftrightarrow> (if m = 0 then 256 \<le> ?r else if m = 1 then (word_of_int ?r :: u8) = 0
        else if m = 6 then \<not> (- 128 \<le> signed8 a + signed8 v + c \<and> signed8 a + signed8 v + c \<le> 127)
        else if m = 7 then bit (word_of_int ?r :: u8) 7 else bit (rP s) m)"
      unfolding set_A_def bit_update_zn tP by simp
  qed
  ultimately show ?thesis by blast
qed

lemma sbc_value:
  fixes s :: nes
  assumes "0 \<le> op_value s" "op_value s < 256"
  defines "c \<equiv> of_bool (\<not> bit (rP s) carry_bp)" and "a \<equiv> uint (rA s)" and "v \<equiv> op_value s"
  shows "\<exists>p. cpu_op_sbc s = Inr (s\<lparr>rA := word_of_int (a - v - c), rP := p\<rparr>)
    \<and> flags_are (rP s) (bit (word_of_int (a - v - c) :: u8) 7)
        (\<not> (- 128 \<le> signed8 a - signed8 v - c \<and> signed8 a - signed8 v - c \<le> 127))
        ((word_of_int (a - v - c) :: u8) = 0) (v + c \<le> a) p"
proof -
  have a: "0 \<le> a" "a < 256" using uint_lt8 [of "rA s"] by (simp_all add: a_def)
  have v: "0 \<le> v" "v < 256" using assms by simp_all
  have c: "c = 0 \<or> c = 1" by (simp add: c_def)
  let ?r = "a - v - c"
  define t where "t = cpu_modify_flag overflow_bp ((a XOR v) AND (a XOR ?r) AND 0x80 \<noteq> 0) (cpu_modify_flag carry_bp (?r AND 0x100 = 0) s)"
  have "cpu_op_sbc s = Inr (set_A (word_of_int (?r AND 0xFF)) t)"
    by (simp add: cpu_op_sbc_def Let_def t_def a_def v_def c_def cpu_flag_set_def cpu_modify_flag_def)
  moreover have "t = s\<lparr>rP := rP t\<rparr>" by (simp add: t_def cpu_modify_flag_def)
  ultimately have "cpu_op_sbc s = Inr (s\<lparr>rA := word_of_int ?r, rP := rP (set_A (word_of_int ?r) t)\<rparr>)"
    using set_A_frame by (metis and_FF)
  moreover have "flags_are (rP s) (bit (word_of_int ?r :: u8) 7)
      (\<not> (- 128 \<le> signed8 a - signed8 v - c \<and> signed8 a - signed8 v - c \<le> 127))
      ((word_of_int ?r :: u8) = 0) (v + c \<le> a) (rP (set_A (word_of_int ?r) t))"
  proof (rule flags_areI)
    fix m :: nat assume m: "m < 8"
    have ov: "((a XOR v) AND (a XOR ?r) AND 0x80 \<noteq> 0) \<longleftrightarrow> \<not> (- 128 \<le> signed8 a - signed8 v - c \<and> signed8 a - signed8 v - c \<le> 127)"
      unfolding overflow_bits div128 [OF a] div128 [OF v] by (rule sub_overflow [OF a v c])
    have "even (?r div 256) \<longleftrightarrow> 0 \<le> ?r" by (rule sub_carry) (use a v c in auto)
    then have ca: "?r AND 0x100 = 0 \<longleftrightarrow> v + c \<le> a" using bit_7_8(2) [of ?r] by auto
    have tP: "bit (rP (t\<lparr>rA := x\<rparr>)) m \<longleftrightarrow> (if m = 6 then \<not> (- 128 \<le> signed8 a - signed8 v - c \<and> signed8 a - signed8 v - c \<le> 127)
        else if m = 0 then v + c \<le> a else bit (rP s) m)" for x
      unfolding t_def cpu_modify_flag_def ov ca by (simp add: bit_modify bp_defs)
    show "bit (rP (set_A (word_of_int ?r) t)) m \<longleftrightarrow> (if m = 0 then v + c \<le> a else if m = 1 then (word_of_int ?r :: u8) = 0
        else if m = 6 then \<not> (- 128 \<le> signed8 a - signed8 v - c \<and> signed8 a - signed8 v - c \<le> 127)
        else if m = 7 then bit (word_of_int ?r :: u8) 7 else bit (rP s) m)"
      unfolding set_A_def bit_update_zn tP by simp
  qed
  ultimately show ?thesis by blast
qed


lemma cmp_value:
  fixes s :: nes
  assumes "0 \<le> op_value s" "op_value s < 256"
  shows "\<exists>p. cpu_compare reg s = s\<lparr>rP := p\<rparr>
    \<and> flags_are (rP s) (bit (reg - word_of_int (op_value s)) 7) (bit (rP s) overflow_bp)
        (uint reg = op_value s) (op_value s \<le> uint reg) p"
proof -
  let ?r = "uint reg - op_value s"
  have n: "drop_bit 7 ?r AND 1 \<noteq> 0 \<longleftrightarrow> bit (reg - word_of_int (op_value s)) 7"
  proof -
    have "drop_bit 7 ?r AND 1 \<noteq> 0 \<longleftrightarrow> bit ?r 7" by (simp add: and_one_eq bit_iff_odd drop_bit_eq_div odd_iff_mod_2_eq_one)
    also have "\<dots> \<longleftrightarrow> bit (word_of_int ?r :: u8) 7" by (simp only: bit_word_of_int_iff) simp
    also have "word_of_int ?r = reg - word_of_int (op_value s)" by simp
    finally show ?thesis .
  qed
  have e: "cpu_compare reg s = s\<lparr>rP := rP (cpu_compare reg s)\<rparr>" by (simp add: cpu_compare_def Let_def cpu_modify_flag_def)
  have "flags_are (rP s) (bit (reg - word_of_int (op_value s)) 7) (bit (rP s) overflow_bp)
        (uint reg = op_value s) (op_value s \<le> uint reg) (rP (cpu_compare reg s))"
    by (rule flags_areI) (auto simp: cpu_compare_def Let_def n cpu_modify_flag_def bit_modify bp_defs)
  with e show ?thesis by blast
qed


text \<open>C26: on a byte operand ADC, SBC and the comparisons compute the sum or difference with the
  carry, modulo 256, and set the four flags to the sign, the signed overflow, zero and the carry of
  it; no other flag, register or memory byte changes.\<close>

theorem cpu_arith:
  fixes s :: nes
  assumes "0 \<le> op_value s" "op_value s < 256"
  shows "(let c = of_bool (bit (rP s) carry_bp); a = uint (rA s); v = op_value s; r = a + v + c
       in \<exists>p. cpu_op_adc s = Inr (s\<lparr>rA := word_of_int r, rP := p\<rparr>)
        \<and> flags_are (rP s) (bit (word_of_int r :: u8) 7)
            (\<not> (- 128 \<le> signed8 a + signed8 v + c \<and> signed8 a + signed8 v + c \<le> 127))
            ((word_of_int r :: u8) = 0) (256 \<le> r) p)
    \<and> (let c = of_bool (\<not> bit (rP s) carry_bp); a = uint (rA s); v = op_value s; r = a - v - c
       in \<exists>p. cpu_op_sbc s = Inr (s\<lparr>rA := word_of_int r, rP := p\<rparr>)
        \<and> flags_are (rP s) (bit (word_of_int r :: u8) 7)
            (\<not> (- 128 \<le> signed8 a - signed8 v - c \<and> signed8 a - signed8 v - c \<le> 127))
            ((word_of_int r :: u8) = 0) (v + c \<le> a) p)
    \<and> (\<exists>p. cpu_op_cmp s = Inr (s\<lparr>rP := p\<rparr>)
        \<and> flags_are (rP s) (bit (rA s - word_of_int (op_value s)) 7) (bit (rP s) overflow_bp)
            (uint (rA s) = op_value s) (op_value s \<le> uint (rA s)) p)"
  using adc_value [OF assms] sbc_value [OF assms] cmp_value [OF assms, of "rA s"]
  by (auto simp: Let_def cpu_op_cmp_def)

lemma cpu_arith_witness:
  "\<exists>p. cpu_op_adc (nes0\<lparr>rA := 0x7F, op_value := 1\<rparr>) = Inr (nes0\<lparr>rA := 0x80, op_value := 1, rP := p\<rparr>)
     \<and> flags_are 0 True True False False p"
  using cpu_arith [of "nes0\<lparr>rA := 0x7F, op_value := 1\<rparr>"]
  by (simp add: nes0_def Let_def signed8_def bp_defs bit_iff_odd)

section \<open>The stack\<close>

text \<open>Accesses below \<open>0x2000\<close> are RAM.\<close>

lemma bank0: "unat a < 0x2000 \<Longrightarrow> drop_bit 13 a = 0" for a :: u16
  by (simp add: drop_bit_eq_div word_unat_eq_iff unat_div)

lemma read_ram: "unat a < 0x2000 \<Longrightarrow> memory_readb a s = Inr (CPU_RAM s (a AND 0x7FF), s)"
  by (simp add: memory_readb_def bank0 cpu_ram_read_def and.assoc)

lemma write_ram: "unat a < 0x2000 \<Longrightarrow> memory_writeb a v s = Inr (s\<lparr>CPU_RAM := (CPU_RAM s)(a AND 0x7FF := v)\<rparr>)"
  by (auto simp: memory_writeb_def bank0 cpu_ram_write_def and.assoc)

lemma stack_addr:
  fixes x :: u8
  shows "unat (0x100 + ucast x :: u16) = 256 + unat x" "unat (0xFF + ucast x :: u16) = 255 + unat x"
    "unat (0x100 + ucast x :: u16) < 0x2000" "unat (0xFF + ucast x :: u16) < 0x2000"
proof -
  have u: "unat (ucast x :: u16) = unat x"
    using unat_lt8 [of x] by (simp add: unsigned_ucast_eq take_bit_nat_eq_self_iff)
  show "unat (0x100 + ucast x :: u16) = 256 + unat x" "unat (0xFF + ucast x :: u16) = 255 + unat x"
    using unat_lt8 [of x] by (simp_all add: unat_word_ariths u)
  then show "unat (0x100 + ucast x :: u16) < 0x2000" "unat (0xFF + ucast x :: u16) < 0x2000"
    using unat_lt8 [of x] by simp_all
qed

lemma low_ram: "unat a < 0x800 \<Longrightarrow> a AND 0x7FF = a" for a :: u16
proof -
  assume "unat a < 0x800"
  moreover have "unat (a AND mask 11) = unat a mod 2 ^ 11" by (rule unat_and_mask)
  ultimately show ?thesis by (simp add: mask_eq_exp_minus_1 word_unat_eq_iff)
qed

text \<open>The bytes of a word.\<close>

lemma word_bytes: "ucast (ucast (w AND 0xFF) :: u8) + push_bit 8 (ucast (ucast (drop_bit 8 w) :: u8)) = w" for w :: u16
proof -
  have "ucast (ucast (w AND 0xFF) :: u8) AND push_bit 8 (ucast (ucast (drop_bit 8 w) :: u8)) = (0 :: u16)"
    by (rule bit_word_eqI) (auto simp: bit_simps)
  then have "ucast (ucast (w AND 0xFF) :: u8) + push_bit 8 (ucast (ucast (drop_bit 8 w) :: u8))
      = (ucast (ucast (w AND 0xFF) :: u8) OR push_bit 8 (ucast (ucast (drop_bit 8 w) :: u8)) :: u16)"
    using word_plus_and_or [of "ucast (ucast (w AND 0xFF) :: u8)" "push_bit 8 (ucast (ucast (drop_bit 8 w) :: u8)) :: u16"] by simp
  also have "\<dots> = w"
  proof (rule bit_word_eqI)
    fix i :: nat assume "i < LENGTH(16)"
    have "bit (0xFF :: u16) i \<longleftrightarrow> i < 8"
    proof -
      have m: "(0xFF :: u16) = mask 8" by (simp add: mask_eq_exp_minus_1)
      show ?thesis unfolding m bit_mask_iff using \<open>i < LENGTH(16)\<close> by simp
    qed
    with \<open>i < LENGTH(16)\<close> show "bit (ucast (ucast (w AND 0xFF) :: u8) OR push_bit 8 (ucast (ucast (drop_bit 8 w) :: u8)) :: u16) i \<longleftrightarrow> bit w i"
      by (auto simp: bit_simps)
  qed
  finally show ?thesis .
qed


lemma pushb_eq: "cpu_stack_pushb v s = Inr (s\<lparr>rSP := rSP s - 1, CPU_RAM := (CPU_RAM s)(0x100 + ucast (rSP s) := v)\<rparr>)"
proof -
  have "(0x100 + ucast (rSP s) :: u16) AND 0x7FF = 0x100 + ucast (rSP s)"
    using unat_lt8 [of "rSP s"] by (intro low_ram) (simp add: stack_addr)
  then show ?thesis by (simp add: cpu_stack_pushb_def write_ram stack_addr(3))
qed

lemma popb_eq: "cpu_stack_popb s = Inr (CPU_RAM s (0x100 + ucast (rSP s + 1)), s\<lparr>rSP := rSP s + 1\<rparr>)"
proof -
  have "(0x100 + ucast (rSP s + 1) :: u16) AND 0x7FF = 0x100 + ucast (rSP s + 1)"
    using unat_lt8 [of "rSP s + 1"] by (intro low_ram) (simp only: stack_addr)
  then show ?thesis unfolding cpu_stack_popb_def Let_def by (simp add: read_ram stack_addr(3) del: of_nat_add)
qed

lemma stack_pair:
  fixes x :: u8
  defines "a \<equiv> 0xFF + ucast x :: u16"
  shows "a AND 0x7FF = a" "(a + 1) AND 0x7FF = a + 1" "unat a < 0x2000" "unat (a + 1) < 0x2000" "a \<noteq> a + 1"
proof -
  have u: "unat a = 255 + unat x" by (simp add: a_def stack_addr)
  then have v: "unat (a + 1) = 256 + unat x" using unat_lt8 [of x] by (simp add: unat_word_ariths)
  show "a AND 0x7FF = a" "(a + 1) AND 0x7FF = a + 1" using u v unat_lt8 [of x] by (auto intro!: low_ram)
  show "unat a < 0x2000" "unat (a + 1) < 0x2000" using u v unat_lt8 [of x] by simp_all
  show "a \<noteq> a + 1" by simp
qed

lemma pushw_eq:
  "cpu_stack_pushw w s = Inr (s\<lparr>CPU_RAM := (CPU_RAM s)(0xFF + ucast (rSP s) := ucast (w AND 0xFF),
      0xFF + ucast (rSP s) + 1 := ucast (drop_bit 8 w)), rSP := rSP s - 2\<rparr>)"
  by (simp only: cpu_stack_pushw_def memory_writew_def write_ram [OF stack_pair(3)] write_ram [OF stack_pair(4)]
      stack_pair(1,2) rbind.simps) simp

lemma popw_eq:
  "cpu_stack_popw s = (let a = 0xFF + ucast (rSP s + 2) in
     Inr (ucast (CPU_RAM s a) + push_bit 8 (ucast (CPU_RAM s (a + 1))), s\<lparr>rSP := rSP s + 2\<rparr>))"
  by (simp only: cpu_stack_popw_def Let_def memory_readw_def nes.simps nes.ext_inject
      read_ram [OF stack_pair(3)] read_ram [OF stack_pair(4)] stack_pair(1,2) rbind.simps prod.case) simp

lemma pop_push:
  "cpu_stack_pushb v s = Inr s1 \<Longrightarrow> cpu_stack_popb s1 = Inr (v, s1\<lparr>rSP := rSP s\<rparr>)"
  "cpu_stack_pushw w s = Inr s1 \<Longrightarrow> cpu_stack_popw s1 = Inr (w, s1\<lparr>rSP := rSP s\<rparr>)"
  using word_bytes [of w] by (auto simp: pushb_eq popb_eq pushw_eq popw_eq Let_def)


lemma read_cart: "0x8000 \<le> unat a \<Longrightarrow> memory_readb a s = Inr (cart s a, s)" for a :: u16
proof -
  assume a: "0x8000 \<le> unat a"
  have "unat (drop_bit 13 a) = unat a div 2 ^ 13" by (simp add: drop_bit_eq_div unat_div)
  then have "4 \<le> unat (drop_bit 13 a)" using a by simp
  then have "drop_bit 13 a \<noteq> 0 \<and> drop_bit 13 a \<noteq> 1 \<and> drop_bit 13 a \<noteq> 2 \<and> drop_bit 13 a \<noteq> 3" by auto
  then show ?thesis by (simp add: memory_readb_def Let_def mmc_read_def)
qed

definition nmi_vector :: "nes \<Rightarrow> u16" where
  "nmi_vector s = ucast (cart s 0xFFFA) + push_bit 8 (ucast (cart s 0xFFFB))"

lemma nmi_address: "cpu_nmi_interrupt_address s = Inr (nmi_vector s, s)"
  by (simp add: cpu_nmi_interrupt_address_def memory_readw_def read_cart nmi_vector_def)

lemma frame_addresses:
  fixes x :: u8
  shows "(0x100 + ucast (x - 2) :: u16) \<noteq> 0xFF + ucast x" "(0x100 + ucast (x - 2) :: u16) \<noteq> 0x100 + ucast x"
proof -
  have "unat (x - 2) = (if unat x < 2 then unat x + 254 else unat x - 2)"
    by (simp add: unat_sub_if_size word_size)
  then have "256 + unat (x - 2) \<noteq> 255 + unat x" "256 + unat (x - 2) \<noteq> 256 + unat x" by auto
  then show "(0x100 + ucast (x - 2) :: u16) \<noteq> 0xFF + ucast x" "(0x100 + ucast (x - 2) :: u16) \<noteq> 0x100 + ucast x"
    unfolding word_unat_eq_iff stack_addr by blast+
qed

lemma rti_unused: "(p OR interrupt_flag) AND NOT (push_bit unused_bp 1) OR unused_flag = p OR 0x24" for p :: u8
proof (rule bit_word_eqI)
  fix i :: nat assume "i < LENGTH(8)"
  then have "i \<in> {0, 1, 2, 3, 4, 5, 6, 7}" by auto
  then show "bit ((p OR interrupt_flag) AND NOT (push_bit unused_bp 1) OR unused_flag) i \<longleftrightarrow> bit (p OR 0x24) i"
    by (auto simp: flag_defs bp_defs bit_simps)
qed

lemma rti_eq:
  "cpu_op_rti s = Inr (s\<lparr>rP := CPU_RAM s (0x100 + ucast (rSP s + 1)) OR unused_flag, rSP := rSP s + 3,
     rPC := ucast (CPU_RAM s (0xFF + ucast (rSP s + 3))) + push_bit 8 (ucast (CPU_RAM s (0xFF + ucast (rSP s + 3) + 1)))\<rparr>)"
  by (simp add: cpu_op_rti_def popb_eq popw_eq Let_def add.commute)

text \<open>The stack page after an interrupt.\<close>

definition interrupt_ram :: "u8 \<Rightarrow> nes \<Rightarrow> u16 \<Rightarrow> u8" where
  "interrupt_ram p s =
     (CPU_RAM s)(0xFF + ucast (rSP s) := ucast (rPC s AND 0xFF), 0xFF + ucast (rSP s) + 1 := ucast (drop_bit 8 (rPC s)),
        0x100 + ucast (rSP s - 2) := p)"

lemma interrupt_eq:
  "cpu_interrupt s = Inr (if ppu_generates_nmi s
     then let p = (rP s OR interrupt_flag) AND NOT (push_bit unused_bp 1)
          in s\<lparr>rP := p, CPU_RAM := interrupt_ram p s, rSP := rSP s - 3, rPC := nmi_vector s\<rparr>
     else s)"
  by (simp add: cpu_interrupt_def Let_def cpu_unset_flag_def common_unset_bitb_def pushw_eq pushb_eq nmi_address
      interrupt_ram_def nmi_vector_def del: push_bit_of_1)

lemma interrupt_ram_reads:
  "interrupt_ram p s (0x100 + ucast (rSP s - 2)) = p"
  "interrupt_ram p s (0xFF + ucast (rSP s)) = ucast (rPC s AND 0xFF)"
  "interrupt_ram p s (0xFF + ucast (rSP s) + 1) = ucast (drop_bit 8 (rPC s))"
  using frame_addresses [of "rSP s"] by (auto simp: interrupt_ram_def)


end
