(* ===== verification/NesPorts.thy ===== *)
theory NesPorts imports NesFrame NesArith begin

text \<open>
  The devices of LiteNES as a program sees them: RAM and its mirrors, sprite DMA, the PPU's data
  port, the joypad, and what loading a ROM puts where.
\<close>

unbundle bit_operations_syntax

section \<open>RAM and sprite DMA\<close>

text \<open>\<open>0x0000\<close> to \<open>0x1FFF\<close> and \<open>0x6000\<close> to \<open>0x7FFF\<close> are one RAM of \<open>0x800\<close> bytes.\<close>

definition ram_address :: "u16 \<Rightarrow> bool" where
  "ram_address a \<longleftrightarrow> drop_bit 13 a = 0 \<or> drop_bit 13 a = 3"

lemma ram_readb: "ram_address a \<Longrightarrow> memory_readb a s = Inr (CPU_RAM s (a AND 0x7FF), s)"
  by (auto simp: ram_address_def memory_readb_def Let_def cpu_ram_read_def and.assoc)

lemma not_dma: "ram_address a \<Longrightarrow> a \<noteq> 0x4014"
  by (auto simp: ram_address_def)

lemma ram_writeb: "ram_address a \<Longrightarrow> memory_writeb a v s = Inr (s\<lparr>CPU_RAM := (CPU_RAM s)(a AND 0x7FF := v)\<rparr>)"
  using not_dma [of a] by (auto simp: ram_address_def memory_writeb_def Let_def cpu_ram_write_def and.assoc)

lemma dma_loop:
  "n \<le> 256 \<Longrightarrow> \<exists>s'. run_ops (dma v) [0..<n] s = Inr s' \<and> OAMADDR s' = OAMADDR s + of_nat n \<and> CPU_RAM s' = CPU_RAM s
    \<and> (\<forall>i<n. PPU_SPRRAM s' (OAMADDR s + of_nat i) = CPU_RAM s ((0x100 * ucast v + of_nat i) AND 0x7FF))"
proof (induction n)
  case (Suc n)
  then obtain t where t: "run_ops (dma v) [0..<n] s = Inr t" "OAMADDR t = OAMADDR s + of_nat n" "CPU_RAM t = CPU_RAM s"
    "\<forall>i<n. PPU_SPRRAM t (OAMADDR s + of_nat i) = CPU_RAM s ((0x100 * ucast v + of_nat i) AND 0x7FF)" by auto
  have d: "(of_nat i :: u8) \<noteq> of_nat n" if "i < n" for i
    using that Suc.prems by (simp add: word_unat_eq_iff unat_of_nat)
  have st: "dma v n t = Inr (t\<lparr>PPU_SPRRAM := (PPU_SPRRAM t)(OAMADDR s + of_nat n := CPU_RAM s ((0x100 * ucast v + of_nat n) AND 0x7FF)),
      OAMADDR := OAMADDR s + of_nat n + 1\<rparr>)"
    by (simp add: dma_def ppu_sprram_write_def cpu_ram_read_def t and.assoc)
  have "run_ops (dma v) [0..<Suc n] s = dma v n t" using t(1) by (simp add: run_ops_append rbind_assoc) (cases "dma v n t"; simp)
  then show ?case using t d unfolding st by (auto simp: less_Suc_eq)
qed simp

text \<open>RAM answers at all its mirrors with what was last written at any of them, and a write of
  \<open>p\<close> to \<open>0x4014\<close> copies page \<open>p\<close> of RAM to the sprite memory, from \<open>OAMADDR\<close> on and around, leaving
  \<open>OAMADDR\<close> and the RAM as they were.\<close>

theorem nes_ram:
  "(ram_address a \<and> ram_address b \<longrightarrow>
      (\<exists>s'. memory_writeb a v s = Inr s' \<and>
         memory_readb b s' = Inr (if a AND 0x7FF = b AND 0x7FF then v else CPU_RAM s (b AND 0x7FF), s')))
    \<and> (\<exists>s'. memory_writeb 0x4014 p s = Inr s' \<and> OAMADDR s' = OAMADDR s \<and> CPU_RAM s' = CPU_RAM s
        \<and> (\<forall>i. PPU_SPRRAM s' (OAMADDR s + i) = CPU_RAM s ((0x100 * ucast p + ucast i) AND 0x7FF)))"
proof -
  obtain s' where s': "run_ops (dma p) [0..<256] s = Inr s'" "OAMADDR s' = OAMADDR s + of_nat 256" "CPU_RAM s' = CPU_RAM s"
    "\<forall>i<256. PPU_SPRRAM s' (OAMADDR s + of_nat i) = CPU_RAM s ((0x100 * ucast p + of_nat i) AND 0x7FF)"
    using dma_loop [of 256 p s] by auto
  have "PPU_SPRRAM s' (OAMADDR s + i) = CPU_RAM s ((0x100 * ucast p + ucast i) AND 0x7FF)" for i :: u8
  proof -
    have "of_nat (unat i) = i" "(of_nat (unat i) :: u16) = ucast i" by simp_all
    then show ?thesis using s'(4) unat_lt8 [of i] by metis
  qed
  moreover have "OAMADDR s' = OAMADDR s" using s'(2) by simp
  moreover have "memory_writeb 0x4014 p s = Inr s'" using s'(1) by (simp add: memory_writeb_def)
  moreover have "ram_address a \<and> ram_address b \<longrightarrow> (\<exists>s'. memory_writeb a v s = Inr s' \<and>
      memory_readb b s' = Inr (if a AND 0x7FF = b AND 0x7FF then v else CPU_RAM s (b AND 0x7FF), s'))"
    by (auto simp: ram_writeb ram_readb)
  ultimately show ?thesis using s'(3) by blast
qed

lemma nes_ram_witness: "\<exists>s'. memory_writeb 0x1803 7 nes0 = Inr s' \<and> memory_readb 0x0003 s' = Inr (7, s')"
  using nes_ram [where a = "0x1803" and b = "0x0003" and v = 7 and s = nes0] by (simp add: ram_address_def)

section \<open>Joypad\<close>

text \<open>Reads of the joypad port, in order.\<close>

fun joypad :: "nat \<Rightarrow> nes \<Rightarrow> abort + u8 list \<times> nes" where
  "joypad 0 s = Inr ([], s)"
| "joypad (Suc n) s = rbind (memory_readb 0x4016 s) (\<lambda>(v, s). rbind (joypad n s) (\<lambda>(vs, s). Inr (v # vs, s)))"

text \<open>The key codes of A, B, SELECT, START, UP, DOWN, LEFT, RIGHT: J, K, U, I, W, S, A, D.\<close>

lemma joypad_step: "0 \<le> joy_p s \<Longrightarrow> joy_p s < 9 \<Longrightarrow>
    memory_readb 0x4016 s = Inr (word_of_int (key_state s (MAP ! nat (joy_p s + 1))), s\<lparr>joy_p := joy_p s + 1\<rparr>)"
  by (simp add: memory_readb_def psgio_read_def Let_def)

text \<open>After the strobe, 1 then 0 written to \<open>0x4016\<close>, the next eight reads there give the state
  of the eight buttons in the order of the hardware.\<close>

theorem joypad_reads:
  "\<exists>s1 s2. run_ops (memory_writeb 0x4016) [1, 0] s = Inr s1 \<and>
     joypad 8 s1 = Inr (map (\<lambda>k. word_of_int (key_state s k)) [49, 50, 35, 36, 30, 44, 43, 45], s2)"
proof -
  let ?t = "s\<lparr>joy_p := 0, prev_write := 0\<rparr>"
  have "run_ops (memory_writeb 0x4016) [1, 0] s = Inr ?t"
    by (simp add: memory_writeb_def psgio_write_def Let_def)
  moreover have "joypad 8 ?t = Inr (map (\<lambda>k. word_of_int (key_state s k)) [49, 50, 35, 36, 30, 44, 43, 45], ?t\<lparr>joy_p := 8\<rparr>)"
    by (simp add: eval_nat_numeral joypad_step MAP_def)
  ultimately show ?thesis by blast
qed


section \<open>The PPU's data port\<close>

text \<open>A program's writes, address and value.\<close>

definition writes :: "(u16 \<times> u8) list \<Rightarrow> nes \<Rightarrow> abort + nes" where
  "writes ws s = run_ops (\<lambda>(a, v). memory_writeb a v) ws s"

definition vram_address :: "u8 \<Rightarrow> u8 \<Rightarrow> u16" where
  "vram_address hi lo = (push_bit 8 (ucast hi) + ucast lo) AND 0x3FFF"

definition vram_index :: "u16 \<Rightarrow> nat" where "vram_index a = unat (ppu_get_real_ram_address a)"

text \<open>The cells a write through the data port changes: the one addressed and its mirror.\<close>

definition vram_cells :: "u16 \<Rightarrow> nes \<Rightarrow> nat set" where
  "vram_cells a s = {vram_index a, vram_index (word_of_int (uint a XOR mirroring_xor s))}"

lemma port_bank: "drop_bit 13 (0x2006 :: u16) = 1" "drop_bit 13 (0x2007 :: u16) = 1"
  by simp_all

lemma write_2006_first:
  "ready s \<Longrightarrow> \<not> addr_received_high_byte s \<Longrightarrow> memory_writeb 0x2006 v s =
     Inr (s\<lparr>PPUADDR := PPUADDR s AND 0x3FFF, ppu_addr_latch := v, addr_received_high_byte := True,
            ppu_2007_first_read := True, ppu_latch := v\<rparr>)"
  by (simp add: memory_writeb_def ppuio_write_def Let_def)

lemma write_2006_second:
  "ready s \<Longrightarrow> addr_received_high_byte s \<Longrightarrow> memory_writeb 0x2006 v s =
     Inr (s\<lparr>PPUADDR := push_bit 8 (ucast (ppu_addr_latch s)) + ucast v, addr_received_high_byte := False,
            ppu_2007_first_read := True, ppu_latch := v\<rparr>)"
  by (simp add: memory_writeb_def ppuio_write_def Let_def)

lemma set_address:
  assumes "ready s" "\<not> addr_received_high_byte s"
  shows "\<exists>t. writes [(0x2006, hi), (0x2006, lo)] s = Inr t \<and> PPUADDR t AND 0x3FFF = vram_address hi lo \<and> ppu_2007_first_read t
    \<and> PPU_RAM t = PPU_RAM s \<and> ready t \<and> \<not> addr_received_high_byte t \<and> mirroring_xor t = mirroring_xor s"
  using assms by (simp add: writes_def write_2006_first write_2006_second vram_address_def)

lemma write_2007:
  assumes "mirroring_xor s \<in> {0, 0x400, 0x800}" "PPUADDR s AND 0x3FFF = a"
  shows "\<exists>t. memory_writeb 0x2007 v s = Inr t \<and> PPU_RAM t = (\<lambda>i. if i \<in> vram_cells a s then v else PPU_RAM s i)
    \<and> ready t = ready s \<and> addr_received_high_byte t = addr_received_high_byte s \<and> mirroring_xor t = mirroring_xor s"
proof -
  have a: "unat (ppu_get_real_ram_address a) < 0x4000"
    using masked_addr [of "PPUADDR s"] assms(2) by (intro real_address_bound) simp
  have b: "unat (ppu_get_real_ram_address (word_of_int (uint a XOR mirroring_xor s))) < 0x4000"
    using xor_addr [OF assms(1), of "PPUADDR s"] assms(2) by (intro real_address_bound) simp
  have "a < 0x4000" using masked_addr [of "PPUADDR s"] assms(2) by (simp add: word_less_nat_alt)
  then show ?thesis
    using a b by (simp add: memory_writeb_def ppuio_write_def Let_def ppu_ram_write_def assms(2) vram_cells_def vram_index_def)
      (auto simp: fun_eq_iff)
qed

lemma read_2007:
  assumes "PPUADDR s AND 0x3FFF = a"
  shows "\<exists>t. memory_readb 0x2007 s = Inr (PPU_RAM s (vram_index a), t)"
proof -
  have "unat (ppu_get_real_ram_address a) < 0x4000"
    using masked_addr [of "PPUADDR s"] assms by (intro real_address_bound) simp
  then show ?thesis
    by (simp add: memory_readb_def ppuio_read_def Let_def ppu_ram_read_def assms vram_index_def)
qed

text \<open>C37: an address set through \<open>0x2006\<close>, high byte first, and a byte written to \<open>0x2007\<close>; then any
  address set and \<open>0x2007\<close> read: that gives the byte if it reads the cell addressed before or its
  mirror, and what was there before otherwise.\<close>

theorem ppu_data_port:
  assumes "ready s" "\<not> addr_received_high_byte s" "mirroring_xor s \<in> {0, 0x400, 0x800}"
  shows "\<exists>s1 s2. writes [(0x2006, hi), (0x2006, lo), (0x2007, v), (0x2006, hi'), (0x2006, lo')] s = Inr s1
    \<and> memory_readb 0x2007 s1 =
        Inr (let i = vram_index (vram_address hi' lo')
             in if i \<in> vram_cells (vram_address hi lo) s then v else PPU_RAM s i, s2)"
proof -
  obtain t where t: "writes [(0x2006, hi), (0x2006, lo)] s = Inr t" "PPUADDR t AND 0x3FFF = vram_address hi lo"
    "PPU_RAM t = PPU_RAM s" "ready t" "\<not> addr_received_high_byte t" "mirroring_xor t = mirroring_xor s"
    using set_address [OF assms(1,2), of hi lo] by blast
  obtain u where u: "memory_writeb 0x2007 v t = Inr u" "ready u" "\<not> addr_received_high_byte u"
    "PPU_RAM u = (\<lambda>i. if i \<in> vram_cells (vram_address hi lo) t then v else PPU_RAM t i)"
    using write_2007 [OF _ t(2), of v] assms(3) t(4-6) by auto
  obtain w where w: "writes [(0x2006, hi'), (0x2006, lo')] u = Inr w" "PPUADDR w AND 0x3FFF = vram_address hi' lo'"
    "PPU_RAM w = PPU_RAM u"
    using set_address [OF u(2,3), of hi' lo'] by blast
  obtain x where x: "memory_readb 0x2007 w = Inr (PPU_RAM w (vram_index (vram_address hi' lo')), x)"
    using read_2007 [OF w(2)] by blast
  have "writes ([(0x2006, hi), (0x2006, lo)] @ [(0x2007, v)] @ [(0x2006, hi'), (0x2006, lo')]) s = Inr w"
    using t(1) u(1) w(1) by (simp only: writes_def run_ops_append) (simp add: rbind_assoc)
  moreover have "vram_cells (vram_address hi lo) t = vram_cells (vram_address hi lo) s"
    using t(6) by (simp add: vram_cells_def)
  ultimately show ?thesis using x w(3) u(4) t(3) by (auto simp: Let_def)
qed

lemma ppu_data_port_witness:
  "\<exists>s1 s2. writes [(0x2006, 0x21), (0x2006, 0x08), (0x2007, 7), (0x2006, 0x25), (0x2006, 0x08)]
      (nes0\<lparr>ready := True, mirroring_xor := 0x400\<rparr>) = Inr s1 \<and> memory_readb 0x2007 s1 = Inr (7, s2)"
proof -
  let ?s = "nes0\<lparr>ready := True, mirroring_xor := 0x400\<rparr>"
  have c: "vram_index (vram_address 0x25 0x08) \<in> vram_cells (vram_address 0x21 0x08) ?s"
    by (simp add: vram_cells_def vram_address_def vram_index_def ppu_get_real_ram_address_def)
  have "ready ?s" "\<not> addr_received_high_byte ?s" "mirroring_xor ?s \<in> {0, 0x400, 0x800}" by (simp_all add: nes0_def)
  from ppu_data_port [OF this, of "0x21" "0x08" 7 "0x25" "0x08"] c show ?thesis by (simp add: Let_def)
qed


section \<open>Loading a ROM\<close>



end
