(* ===== verification/CmUtil.thy ===== *)
theory CmUtil imports Prelude begin

text \<open>
  \<open>am-kernels/benchmarks/coremark/src/core_util.c\<close>: the 16 bit CRC the benchmark checks its results
  with, and the seeds.  \<open>ee_s16\<close> and \<open>ee_s32\<close> are the words \<open>u16\<close> and \<open>u32\<close>, read with \<open>sint\<close> where
  the sign matters.
\<close>

unbundle bit_operations_syntax

section \<open>The functions\<close>

text \<open>The body of the loop of \<open>crcu8\<close>, on \<open>data\<close> and \<open>crc\<close>.\<close>

definition crcu8_step :: "u8 \<times> u16 \<Rightarrow> u8 \<times> u16" where
  "crcu8_step = (\<lambda>(dat, crc).
     let x16 = (dat AND 1) XOR (ucast crc AND 1);
         dat = drop_bit 1 dat;
         (crc, carry) = (if x16 = 1 then (crc XOR 0x4002, True) else (crc, False));
         crc = drop_bit 1 crc
     in (dat, if carry then crc OR 0x8000 else crc AND 0x7fff))"

definition crcu8 :: "u8 \<Rightarrow> u16 \<Rightarrow> u16" where
  "crcu8 dat crc = snd ((crcu8_step ^^ 8) (dat, crc))"

definition crcu16 :: "u16 \<Rightarrow> u16 \<Rightarrow> u16" where
  "crcu16 newval crc = (let crc = crcu8 (ucast newval) crc in crcu8 (ucast (drop_bit 8 newval)) crc)"

definition crc16 :: "u16 \<Rightarrow> u16 \<Rightarrow> u16" where
  "crc16 newval crc = crcu16 newval crc"

definition crcu32 :: "u32 \<Rightarrow> u16 \<Rightarrow> u16" where
  "crcu32 newval crc = (let crc = crc16 (ucast newval) crc in crc16 (ucast (drop_bit 16 newval)) crc)"

text \<open>The volatile seeds: the three of the run, the iterations and the algorithms.\<close>

definition get_seed_32 :: "u32 list \<Rightarrow> nat \<Rightarrow> u32" where
  "get_seed_32 volatile i = (if 1 \<le> i \<and> i \<le> 5 then volatile ! (i - 1) else 0)"

text \<open>The sizes the target gives the types; each that is wrong is counted.\<close>

definition check_data_types :: "nat \<Rightarrow> nat \<Rightarrow> nat \<Rightarrow> nat \<Rightarrow> nat \<Rightarrow> nat \<Rightarrow> nat \<Rightarrow> u8" where
  "check_data_types u8s u16s s16s s32s u32s ptr_int ptr =
     of_bool (u8s \<noteq> 1) + of_bool (u16s \<noteq> 2) + of_bool (s16s \<noteq> 2) + of_bool (s32s \<noteq> 4) + of_bool (u32s \<noteq> 4)
     + of_bool (ptr_int \<noteq> ptr)"

section \<open>The CRC as a shift register\<close>

text \<open>One step of the register of the polynomial \<open>x^16 + x^15 + x^2 + 1\<close>, lowest bit first.\<close>

definition lfsr :: "u16 \<Rightarrow> u16" where
  "lfsr c = drop_bit 1 c XOR (if bit c 0 then 0xA001 else 0)"

lemma not_bit_16: "\<not> bit c 16" for c :: u16
proof
  assume "bit c 16"
  from bit_imp_le_length [OF this] show False by simp
qed

lemma lfsr_xor: "lfsr (c XOR d) = lfsr c XOR lfsr d"
  unfolding lfsr_def by (auto simp: drop_bit_xor bit_xor_iff ac_simps)

lemma lfsr_pow_xor: "(lfsr ^^ n) (c XOR d) = (lfsr ^^ n) c XOR (lfsr ^^ n) d"
  by (induction n) (simp_all add: lfsr_xor)

lemma lfsr_zero [simp]: "lfsr 0 = 0"
  by (simp add: lfsr_def)

lemma lfsr_eq_zero: "lfsr c = 0 \<Longrightarrow> c = 0"
proof (rule ccontr)
  assume z: "lfsr c = 0" and "c \<noteq> 0"
  have "bit (lfsr c) 15 \<longleftrightarrow> bit c 0" by (simp add: lfsr_def bit_simps not_bit_16)
  with z have l: "\<not> bit c 0" by simp
  then have "drop_bit 1 c = 0" using z by (simp add: lfsr_def)
  then have "\<not> bit (drop_bit 1 c) n" for n by simp
  then have "bit c (Suc n) = False" for n by (simp add: bit_drop_bit_eq)
  with l have "bit c n = False" for n by (cases n) auto
  then have "c = 0" by (intro bit_word_eqI) simp
  with \<open>c \<noteq> 0\<close> show False by simp
qed

lemma lfsr_pow_eq_zero: "(lfsr ^^ n) c = 0 \<longleftrightarrow> c = 0"
  by (induction n) (auto dest: lfsr_eq_zero)

lemma lfsr_pow_inject: "(lfsr ^^ n) c = (lfsr ^^ n) d \<longleftrightarrow> c = d"
proof -
  have "x XOR y = 0 \<longleftrightarrow> x = y" for x y :: u16 by (metis xor_self_eq xor.assoc xor.right_neutral)
  then show ?thesis using lfsr_pow_xor [of n c d] lfsr_pow_eq_zero [of n "c XOR d"] by metis
qed

lemma crcu8_step_lfsr:
  "crcu8_step (d, c) = (drop_bit 1 d, lfsr (c XOR ucast d) XOR ucast (drop_bit 1 d))"
proof -
  let ?x = "(d AND 1) XOR (ucast c AND 1)"
  have x: "?x = 1 \<longleftrightarrow> bit (c XOR ucast d) 0"
  proof -
    have "?x = of_bool (bit d 0 \<noteq> bit c 0)" by (rule bit_word_eqI) (auto simp: bit_simps)
    then show ?thesis by (auto simp: bit_simps)
  qed
  have d: "drop_bit 1 (c XOR ucast d) = drop_bit 1 c XOR ucast (drop_bit 1 d)"
    by (rule bit_word_eqI) (auto simp: bit_simps not_bit_16 dest: bit_imp_le_length)
  have "drop_bit 1 (c XOR 0x4002) OR 0x8000 = drop_bit 1 c XOR 0xA001"
  proof -
    have "y OR 0x8000 = y XOR 0x8000" if "\<not> bit y 15" for y :: u16
    proof -
      have "(0x8000 :: u16) = 2 ^ 15" by simp
      then have "bit (0x8000 :: u16) n \<longleftrightarrow> n = 15" for n by (simp only: bit_exp_iff) auto
      with that show ?thesis by (intro bit_word_eqI) (auto simp only: bit_or_iff bit_xor_iff)
    qed
    moreover have "\<not> bit (drop_bit 1 c XOR 0x2001) 15" by (simp add: bit_simps not_bit_16)
    moreover have "drop_bit 1 (c XOR 0x4002) = drop_bit 1 c XOR 0x2001" by (simp add: drop_bit_xor)
    ultimately show ?thesis by (simp add: xor.assoc)
  qed
  moreover have "drop_bit 1 c AND 0x7FFF = drop_bit 1 c"
  proof -
    have "(0x7FFF :: u16) = mask 15" by (simp add: mask_eq_exp_minus_1)
    moreover have "take_bit 15 (drop_bit 1 c) = drop_bit 1 c"
      by (rule bit_word_eqI) (auto simp: bit_simps dest: bit_imp_le_length)
    ultimately show ?thesis by (simp only: take_bit_eq_mask)
  qed
  moreover have "((a XOR b) XOR p) XOR b = a XOR p" "(a XOR b) XOR b = a" for a b p :: u16
    by (rule bit_word_eqI, auto simp: bit_simps)+
  ultimately show ?thesis unfolding crcu8_step_def lfsr_def d
    by (cases "?x = 1") (simp_all only: Let_def x if_True if_False prod.case xor.right_neutral)
qed

lemma crcu8_lfsr: "crcu8 d c = (lfsr ^^ 8) (c XOR ucast d)"
proof -
  have "(crcu8_step ^^ n) (d, c) = (drop_bit n d, (lfsr ^^ n) (c XOR ucast d) XOR ucast (drop_bit n d))" for n
    by (induction n) (simp_all add: crcu8_step_lfsr xor.assoc)
  moreover have "drop_bit 8 d = 0" by (rule bit_word_eqI) (auto simp: bit_simps dest: bit_imp_le_length)
  ultimately show ?thesis by (simp add: crcu8_def)
qed

lemma push_drop:
  assumes "k \<le> 7"
  shows "drop_bit 1 (push_bit (Suc k) (ucast (h :: u8))) = (push_bit k (ucast h) :: u16)"
proof (rule bit_word_eqI)
  fix n assume "n < LENGTH(16)"
  moreover have "n - k < 8" if "bit h (n - k)" using bit_imp_le_length [OF that] by simp
  ultimately show "bit (drop_bit 1 (push_bit (Suc k) (ucast h)) :: u16) n \<longleftrightarrow> bit (push_bit k (ucast h) :: u16) n"
    using assms by (auto simp only: bit_push_bit_iff bit_drop_bit_eq o_apply bit_ucast_iff possible_bit_word) auto
qed

lemma lfsr_pow_high: "n \<le> 8 \<Longrightarrow> (lfsr ^^ n) (push_bit 8 (ucast h)) = push_bit (8 - n) (ucast (h :: u8))"
proof (induction n)
  case (Suc n)
  then obtain k where k: "8 - n = Suc k" "8 - Suc n = k" by (metis Suc_diff_Suc Suc_le_lessD)
  have "lfsr (push_bit (Suc k) (ucast h)) = push_bit k (ucast h)"
  proof -
    have "\<not> bit (push_bit (Suc k) (ucast h) :: u16) 0" by (simp only: bit_push_bit_iff) simp
    moreover have "drop_bit 1 (push_bit (Suc k) (ucast h)) = (push_bit k (ucast h) :: u16)" using k by (intro push_drop) simp
    ultimately show ?thesis by (simp only: lfsr_def if_False xor.right_neutral)
  qed
  with Suc k show ?case by simp
qed simp

lemma crcu16_lfsr: "crcu16 v c = (lfsr ^^ 16) (c XOR v)"
proof -
  have v: "c XOR v = (c XOR ucast (ucast v :: u8)) XOR push_bit 8 (ucast (ucast (drop_bit 8 v) :: u8))"
    by (rule bit_word_eqI) (auto simp: bit_simps)
  have "(lfsr ^^ (8 + 8)) (c XOR v) = (lfsr ^^ 8) ((lfsr ^^ 8) (c XOR ucast (ucast v :: u8)) XOR ucast (ucast (drop_bit 8 v) :: u8))"
    unfolding v funpow_add o_apply lfsr_pow_xor [of 8 "c XOR ucast (ucast v :: u8)"] using lfsr_pow_high [of 8] by simp
  then show ?thesis by (simp add: crcu16_def crcu8_lfsr)
qed

text \<open>The CRC of a message of 16 bit words, as the benchmark accumulates it.\<close>

definition crc_words :: "u16 list \<Rightarrow> u16 \<Rightarrow> u16" where
  "crc_words ws crc = foldl (\<lambda>c w. crcu16 w c) crc ws"

text \<open>C40: \<open>crcu16\<close> is sixteen steps of the shift register of \<open>x^16 + x^15 + x^2 + 1\<close> on the sum of
  value and CRC.  So a message with its CRC behind it has CRC 0, and only with its CRC; and two
  messages that differ in one word have different CRCs.\<close>

theorem crc_detects:
  "crcu16 v c = (lfsr ^^ 16) (c XOR v)
    \<and> (crc_words (ws @ [v]) c = 0 \<longleftrightarrow> v = crc_words ws c)
    \<and> (crc_words (ws @ v # us) c = crc_words (ws @ v' # us) c \<longleftrightarrow> v = v')"
proof -
  have inj: "crc_words us c = crc_words us d \<longleftrightarrow> c = d" for c d
  proof (induction us arbitrary: c d)
    case (Cons u us)
    have "crcu16 u c = crcu16 u d \<longleftrightarrow> c = d"
      unfolding crcu16_lfsr lfsr_pow_inject by (metis xor.assoc xor_self_eq xor.right_neutral)
    with Cons show ?case by (simp add: crc_words_def)
  qed (simp add: crc_words_def)
  have x: "x XOR y = x XOR z \<longleftrightarrow> y = z" "x XOR y = 0 \<longleftrightarrow> y = x" for x y z :: u16
    by (metis xor.assoc xor_self_eq xor.left_neutral)+
  have "crc_words (ws @ v # us) c = crc_words us (crcu16 v (crc_words ws c))" for v us
    by (simp add: crc_words_def)
  moreover have "crcu16 v c = crcu16 v' c \<longleftrightarrow> v = v'" "crcu16 v c = 0 \<longleftrightarrow> v = c" for v v' c
    unfolding crcu16_lfsr lfsr_pow_inject lfsr_pow_eq_zero by (auto simp: x)
  ultimately show ?thesis by (simp add: crcu16_lfsr [symmetric] inj) (simp add: crc_words_def)
qed

end
