(* ===== verification/CmState.thy ===== *)
theory CmState imports CmUtil begin

text \<open>
  \<open>am-kernels/benchmarks/coremark/src/core_state.c\<close>: the state machine that scans a block of text
  for numbers, its input, and the benchmark that scans the block before and after it was corrupted.
  The block is a list of bytes; to read or write outside it is \<open>OutOfBounds\<close>.
\<close>

unbundle bit_operations_syntax

section \<open>The state machine\<close>

datatype core_state =
    CORE_START
  | CORE_INVALID
  | CORE_S1
  | CORE_S2
  | CORE_INT
  | CORE_FLOAT
  | CORE_EXPONENT
  | CORE_SCIENTIFIC

definition core_states :: "core_state list" where
  "core_states = [CORE_START, CORE_INVALID, CORE_S1, CORE_S2, CORE_INT, CORE_FLOAT, CORE_EXPONENT, CORE_SCIENTIFIC]"

type_synonym counts = "core_state \<Rightarrow> u32"

definition ee_isdigit :: "u8 \<Rightarrow> bool" where
  "ee_isdigit c \<longleftrightarrow> 48 \<le> c \<and> c \<le> 57"

definition count :: "core_state \<Rightarrow> counts \<Rightarrow> counts" where
  "count st cnt = cnt(st := cnt st + 1)"

text \<open>The \<open>switch\<close> of the loop, on a symbol that is neither NUL nor a comma.\<close>

definition transition :: "u8 \<Rightarrow> core_state \<Rightarrow> counts \<Rightarrow> core_state \<times> counts" where
  "transition c st cnt =
     (case st of
        CORE_START \<Rightarrow>
          (if ee_isdigit c then (CORE_INT, count CORE_START cnt)
           else if c = 43 \<or> c = 45 then (CORE_S1, count CORE_START cnt)
           else if c = 46 then (CORE_FLOAT, count CORE_START cnt)
           else (CORE_INVALID, count CORE_START (count CORE_INVALID cnt)))
      | CORE_S1 \<Rightarrow>
          (if ee_isdigit c then (CORE_INT, count CORE_S1 cnt)
           else if c = 46 then (CORE_FLOAT, count CORE_S1 cnt)
           else (CORE_INVALID, count CORE_S1 cnt))
      | CORE_INT \<Rightarrow>
          (if c = 46 then (CORE_FLOAT, count CORE_INT cnt)
           else if \<not> ee_isdigit c then (CORE_INVALID, count CORE_INT cnt)
           else (CORE_INT, cnt))
      | CORE_FLOAT \<Rightarrow>
          (if c = 69 \<or> c = 101 then (CORE_S2, count CORE_FLOAT cnt)
           else if \<not> ee_isdigit c then (CORE_INVALID, count CORE_FLOAT cnt)
           else (CORE_FLOAT, cnt))
      | CORE_S2 \<Rightarrow>
          (if c = 43 \<or> c = 45 then (CORE_EXPONENT, count CORE_S2 cnt)
           else (CORE_INVALID, count CORE_S2 cnt))
      | CORE_EXPONENT \<Rightarrow>
          (if ee_isdigit c then (CORE_SCIENTIFIC, count CORE_EXPONENT cnt)
           else (CORE_INVALID, count CORE_EXPONENT cnt))
      | CORE_SCIENTIFIC \<Rightarrow>
          (if \<not> ee_isdigit c then (CORE_INVALID, count CORE_INVALID cnt) else (CORE_SCIENTIFIC, cnt))
      | CORE_INVALID \<Rightarrow> (CORE_INVALID, cnt))"

function transition_loop :: "u8 list \<Rightarrow> nat \<Rightarrow> core_state \<Rightarrow> counts \<Rightarrow> abort + core_state \<times> nat \<times> counts" where
  "transition_loop xs p st cnt =
     (if length xs \<le> p then Inl OutOfBounds
      else if xs ! p = 0 \<or> st = CORE_INVALID then Inr (st, p, cnt)
      else if xs ! p = 44 then Inr (st, p + 1, cnt)
      else let (st, cnt) = transition (xs ! p) st cnt in transition_loop xs (p + 1) st cnt)"
  by pat_completeness auto

termination
  by (relation "measure (\<lambda>(xs, p, _). length xs - p)") auto

declare transition_loop.simps [simp del]

definition core_state_transition :: "u8 list \<Rightarrow> nat \<Rightarrow> counts \<Rightarrow> abort + core_state \<times> nat \<times> counts" where
  "core_state_transition xs p cnt = transition_loop xs p CORE_START cnt"

lemma transition_loop_mono:
  "transition_loop xs p st cnt = Inr (st', q, cnt') \<Longrightarrow> p \<le> q \<and> q \<le> length xs"
proof (induction xs p st cnt rule: transition_loop.induct)
  case (1 xs p st cnt)
  then show ?case
    by (subst (asm) (2) transition_loop.simps) (fastforce split: if_splits prod.splits simp: Let_def)
qed

lemma transition_progress:
  assumes "core_state_transition xs p cnt = Inr (st', q, cnt')" "p < length xs" "xs ! p \<noteq> 0"
  shows "p < q \<and> q \<le> length xs"
  using assms unfolding core_state_transition_def
  by (subst (asm) transition_loop.simps)
    (auto split: if_splits prod.splits dest!: transition_loop_mono)

text \<open>The loop of the benchmark over the tokens of the block.\<close>

function scan :: "u8 list \<Rightarrow> nat \<Rightarrow> counts \<Rightarrow> counts \<Rightarrow> abort + counts \<times> counts" where
  "scan xs p final track =
     (if length xs \<le> p then Inl OutOfBounds
      else if xs ! p = 0 then Inr (final, track)
      else case core_state_transition xs p track of Inl e \<Rightarrow> Inl e
           | Inr (fstate, q, track) \<Rightarrow> scan xs q (count fstate final) track)"
  by pat_completeness auto

termination
  by (relation "measure (\<lambda>(xs, p, _). length xs - p)") (auto dest!: transition_progress)

declare scan.simps [simp del]

section \<open>The benchmark\<close>

text \<open>The loop that corrupts every \<open>step\<close>-th byte, or undoes that; it does not end, or runs out of
  the block, with a step that is not positive.\<close>

partial_function (option) corrupt :: "u8 \<Rightarrow> int \<Rightarrow> int \<Rightarrow> int \<Rightarrow> u8 list \<Rightarrow> (abort + u8 list) option" where
  "corrupt seed step blksize p xs =
     (if p < blksize then
        if p < 0 \<or> int (length xs) \<le> p then Some (Inl OutOfBounds)
        else corrupt seed step blksize (p + step)
               (if xs ! nat p \<noteq> 44 then xs[nat p := xs ! nat p XOR seed] else xs)
      else Some (Inr xs))"

definition crc_counts :: "counts \<Rightarrow> counts \<Rightarrow> u16 \<Rightarrow> u16" where
  "crc_counts final track crc = foldl (\<lambda>crc i. crcu32 (track i) (crcu32 (final i) crc)) crc core_states"

definition core_bench_state :: "u32 \<Rightarrow> u8 list \<Rightarrow> u16 \<Rightarrow> u16 \<Rightarrow> u16 \<Rightarrow> u16 \<Rightarrow> (abort + u16 \<times> u8 list) option" where
  "core_bench_state blksize xs seed1 seed2 step crc =
     (case scan xs 0 (\<lambda>_. 0) (\<lambda>_. 0) of Inl e \<Rightarrow> Some (Inl e)
      | Inr (final, track) \<Rightarrow>
          Option.bind (corrupt (ucast seed1) (sint step) (uint blksize) 0 xs) (\<lambda>r. case r of Inl e \<Rightarrow> Some (Inl e)
          | Inr xs \<Rightarrow>
              (case scan xs 0 final track of Inl e \<Rightarrow> Some (Inl e)
               | Inr (final, track) \<Rightarrow>
                   Option.bind (corrupt (ucast seed2) (sint step) (uint blksize) 0 xs) (\<lambda>r. case r of Inl e \<Rightarrow> Some (Inl e)
                   | Inr xs \<Rightarrow> Some (Inr (crc_counts final track crc, xs))))))"

section \<open>The input\<close>

definition ascii :: "string \<Rightarrow> u8 list" where
  "ascii s = map of_char s"

definition intpat :: "u8 list list" where
  "intpat = map ascii [''5012'', ''1234'', ''-874'', ''+122'']"

definition floatpat :: "u8 list list" where
  "floatpat = map ascii [''35.54400'', ''.1234500'', ''-110.700'', ''+0.64400'']"

definition scipat :: "u8 list list" where
  "scipat = map ascii [''5.500e+3'', ''-.123e-2'', ''-87e+832'', ''+0.6e-12'']"

definition errpat :: "u8 list list" where
  "errpat = map ascii [''T0.3e-1F'', ''-T.T++Tq'', ''1T3.4e4z'', ''34.0e-T^'']"

text \<open>The pattern of a seed; its length is the next \<open>next\<close>.\<close>

definition pattern :: "u16 \<Rightarrow> u8 list" where
  "pattern seed =
     (let k = unat (seed AND 7); i = unat (drop_bit 3 seed AND 3)
      in if k \<le> 2 then intpat ! i else if k \<le> 4 then floatpat ! i else if k \<le> 6 then scipat ! i else errpat ! i)"

text \<open>\<open>put_pattern\<close> is the inner loop with the comma.\<close>

definition put_pattern :: "u8 list \<Rightarrow> nat \<Rightarrow> u8 list \<Rightarrow> abort + u8 list" where
  "put_pattern buf tot xs =
     (if tot + length buf < length xs
      then Inr (take tot xs @ buf @ [44] @ drop (tot + length buf + 1) xs)
      else Inl OutOfBounds)"

partial_function (option) init_loop :: "u32 \<Rightarrow> u16 \<Rightarrow> u32 \<Rightarrow> u8 list \<Rightarrow> u8 list \<Rightarrow> (abort + u32 \<times> u8 list) option" where
  "init_loop sz seed tot buf xs =
     (if tot + of_nat (length buf) + 1 < sz then
        (case (if buf \<noteq> [] then put_pattern buf (unat tot) xs else Inr xs) of Inl e \<Rightarrow> Some (Inl e)
         | Inr xs \<Rightarrow>
             (let tot = (if buf \<noteq> [] then tot + of_nat (length buf) + 1 else tot); seed = seed + 1
              in init_loop sz seed tot (pattern seed) xs))
      else Some (Inr (tot, xs)))"

definition zero_fill :: "nat \<Rightarrow> nat \<Rightarrow> u8 list \<Rightarrow> abort + u8 list" where
  "zero_fill tot sz xs =
     (if tot < sz then
        if sz \<le> length xs then Inr (take tot xs @ replicate (sz - tot) 0 @ drop sz xs) else Inl OutOfBounds
      else Inr xs)"

definition core_init_state :: "u32 \<Rightarrow> u16 \<Rightarrow> u8 list \<Rightarrow> (abort + u8 list) option" where
  "core_init_state sz seed xs =
     Option.bind (init_loop (sz - 1) seed 0 [] xs) (\<lambda>r. case r of Inl e \<Rightarrow> Some (Inl e)
     | Inr (tot, xs) \<Rightarrow> Some (zero_fill (unat tot) (unat sz) xs))"


section \<open>The machine recognises numbers\<close>

text \<open>The formats the states stand for.\<close>

definition digits :: "u8 list \<Rightarrow> bool" where
  "digits ds \<longleftrightarrow> (\<forall>c \<in> set ds. ee_isdigit c)"

definition sign :: "u8 list \<Rightarrow> bool" where
  "sign s \<longleftrightarrow> s \<in> {[], [43], [45]}"

definition int_lit :: "u8 list \<Rightarrow> bool" where
  "int_lit w \<longleftrightarrow> (\<exists>s ds. w = s @ ds \<and> sign s \<and> digits ds \<and> ds \<noteq> [])"

definition float_lit :: "u8 list \<Rightarrow> bool" where
  "float_lit w \<longleftrightarrow> (\<exists>s ds fs. w = s @ ds @ [46] @ fs \<and> sign s \<and> digits ds \<and> digits fs)"

definition sci_lit :: "u8 list \<Rightarrow> bool" where
  "sci_lit w \<longleftrightarrow> (\<exists>f e s ds. w = f @ [e, s] @ ds \<and> float_lit f \<and> e \<in> {69, 101} \<and> s \<in> {43, 45} \<and> digits ds \<and> ds \<noteq> [])"

definition number :: "u8 list \<Rightarrow> bool" where
  "number w \<longleftrightarrow> int_lit w \<or> float_lit w \<or> sci_lit w"

fun lang :: "core_state \<Rightarrow> u8 list \<Rightarrow> bool" where
  "lang CORE_START w = (w = [])"
| "lang CORE_S1 w = (w = [43] \<or> w = [45])"
| "lang CORE_INT w = int_lit w"
| "lang CORE_FLOAT w = float_lit w"
| "lang CORE_S2 w = (\<exists>f e. w = f @ [e] \<and> float_lit f \<and> e \<in> {69, 101})"
| "lang CORE_EXPONENT w = (\<exists>f e s. w = f @ [e, s] \<and> float_lit f \<and> e \<in> {69, 101} \<and> s \<in> {43, 45})"
| "lang CORE_SCIENTIFIC w = sci_lit w"
| "lang CORE_INVALID w = True"

definition nxt :: "core_state \<Rightarrow> u8 \<Rightarrow> core_state" where
  "nxt st c = fst (transition c st (\<lambda>_. 0))"

lemma fst_transition [simp]: "fst (transition c st cnt) = nxt st c"
  unfolding nxt_def transition_def by (cases st) (auto simp only: core_state.case fst_conv if_distrib [of fst])

lemma nxt_simps [simp]:
  "nxt CORE_START c = (if ee_isdigit c then CORE_INT else if c = 43 \<or> c = 45 then CORE_S1 else if c = 46 then CORE_FLOAT else CORE_INVALID)"
  "nxt CORE_S1 c = (if ee_isdigit c then CORE_INT else if c = 46 then CORE_FLOAT else CORE_INVALID)"
  "nxt CORE_INT c = (if c = 46 then CORE_FLOAT else if ee_isdigit c then CORE_INT else CORE_INVALID)"
  "nxt CORE_FLOAT c = (if c = 69 \<or> c = 101 then CORE_S2 else if ee_isdigit c then CORE_FLOAT else CORE_INVALID)"
  "nxt CORE_S2 c = (if c = 43 \<or> c = 45 then CORE_EXPONENT else CORE_INVALID)"
  "nxt CORE_EXPONENT c = (if ee_isdigit c then CORE_SCIENTIFIC else CORE_INVALID)"
  "nxt CORE_SCIENTIFIC c = (if ee_isdigit c then CORE_SCIENTIFIC else CORE_INVALID)"
  "nxt CORE_INVALID c = CORE_INVALID"
  by (simp_all add: nxt_def transition_def)

definition final_state :: "u8 list \<Rightarrow> core_state" where
  "final_state w = foldl nxt CORE_START w"

lemma digits_simps [simp]: "digits []" "digits (c # cs) \<longleftrightarrow> ee_isdigit c \<and> digits cs" "digits (cs @ ds) \<longleftrightarrow> digits cs \<and> digits ds"
  by (auto simp: digits_def)

lemma isdigit_marks [simp]: "\<not> ee_isdigit 43" "\<not> ee_isdigit 45" "\<not> ee_isdigit 46" "\<not> ee_isdigit 69" "\<not> ee_isdigit 101"
  by (simp_all add: ee_isdigit_def)

lemma foldl_digits_stay [simp]:
  "digits ds \<Longrightarrow> foldl nxt CORE_INT ds = CORE_INT"
  "digits ds \<Longrightarrow> foldl nxt CORE_FLOAT ds = CORE_FLOAT"
  "digits ds \<Longrightarrow> foldl nxt CORE_SCIENTIFIC ds = CORE_SCIENTIFIC"
  by (induction ds) (auto simp: ee_isdigit_def)

lemma foldl_invalid [simp]: "foldl nxt CORE_INVALID w = CORE_INVALID"
  by (induction w) auto

lemma int_litI: "sign s \<Longrightarrow> digits ds \<Longrightarrow> ds \<noteq> [] \<Longrightarrow> int_lit (s @ ds)"
  unfolding int_lit_def by blast

lemma float_litI: "sign s \<Longrightarrow> digits ds \<Longrightarrow> digits fs \<Longrightarrow> float_lit (s @ ds @ [46] @ fs)"
  unfolding float_lit_def by blast

lemma sci_litI:
  "float_lit f \<Longrightarrow> e \<in> {69, 101} \<Longrightarrow> s \<in> {43, 45} \<Longrightarrow> digits ds \<Longrightarrow> ds \<noteq> [] \<Longrightarrow> sci_lit (f @ [e, s] @ ds)"
  unfolding sci_lit_def by blast

lemma sign_simps [simp]: "sign []" "sign [43]" "sign [45]"
  by (simp_all add: sign_def)

lemma int_snoc [simp]:
  assumes "ee_isdigit c"
  shows "int_lit w \<Longrightarrow> int_lit (w @ [c])" "int_lit [c]" "int_lit [43, c]" "int_lit [45, c]"
proof -
  assume "int_lit w"
  then obtain s ds where w: "w = s @ ds" "sign s" "digits ds" unfolding int_lit_def by blast
  then show "int_lit (w @ [c])" using int_litI [of s "ds @ [c]"] assms by simp
next
  show "int_lit [c]" "int_lit [43, c]" "int_lit [45, c]"
    using int_litI [of "[]" "[c]"] int_litI [of "[43]" "[c]"] int_litI [of "[45]" "[c]"] assms by simp_all
qed

lemma float_snoc_dot [simp]:
  "int_lit w \<Longrightarrow> float_lit (w @ [46])" "float_lit [46]" "float_lit [43, 46]" "float_lit [45, 46]"
proof -
  assume "int_lit w"
  then obtain s ds where "w = s @ ds" "sign s" "digits ds" unfolding int_lit_def by blast
  then show "float_lit (w @ [46])" using float_litI [of s ds "[]"] by simp
next
  show "float_lit [46]" "float_lit [43, 46]" "float_lit [45, 46]"
    using float_litI [of "[]" "[]" "[]"] float_litI [of "[43]" "[]" "[]"] float_litI [of "[45]" "[]" "[]"] by simp_all
qed

lemma float_snoc [simp]: "float_lit w \<Longrightarrow> ee_isdigit c \<Longrightarrow> float_lit (w @ [c])"
proof -
  assume "float_lit w" "ee_isdigit c"
  then obtain s ds fs where "w = s @ ds @ [46] @ fs" "sign s" "digits ds" "digits fs" unfolding float_lit_def by blast
  with \<open>ee_isdigit c\<close> show ?thesis using float_litI [of s ds "fs @ [c]"] by simp
qed

lemma sci_snoc [simp]: "sci_lit w \<Longrightarrow> ee_isdigit c \<Longrightarrow> sci_lit (w @ [c])"
proof -
  assume "sci_lit w" "ee_isdigit c"
  then obtain f e s ds where "w = f @ [e, s] @ ds" "float_lit f" "e \<in> {69, 101}" "s \<in> {43, 45}" "digits ds"
    unfolding sci_lit_def by blast
  with \<open>ee_isdigit c\<close> show ?thesis using sci_litI [of f e s "ds @ [c]"] by simp
qed

lemma final_snoc: "final_state (w @ [c]) = nxt (final_state w) c"
  by (simp add: final_state_def)

lemma final_lang: "lang (final_state w) w"
proof (induction w rule: rev_induct)
  case (snoc c w)
  show ?case
  proof (cases "final_state w")
    case CORE_EXPONENT
    with snoc obtain f e s where w: "w = f @ [e, s]" "float_lit f" "e \<in> {69, 101}" "s \<in> {43, 45}" by auto
    with CORE_EXPONENT show ?thesis using sci_litI [OF w(2-4), of "[c]"] unfolding final_snoc by simp
  next
    case CORE_S2
    with snoc obtain f e where w: "w = f @ [e]" "float_lit f" "e \<in> {69, 101}" by auto
    then show ?thesis unfolding final_snoc CORE_S2 by auto
  qed (use snoc final_snoc [of w c] in auto)
qed (simp add: final_state_def)

lemma lang_final: "lang st w \<Longrightarrow> st \<noteq> CORE_INVALID \<Longrightarrow> final_state w = st"
proof -
  have i: "final_state w = CORE_INT" if "int_lit w" for w
  proof -
    from that obtain s ds where w: "w = s @ ds" "sign s" "digits ds" "ds \<noteq> []" unfolding int_lit_def by blast
    then show ?thesis by (cases ds) (auto simp: final_state_def sign_def)
  qed
  have f: "final_state w = CORE_FLOAT" if "float_lit w" for w
  proof -
    from that obtain s ds fs where w: "w = s @ ds @ [46] @ fs" "sign s" "digits ds" "digits fs" unfolding float_lit_def by blast
    then show ?thesis by (cases ds) (auto simp: final_state_def sign_def)
  qed
  have s: "final_state (f @ [e]) = CORE_S2" "final_state (f @ [e, x]) = CORE_EXPONENT"
    if "float_lit f" "e \<in> {69, 101}" "x \<in> {43, 45}" for f e x
    using f [OF that(1)] that(2,3) by (auto simp: final_state_def)
  have c: "final_state w = CORE_SCIENTIFIC" if "sci_lit w" for w
  proof -
    from that obtain f e x ds where w: "w = f @ [e, x] @ ds" "float_lit f" "e \<in> {69, 101}" "x \<in> {43, 45}" "digits ds" "ds \<noteq> []"
      unfolding sci_lit_def by blast
    have "final_state w = foldl nxt (final_state (f @ [e, x])) ds" by (simp add: final_state_def w(1))
    then show ?thesis using s(2) [OF w(2-4)] w(5,6) by (cases ds) auto
  qed
  show "lang st w \<Longrightarrow> st \<noteq> CORE_INVALID \<Longrightarrow> final_state w = st"
    using i f s c by (cases st) (auto simp: final_state_def)
qed

lemma final_invalid: "final_state w = CORE_INVALID \<longleftrightarrow> (\<nexists>v. number (w @ v))"
proof
  assume "final_state w = CORE_INVALID"
  then have "final_state (w @ v) = CORE_INVALID" for v by (simp add: final_state_def)
  then show "\<nexists>v. number (w @ v)"
    using lang_final [of CORE_INT] lang_final [of CORE_FLOAT] lang_final [of CORE_SCIENTIFIC] by (force simp: number_def)
next
  assume n: "\<nexists>v. number (w @ v)"
  have d: "digits [48]" by (simp add: ee_isdigit_def)
  show "final_state w = CORE_INVALID"
  proof (cases "final_state w")
    case CORE_S2
    with final_lang [of w] obtain f e where "w = f @ [e]" "float_lit f" "e \<in> {69, 101}" by auto
    with n d show ?thesis using sci_litI [of f e 43 "[48]"] by (auto simp: number_def)
  next
    case CORE_EXPONENT
    with final_lang [of w] obtain f e s where "w = f @ [e, s]" "float_lit f" "e \<in> {69, 101}" "s \<in> {43, 45}" by auto
    with n d show ?thesis using sci_litI [of f e s "[48]"] by (auto simp: number_def)
  next
    case CORE_START
    with final_lang [of w] n d show ?thesis using int_litI [of "[]" "[48]"] by (auto simp: number_def)
  next
    case CORE_S1
    have "int_lit [43, 48]" "int_lit [45, 48]" using d by simp_all
    with CORE_S1 final_lang [of w] n show ?thesis by (auto simp: number_def dest: spec [of _ "[48]"])
  qed (use final_lang [of w] n in \<open>auto simp: number_def dest: spec [of _ "[]"]\<close>)
qed

lemma transition_loop_token:
  assumes "xs = us @ w @ t # vs" "t \<in> {0, 44}" "0 \<notin> set w" "44 \<notin> set w" "p = length us"
  shows "\<exists>q cnt'. transition_loop xs p st cnt = Inr (foldl nxt st w, q, cnt') \<and> p \<le> q
    \<and> (foldl nxt st w \<noteq> CORE_INVALID \<longrightarrow> q = p + length w + of_bool (t = 44))"
  using assms
proof (induction w arbitrary: us p st cnt)
  case Nil
  then show ?case by (subst transition_loop.simps) auto
next
  case (Cons c w)
  have l: "\<not> length xs \<le> p" "xs ! p = c" "c \<noteq> 0" "c \<noteq> 44" using Cons.prems by auto
  show ?case
  proof (cases "st = CORE_INVALID")
    case True
    with l show ?thesis by (subst transition_loop.simps) simp
  next
    case False
    obtain st1 cnt1 where tr: "transition c st cnt = (st1, cnt1)" by fastforce
    then have "st1 = nxt st c" using fst_transition [of c st cnt] by simp
    moreover have "xs = (us @ [c]) @ w @ t # vs" "0 \<notin> set w" "44 \<notin> set w" "p + 1 = length (us @ [c])"
      using Cons.prems by simp_all
    from Cons.IH [OF this(1) Cons.prems(2) this(2-4), of st1 cnt1] l False tr \<open>st1 = nxt st c\<close>
    show ?thesis by (subst transition_loop.simps) auto
  qed
qed

text \<open>C25: from the first character of a token, up to the next comma or NUL, the machine stops in
  the state of its format: integer, number with a point, or number with an exponent.  It stops as
  invalid, if need be before the end of the token, exactly when the token does not begin any number,
  and otherwise behind the token and its comma.\<close>

theorem state_classifies:
  assumes "xs = us @ w @ t # vs" "t \<in> {0, 44}" "0 \<notin> set w" "44 \<notin> set w"
  shows "\<exists>st q cnt'. core_state_transition xs (length us) cnt = Inr (st, q, cnt')
    \<and> (st = CORE_INT \<longleftrightarrow> int_lit w) \<and> (st = CORE_FLOAT \<longleftrightarrow> float_lit w) \<and> (st = CORE_SCIENTIFIC \<longleftrightarrow> sci_lit w)
    \<and> (st = CORE_INVALID \<longleftrightarrow> (\<nexists>v. number (w @ v)))
    \<and> (st \<noteq> CORE_INVALID \<longrightarrow> q = length us + length w + of_bool (t = 44))"
proof -
  obtain q cnt' where "core_state_transition xs (length us) cnt = Inr (final_state w, q, cnt')"
    "final_state w \<noteq> CORE_INVALID \<longrightarrow> q = length us + length w + of_bool (t = 44)"
    using transition_loop_token [OF assms refl, of CORE_START cnt]
    unfolding core_state_transition_def final_state_def by blast
  moreover have "final_state w = CORE_INT \<longleftrightarrow> int_lit w" "final_state w = CORE_FLOAT \<longleftrightarrow> float_lit w"
    "final_state w = CORE_SCIENTIFIC \<longleftrightarrow> sci_lit w"
    using final_lang [of w] lang_final [of CORE_INT w] lang_final [of CORE_FLOAT w] lang_final [of CORE_SCIENTIFIC w]
    by (metis lang.simps core_state.distinct)+
  ultimately show ?thesis using final_invalid [of w] by blast
qed

text \<open>\<open>-12.5,\<close>\<close>

lemma state_classifies_witness:
  "\<exists>q cnt. core_state_transition [45, 49, 50, 46, 53, 44, 0] 0 (\<lambda>_. 0) = Inr (CORE_FLOAT, q, cnt)"
proof -
  have "float_lit [45, 49, 50, 46, 53]" using float_litI [of "[45]" "[49, 50]" "[53]"] by (simp add: ee_isdigit_def)
  with state_classifies [of "[45, 49, 50, 46, 53, 44, 0]" "[]" "[45, 49, 50, 46, 53]" 44 "[0]" "\<lambda>_. 0"] show ?thesis by auto
qed

section \<open>The benchmark restores its block\<close>

lemma transition_loop_zero:
  assumes "i < length xs" "xs ! i = 0"
  shows "p \<le> i \<Longrightarrow> \<exists>st' q cnt'. transition_loop xs p st cnt = Inr (st', q, cnt') \<and> q \<le> i"
proof (induction "i - p" arbitrary: p st cnt)
  case 0
  with assms show ?case by (subst transition_loop.simps) auto
next
  case (Suc n)
  obtain st1 cnt1 where tr: "transition (xs ! p) st cnt = (st1, cnt1)" by fastforce
  have "n = i - (p + 1)" "p + 1 \<le> i" using Suc(2) by simp_all
  from Suc(1) [OF this, of st1 cnt1] show ?case using assms(1) Suc(2) tr
    by (subst transition_loop.simps) auto
qed

lemma scan_zero:
  assumes "i < length xs" "xs ! i = 0"
  shows "p \<le> i \<Longrightarrow> \<exists>r. scan xs p final track = Inr r"
proof (induction "i - p" arbitrary: p final track rule: less_induct)
  case less
  obtain st q cnt where q: "core_state_transition xs p track = Inr (st, q, cnt)" "q \<le> i"
    using transition_loop_zero [OF assms less.prems, of CORE_START track] by (auto simp: core_state_transition_def)
  show ?case
  proof (cases "xs ! p = 0")
    case True
    with less.prems assms show ?thesis by (subst scan.simps) simp
  next
    case False
    then have "p < q" using transition_progress [OF q(1)] less.prems assms by simp
    then have "i - q < i - p" using q(2) by simp
    from less.hyps [OF this q(2)] q less.prems assms False show ?thesis by (subst scan.simps) auto
  qed
qed

lemma corrupt_nth:
  assumes "0 < step" "0 \<le> p"
  shows "\<exists>ys. corrupt seed step (int (length xs)) p xs = Some (Inr ys) \<and> length ys = length xs
    \<and> (\<forall>i < length xs. ys ! i = (if p \<le> int i \<and> step dvd int i - p \<and> xs ! i \<noteq> 44 then xs ! i XOR seed else xs ! i))"
  using assms(2)
proof (induction "nat (int (length xs) - p)" arbitrary: p xs rule: less_induct)
  case less
  show ?case
  proof (cases "p < int (length xs)")
    case False
    then show ?thesis by (subst corrupt.simps) auto
  next
    case True
    define xs1 where "xs1 = (if xs ! nat p \<noteq> 44 then xs[nat p := xs ! nat p XOR seed] else xs)"
    have l: "length xs1 = length xs" by (simp add: xs1_def)
    have "nat (int (length xs1) - (p + step)) < nat (int (length xs) - p)" "0 \<le> p + step"
      using True assms(1) less.prems l by auto
    from less.hyps [OF this] obtain ys where ys: "corrupt seed step (int (length xs)) (p + step) xs1 = Some (Inr ys)"
      "length ys = length xs"
      "\<forall>i < length xs. ys ! i = (if p + step \<le> int i \<and> step dvd int i - (p + step) \<and> xs1 ! i \<noteq> 44 then xs1 ! i XOR seed else xs1 ! i)"
      unfolding l by auto
    have "corrupt seed step (int (length xs)) p xs = Some (Inr ys)"
      using True less.prems ys(1) by (subst corrupt.simps) (simp add: xs1_def)
    moreover have "ys ! i = (if p \<le> int i \<and> step dvd int i - p \<and> xs ! i \<noteq> 44 then xs ! i XOR seed else xs ! i)"
      if i: "i < length xs" for i
    proof (cases "int i = p")
      case True
      then show ?thesis using ys(3) i assms(1) by (auto simp: xs1_def)
    next
      case False
      then have "xs1 ! i = xs ! i" using less.prems by (auto simp: xs1_def)
      moreover have "p + step \<le> int i \<and> step dvd int i - (p + step) \<longleftrightarrow> p \<le> int i \<and> step dvd int i - p"
      proof -
        have "step dvd int i - (p + step) \<longleftrightarrow> step dvd int i - p"
          using dvd_diff_left_iff [of step step "int i - p"] by (simp add: diff_diff_eq [symmetric])
        moreover have "p + step \<le> int i" if "p \<le> int i" "step dvd int i - p"
          using zdvd_imp_le [of step "int i - p"] that False by simp
        ultimately show ?thesis using assms(1) by auto
      qed
      ultimately show ?thesis using ys(3) i by auto
    qed
    ultimately show ?thesis using ys(2) by blast
  qed
qed

lemma corrupt_twice:
  assumes "0 < step" "corrupt seed step (int (length xs)) 0 xs = Some (Inr ys)"
    "\<forall>x \<in> set xs. x \<noteq> 44 \<longrightarrow> x XOR seed \<noteq> 44"
  shows "length ys = length xs \<and> corrupt seed step (int (length xs)) 0 ys = Some (Inr xs)
    \<and> (\<forall>i < length xs. \<not> step dvd int i \<longrightarrow> ys ! i = xs ! i)"
proof -
  have ys: "length ys = length xs"
    "\<forall>i < length xs. ys ! i = (if step dvd int i \<and> xs ! i \<noteq> 44 then xs ! i XOR seed else xs ! i)"
    using corrupt_nth [OF assms(1), of 0 seed xs] assms(2) by auto
  obtain zs where zs: "corrupt seed step (int (length ys)) 0 ys = Some (Inr zs)" "length zs = length ys"
    "\<forall>i < length ys. zs ! i = (if step dvd int i \<and> ys ! i \<noteq> 44 then ys ! i XOR seed else ys ! i)"
    using corrupt_nth [OF assms(1), of 0 seed ys] by auto
  have "zs ! i = xs ! i" if "i < length xs" for i
    using that ys zs(3) assms(3) nth_mem [OF that] by (auto simp: xor.assoc)
  then have "zs = xs" using zs(2) ys(1) by (intro nth_equalityI) auto
  with ys zs(1) show ?thesis by auto
qed

lemma bench_state_restores:
  assumes "length xs = unat sz" "2 \<le> length xs" "xs ! (length xs - 1) = 0" "xs ! (length xs - 2) = 0" "2 \<le> sint step"
    "\<forall>x \<in> set xs. x \<noteq> 44 \<longrightarrow> x XOR ucast seed \<noteq> 44"
  shows "\<exists>crc'. core_bench_state sz xs seed seed step crc = Some (Inr (crc', xs))"
proof -
  have n: "uint sz = int (length xs)" using assms(1) by simp
  have s: "0 < sint step" using assms(5) by simp
  obtain ys where ys: "corrupt (ucast seed) (sint step) (int (length xs)) 0 xs = Some (Inr ys)"
    using corrupt_nth [OF s, of 0 "ucast seed" xs] by auto
  from corrupt_twice [OF s ys assms(6)] have undo: "corrupt (ucast seed) (sint step) (int (length xs)) 0 ys = Some (Inr xs)"
    and l: "length ys = length xs" and same: "\<forall>i < length xs. \<not> sint step dvd int i \<longrightarrow> ys ! i = xs ! i" by auto
  have "\<not> sint step dvd int (length xs - 1) \<or> \<not> sint step dvd int (length xs - 2)"
  proof (rule ccontr)
    assume "\<not> ?thesis"
    then have "sint step dvd int (length xs - 1) - int (length xs - 2)" by (simp add: dvd_diff)
    then have "sint step dvd 1" using assms(2) by (simp add: of_nat_diff)
    with assms(5) show False by simp
  qed
  moreover have m: "length xs - 1 < length xs" "length xs - 2 < length xs" using assms(2) by simp_all
  ultimately obtain i where i: "i < length ys" "ys ! i = 0" using same l assms(3,4) by metis
  obtain f1 t1 where r1: "scan xs 0 (\<lambda>_. 0) (\<lambda>_. 0) = Inr (f1, t1)"
    using scan_zero [OF m(1) assms(3), of 0] by (metis le0 old.prod.exhaust)
  obtain f2 t2 where r2: "scan ys 0 f1 t1 = Inr (f2, t2)"
    using scan_zero [OF i, of 0] by (metis le0 old.prod.exhaust)
  show ?thesis using r1 r2 ys undo by (simp add: core_bench_state_def n)
qed

definition pattern_bytes :: "u8 set" where
  "pattern_bytes = set (concat (intpat @ floatpat @ scipat @ errpat))"

lemma pattern_props: "set (pattern seed) \<subseteq> pattern_bytes \<and> pattern seed \<noteq> [] \<and> length (pattern seed) \<le> 8"
proof -
  have "(3 :: u16) = mask 2" by (simp add: mask_eq_exp_minus_1)
  then have "unat (drop_bit 3 seed AND 3) < 4" by (simp only: unat_and_mask) simp
  moreover have "set xs \<subseteq> pattern_bytes \<and> xs \<noteq> [] \<and> length xs \<le> 8"
    if "xs \<in> set (intpat @ floatpat @ scipat @ errpat)" for xs
    using that by (auto simp: pattern_bytes_def) (auto simp: intpat_def floatpat_def scipat_def errpat_def ascii_def)
  moreover have "length intpat = 4" "length floatpat = 4" "length scipat = 4" "length errpat = 4"
    by (simp_all add: intpat_def floatpat_def scipat_def errpat_def)
  ultimately show ?thesis unfolding pattern_def Let_def by (simp split: if_split)
qed

lemma init_loop_ok:
  assumes "length xs = unat n + 1" "unat n < 2 ^ 31" "tot < n" "length buf \<le> 8" "set buf \<subseteq> pattern_bytes"
    "set (take (unat tot) xs) \<subseteq> insert 44 pattern_bytes"
  shows "\<exists>tot' ys. init_loop n seed tot buf xs = Some (Inr (tot', ys)) \<and> length ys = length xs \<and> tot' < n
    \<and> set (take (unat tot') ys) \<subseteq> insert 44 pattern_bytes"
  using assms
proof (induction "2 * (unat n - unat tot) + of_bool (buf = [])" arbitrary: seed tot buf xs rule: less_induct)
  case less
  have lt: "unat tot < unat n" using less.prems(3) by (simp add: word_less_nat_alt)
  have s: "unat (tot + of_nat (length buf) + 1) = unat tot + length buf + 1"
    using lt less.prems(2,4) by (simp add: unat_word_ariths unat_of_nat)
  note pat = pattern_props [of "seed + 1"]
  show ?case
  proof (cases "tot + of_nat (length buf) + 1 < n")
    case False
    then show ?thesis using less.prems by (subst init_loop.simps) simp
  next
    case True
    then have t: "unat tot + length buf + 1 < unat n" using s by (simp add: word_less_nat_alt)
    show ?thesis
    proof (cases "buf = []")
      case nil: True
      have d: "2 * (unat n - unat tot) + of_bool (pattern (seed + 1) = []) < 2 * (unat n - unat tot) + of_bool (buf = [])"
        using nil pat by simp
      from less.hyps [OF d less.prems(1-3), of "seed + 1"] pat less.prems(6)
      show ?thesis using True nil by (subst init_loop.simps) (simp add: Let_def)
    next
      case False
      define ys where "ys = take (unat tot) xs @ buf @ [44] @ drop (unat tot + length buf + 1) xs"
      have p: "put_pattern buf (unat tot) xs = Inr ys" using t less.prems(1) by (simp add: put_pattern_def ys_def)
      let ?t = "tot + of_nat (length buf) + 1"
      have "take (unat ?t) ys = take (unat tot) xs @ buf @ [44]" unfolding s using t less.prems(1) by (simp add: ys_def)
      then have inv: "set (take (unat ?t) ys) \<subseteq> insert 44 pattern_bytes" using less.prems(5,6) by auto
      have l: "length ys = unat n + 1" using t less.prems(1) by (simp add: ys_def)
      have d: "2 * (unat n - unat ?t) + of_bool (pattern (seed + 1) = []) < 2 * (unat n - unat tot) + of_bool (buf = [])"
        unfolding s using False pat t by simp
      from less.hyps [OF d l less.prems(2) True _ _ inv, of "seed + 1"] pat
      show ?thesis using True False p l less.prems(1) by (subst init_loop.simps) (simp add: Let_def)
    qed
  qed
qed

lemma init_state_ok:
  assumes "length xs = unat sz" "2 \<le> length xs" "length xs \<le> 2 ^ 31"
  obtains ys where "core_init_state sz seed xs = Some (Inr ys)" "length ys = length xs" "ys ! (length ys - 1) = 0"
    "ys ! (length ys - 2) = 0" "set ys \<subseteq> insert 0 (insert 44 pattern_bytes)"
proof -
  have n: "unat (sz - 1) = unat sz - 1" using assms(1,2) by (intro unat_minus_one) auto
  have "(0 :: u32) < sz - 1" using n assms(1,2) by (simp add: word_less_nat_alt)
  then obtain tot zs where z: "init_loop (sz - 1) seed 0 [] xs = Some (Inr (tot, zs))" "length zs = length xs"
    "tot < sz - 1" "set (take (unat tot) zs) \<subseteq> insert 44 pattern_bytes"
    using init_loop_ok [of xs "sz - 1" 0 "[]" seed] n assms(1-3) by fastforce
  have t: "unat tot + 2 \<le> unat sz" using z(3) n by (simp add: word_less_nat_alt)
  define ys where "ys = take (unat tot) zs @ replicate (unat sz - unat tot) 0"
  have i: "core_init_state sz seed xs = Some (Inr ys)"
    using z(1,2) t assms(1) by (simp add: core_init_state_def zero_fill_def ys_def)
  have l: "length ys = length xs" using z(2) t assms(1) by (simp add: ys_def)
  have "ys ! (length ys - 1) = 0" "ys ! (length ys - 2) = 0"
    using t z(2) assms(1) by (auto simp: ys_def nth_append)
  moreover have "set ys \<subseteq> insert 0 (insert 44 pattern_bytes)" using z(4) by (auto simp: ys_def)
  ultimately show thesis using that i l by blast
qed



end
