(* ===== verification/CmMatrix.thy ===== *)
theory CmMatrix imports CmUtil "HOL-Library.Signed_Division" begin

text \<open>
  \<open>am-kernels/benchmarks/coremark/src/core_matrix.c\<close>: matrices of 16 bit numbers, products of 32 bits.
  A matrix is its array, from indices to words; the layout of the three arrays in the block is kept
  as their addresses.
\<close>

unbundle bit_operations_syntax

type_synonym matdat = "nat \<Rightarrow> u16"
type_synonym matres = "nat \<Rightarrow> u32"

section \<open>The functions\<close>

definition matrix_clip :: "u16 \<Rightarrow> bool \<Rightarrow> u16" where
  "matrix_clip x y = (if y then x AND 0x0ff else x AND 0xffff)"

definition matrix_big :: "u16 \<Rightarrow> u16" where
  "matrix_big x = 0xf000 OR x"

text \<open>An arithmetic shift, as its argument is signed, and a mask of \<open>to\<close> bits.\<close>

definition bit_extract :: "u32 \<Rightarrow> nat \<Rightarrow> nat \<Rightarrow> u32" where
  "bit_extract x from to = signed_drop_bit from x AND NOT (push_bit to 0xffffffff)"

text \<open>The two nested loops over \<open>i\<close> and \<open>j\<close>.\<close>

definition cells :: "nat \<Rightarrow> (nat \<times> nat) list" where
  "cells n = List.product [0..<n] [0..<n]"

definition matrix_add_const :: "nat \<Rightarrow> matdat \<Rightarrow> u16 \<Rightarrow> matdat" where
  "matrix_add_const n A val = foldl (\<lambda>A (i, j). A(i * n + j := A (i * n + j) + val)) A (cells n)"

definition matrix_mul_const :: "nat \<Rightarrow> matres \<Rightarrow> matdat \<Rightarrow> u16 \<Rightarrow> matres" where
  "matrix_mul_const n C A val = foldl (\<lambda>C (i, j). C(i * n + j := scast (A (i * n + j)) * scast val)) C (cells n)"

definition matrix_mul_vect :: "nat \<Rightarrow> matres \<Rightarrow> matdat \<Rightarrow> matdat \<Rightarrow> matres" where
  "matrix_mul_vect n C A B =
     foldl (\<lambda>C i. foldl (\<lambda>C j. C(i := C i + scast (A (i * n + j)) * scast (B j))) (C(i := 0)) [0..<n]) C [0..<n]"

definition matrix_mul_matrix :: "nat \<Rightarrow> matres \<Rightarrow> matdat \<Rightarrow> matdat \<Rightarrow> matres" where
  "matrix_mul_matrix n C A B =
     foldl (\<lambda>C (i, j).
       foldl (\<lambda>C k. C(i * n + j := C (i * n + j) + scast (A (i * n + k)) * scast (B (k * n + j)))) (C(i * n + j := 0)) [0..<n])
       C (cells n)"

definition matrix_mul_matrix_bitextract :: "nat \<Rightarrow> matres \<Rightarrow> matdat \<Rightarrow> matdat \<Rightarrow> matres" where
  "matrix_mul_matrix_bitextract n C A B =
     foldl (\<lambda>C (i, j).
       foldl (\<lambda>C k. let tmp = scast (A (i * n + k)) * scast (B (k * n + j))
                    in C(i * n + j := C (i * n + j) + bit_extract tmp 2 4 * bit_extract tmp 5 7)) (C(i * n + j := 0)) [0..<n])
       C (cells n)"

text \<open>\<open>ret\<close>, \<open>tmp\<close> and \<open>prev\<close> of the loop.\<close>

definition matrix_sum :: "nat \<Rightarrow> matres \<Rightarrow> u16 \<Rightarrow> u16" where
  "matrix_sum n C clipval =
     fst (foldl (\<lambda>(ret, tmp, prev) (i, j).
       let cur = C (i * n + j); tmp = tmp + cur
       in if sint tmp > sint clipval then (ret + 10, 0, cur)
          else (ret + (if sint cur > sint prev then 1 else 0), tmp, cur)) (0, 0, 0) (cells n))"

definition matrix_test :: "nat \<Rightarrow> matres \<Rightarrow> matdat \<Rightarrow> matdat \<Rightarrow> u16 \<Rightarrow> u16 \<times> matres \<times> matdat" where
  "matrix_test n C A B val =
     (let clipval = matrix_big val;
          A = matrix_add_const n A val;
          C = matrix_mul_const n C A val;
          crc = crc16 (matrix_sum n C clipval) 0;
          C = matrix_mul_vect n C A B;
          crc = crc16 (matrix_sum n C clipval) crc;
          C = matrix_mul_matrix n C A B;
          crc = crc16 (matrix_sum n C clipval) crc;
          C = matrix_mul_matrix_bitextract n C A B;
          crc = crc16 (matrix_sum n C clipval) crc;
          A = matrix_add_const n A (- val)
      in (crc, C, A))"

record mat_params =
  mN :: u32
  mA :: u32
  mB :: u32
  mC :: u32
  datA :: matdat
  datB :: matdat
  datC :: matres

definition core_bench_matrix :: "mat_params \<Rightarrow> u16 \<Rightarrow> u16 \<Rightarrow> u16 \<times> mat_params" where
  "core_bench_matrix p seed crc =
     (let (t, C, A) = matrix_test (unat (mN p)) (datC p) (datA p) (datB p) seed
      in (crc16 t crc, p\<lparr>datC := C, datA := A\<rparr>))"

definition align_mem :: "u32 \<Rightarrow> u32" where
  "align_mem x = 4 + ((x - 1) AND NOT 3)"

text \<open>The loop for the dimension; it may not end if \<open>i * i * 8\<close> wraps around.\<close>

partial_function (option) dim_loop :: "u32 \<Rightarrow> u32 \<Rightarrow> u32 \<Rightarrow> u32 option" where
  "dim_loop blksize i j = (if j < blksize then dim_loop blksize (i + 1) ((i + 1) * (i + 1) * 2 * 4) else Some i)"

definition fill_step :: "nat \<Rightarrow> u32 \<times> u32 \<times> matdat \<times> matdat \<Rightarrow> nat \<times> nat \<Rightarrow> u32 \<times> u32 \<times> matdat \<times> matdat" where
  "fill_step n = (\<lambda>(seed, order, A, B) (i, j).
     let seed = word_of_int (sint (order * seed) smod 65536);
         val = matrix_clip (ucast (seed + order)) False;
         B = B(i * n + j := val);
         val = matrix_clip (ucast (scast val + order)) True
     in (seed, order + 1, A(i * n + j := val), B))"

definition core_init_matrix :: "u32 \<Rightarrow> u32 \<Rightarrow> u32 \<Rightarrow> mat_params \<Rightarrow> (u32 \<times> mat_params) option" where
  "core_init_matrix blksize memblk seed p =
     (let seed = (if seed = 0 then 1 else seed)
      in Option.bind (dim_loop blksize 0 0) (\<lambda>i.
        let N = i - 1; A = align_mem memblk; B = A + 2 * (N * N);
            (_, _, dA, dB) = foldl (fill_step (unat N)) (seed, 1, datA p, datB p) (cells (unat N))
        in Some (N, p\<lparr>mA := A, mB := B, mC := align_mem (B + 2 * (N * N)), mN := N, datA := dA, datB := dB\<rparr>)))"

section \<open>Loops over the cells\<close>

text \<open>A loop that changes every cell once.\<close>

lemma foldl_cells_out: "a \<notin> f ` set ps \<Longrightarrow> foldl (\<lambda>C p. C(f p := g p (C (f p)))) C ps a = C a"
  by (induction ps arbitrary: C) auto

lemma foldl_cells_in:
  "distinct ps \<Longrightarrow> inj_on f (set ps) \<Longrightarrow> p \<in> set ps \<Longrightarrow> foldl (\<lambda>C p. C(f p := g p (C (f p)))) C ps (f p) = g p (C (f p))"
proof (induction ps arbitrary: C)
  case (Cons q ps)
  show ?case
  proof (cases "p = q")
    case True
    have "f q \<notin> f ` set ps" using Cons.prems(1,2) by (auto simp: inj_on_def)
    then show ?thesis using True foldl_cells_out [of "f q" f ps g "C(f q := g q (C (f q)))"] by (simp del: fun_upd_apply) simp
  next
    case False
    then have "p \<in> set ps" "f p \<noteq> f q" using Cons.prems by (auto simp: inj_on_def)
    then show ?thesis using Cons by auto
  qed
qed simp

definition cell :: "nat \<Rightarrow> nat \<times> nat \<Rightarrow> nat" where
  "cell n = (\<lambda>(i, j). i * n + j)"

lemma cells_props: "distinct (cells n)" "inj_on (cell n) (set (cells n))" "(i, j) \<in> set (cells n) \<longleftrightarrow> i < n \<and> j < n"
proof -
  have inj: "i = i' \<and> j = j'" if "j < n" "j' < n" "i * n + j = i' * n + j'" for i j i' j'
  proof -
    have "(i * n + j) div n = i" "(i * n + j) mod n = j" "(i' * n + j') div n = i'" "(i' * n + j') mod n = j'"
      using that(1,2) by simp_all
    with that(3) show ?thesis by metis
  qed
  have "p = q" if "p \<in> set (cells n)" "q \<in> set (cells n)" "cell n p = cell n q" for p q
    using that inj [of "snd p" "snd q" "fst p" "fst q"] by (auto simp: cells_def cell_def case_prod_unfold)
  then show "inj_on (cell n) (set (cells n))" by (rule inj_onI)
  show "distinct (cells n)" by (simp add: cells_def distinct_product)
  show "(i, j) \<in> set (cells n) \<longleftrightarrow> i < n \<and> j < n" by (simp add: cells_def)
qed

lemma loop_cell:
  assumes "i < n" "j < n"
  shows "foldl (\<lambda>C p. C(cell n p := g p (C (cell n p)))) C (cells n) (i * n + j) = g (i, j) (C (i * n + j))"
  using foldl_cells_in [OF cells_props(1,2), of "(i, j)" n g C] assms by (simp add: cells_props(3) cell_def)

lemma loop_outside:
  assumes "n * n \<le> a"
  shows "foldl (\<lambda>C p. C(cell n p := g p (C (cell n p)))) C (cells n) a = C a"
proof (rule foldl_cells_out)
  have "i * n + j < n * n" if "i < n" "j < n" for i j
  proof -
    have "i * n + j < Suc i * n" using that(2) by simp
    also have "Suc i * n \<le> n * n" using that(1) by (intro mult_right_mono) auto
    finally show ?thesis .
  qed
  with assms show "a \<notin> cell n ` set (cells n)" by (fastforce simp: cell_def cells_def)
qed

text \<open>An accumulating inner loop.\<close>

lemma foldl_acc: "foldl (\<lambda>C k. C(a := C a + f k)) (C(a := 0)) [0..<m] = C(a := (\<Sum>k<m. f k :: u32))"
  by (induction m) (simp_all add: fun_eq_iff)

lemma add_const_eq: "matrix_add_const n A val = foldl (\<lambda>C p. C(cell n p := (\<lambda>_ x. x + val) p (C (cell n p)))) A (cells n)"
  unfolding matrix_add_const_def cell_def by (simp add: case_prod_unfold)

lemma mul_const_eq:
  "matrix_mul_const n C A val = foldl (\<lambda>C p. C(cell n p := (\<lambda>p _. scast (A (cell n p)) * scast val) p (C (cell n p)))) C (cells n)"
  unfolding matrix_mul_const_def cell_def by (simp add: case_prod_unfold)

lemma mul_matrix_eq:
  "matrix_mul_matrix n C A B = foldl (\<lambda>C p. C(cell n p :=
     (\<lambda>(i, j) _. \<Sum>k<n. scast (A (i * n + k)) * scast (B (k * n + j))) p (C (cell n p)))) C (cells n)"
  unfolding matrix_mul_matrix_def cell_def by (simp add: case_prod_unfold foldl_acc)

lemma mul_bitextract_eq:
  "matrix_mul_matrix_bitextract n C A B = foldl (\<lambda>C p. C(cell n p :=
     (\<lambda>(i, j) _. \<Sum>k<n. let tmp = scast (A (i * n + k)) * scast (B (k * n + j)) in bit_extract tmp 2 4 * bit_extract tmp 5 7) p
       (C (cell n p)))) C (cells n)"
  unfolding matrix_mul_matrix_bitextract_def cell_def by (simp add: case_prod_unfold Let_def foldl_acc)

lemma mul_vect_eq:
  "matrix_mul_vect n C A B = foldl (\<lambda>C i. C(id i := (\<lambda>i _. \<Sum>j<n. scast (A (i * n + j)) * scast (B j)) i (C (id i)))) C [0..<n]"
  unfolding matrix_mul_vect_def by (simp add: foldl_acc)

lemma add_const_undo: "matrix_add_const n (matrix_add_const n A v) (- v) = A"
proof
  fix a
  show "matrix_add_const n (matrix_add_const n A v) (- v) a = A a"
  proof (cases "a < n * n")
    case True
    then have "0 < n" by (cases n) auto
    then have "a div n < n" "a mod n < n" using True by (simp_all add: less_mult_imp_div_less)
    from loop_cell [OF this, of "\<lambda>_ x. x + (- v)"] loop_cell [OF this, of "\<lambda>_ x. x + v"] show ?thesis
      unfolding add_const_eq by simp
  next
    case False
    then have "n * n \<le> a" by simp
    from loop_outside [OF this, of "\<lambda>_ x. x + (- v)"] loop_outside [OF this, of "\<lambda>_ x. x + v"] show ?thesis
      unfolding add_const_eq by simp
  qed
qed

lemma test_restores: "snd (snd (matrix_test n C A B v)) = A"
  by (simp add: matrix_test_def Let_def add_const_undo)



section \<open>The layout\<close>

lemma unat_of_nat32: "k < 4294967296 \<Longrightarrow> unat (of_nat k :: u32) = k"
  by (simp add: unat_of_nat)

lemma dim_loop_ok:
  assumes "unat blksize \<le> 8 * (k * k)" "\<forall>i < k. 8 * (i * i) < unat blksize" "k \<le> 2 ^ 14"
  shows "i \<le> k \<Longrightarrow> dim_loop blksize (of_nat i) (of_nat (8 * (i * i))) = Some (of_nat k)"
proof (induction "k - i" arbitrary: i)
  case 0
  have "k * k \<le> 2 ^ 14 * 2 ^ 14" using assms(3) by (intro mult_mono) auto
  then have "unat (of_nat (8 * (k * k)) :: u32) = 8 * (k * k)" by (intro unat_of_nat32) simp
  then have "\<not> of_nat (8 * (k * k)) < blksize" using assms(1) by (simp only: word_less_nat_alt not_less)
  with 0 show ?case by (subst dim_loop.simps) simp
next
  case (Suc n)
  then have i: "i < k" by simp
  then have lt: "8 * (i * i) < unat blksize" using assms(2) by blast
  then have "unat (of_nat (8 * (i * i)) :: u32) = 8 * (i * i)" using unat_lt32 [of blksize] by (intro unat_of_nat32) simp
  then have c: "of_nat (8 * (i * i)) < blksize" using lt by (simp only: word_less_nat_alt)
  have "(of_nat i + 1) * (of_nat i + 1) * 2 * 4 = (of_nat (8 * (Suc i * Suc i)) :: u32)" by (simp add: algebra_simps)
  moreover have "of_nat i + 1 = (of_nat (Suc i) :: u32)" by simp
  moreover have "dim_loop blksize (of_nat (Suc i)) (of_nat (8 * (Suc i * Suc i))) = Some (of_nat k)"
    using Suc(1) [of "Suc i"] Suc(2) i by simp
  ultimately show ?case using c by (subst dim_loop.simps) (simp only: if_True)
qed

text \<open>The dimension is the largest whose matrices, without the alignment, fit in less than the block.\<close>

lemma init_matrix_dim:
  assumes "0 < blksize" "unat blksize \<le> 2 ^ 31"
  shows "\<exists>N p'. core_init_matrix blksize memblk seed p = Some (N, p') \<and> mN p' = N
    \<and> 8 * (unat N * unat N) < unat blksize \<and> unat blksize \<le> 8 * (Suc (unat N) * Suc (unat N))"
proof -
  define P where "P k \<longleftrightarrow> unat blksize \<le> 8 * (k * k)" for k :: nat
  have p: "P (2 ^ 14)" using assms(2) by (simp add: P_def)
  obtain k where k: "P k" "\<forall>i < k. \<not> P i" "k \<le> 2 ^ 14" using ex_least_nat_le [of P, OF p] by blast
  have k0: "0 < k" using k(1) assms(1) by (cases k) (auto simp: P_def word_less_nat_alt)
  have d: "dim_loop blksize 0 0 = Some (of_nat k)"
    using dim_loop_ok [of blksize k 0] k by (simp add: P_def not_le)
  have n: "unat (of_nat k - 1 :: u32) = k - 1"
  proof -
    have "of_nat k - 1 = (of_nat (k - 1) :: u32)" using k0 by (simp add: of_nat_diff)
    then show ?thesis using k(3) by (simp add: unat_of_nat32)
  qed
  have "8 * ((k - 1) * (k - 1)) < unat blksize" using k(2) k0 by (simp add: P_def not_le)
  moreover have "unat blksize \<le> 8 * (Suc (k - 1) * Suc (k - 1))" using k(1) k0 by (simp add: P_def)
  ultimately show ?thesis by (simp add: core_init_matrix_def d n Let_def case_prod_unfold del: mult_Suc mult_Suc_right)
qed

end
