(* ===== verification/CmList.thy ===== *)
theory CmList imports CmState CmMatrix begin

text \<open>
  \<open>am-kernels/benchmarks/coremark/src/core_list_join.c\<close>: a linked list in a block of memory that is
  searched, reversed, sorted and mended in place.  List heads and data items are numbered by their
  place in the two halves of the block; \<open>None\<close> is the null pointer, and to follow it the abort
  \<open>NullDeref\<close>.  The record also holds \<open>core_results\<close>, whose state block and matrices the comparison
  of items uses.
\<close>

unbundle bit_operations_syntax

record core =
  nxp :: "nat \<Rightarrow> nat option"
  inf :: "nat \<Rightarrow> nat"
  data16 :: "nat \<Rightarrow> u16"
  idx :: "nat \<Rightarrow> u16"
  rseed1 :: u16
  rseed2 :: u16
  rseed3 :: u16
  rsize :: u32
  rstate :: "u8 list"
  rlist :: "nat option"
  rmat :: mat_params
  riterations :: u32
  rexecs :: u32
  rcrc :: u16
  rcrclist :: u16
  rcrcmatrix :: u16
  rcrcstate :: u16
  rerr :: u16

type_synonym comparison = "nat \<Rightarrow> nat \<Rightarrow> core \<Rightarrow> abort + int \<times> core"

definition deref :: "nat option \<Rightarrow> abort + nat" where
  "deref p = (case p of None \<Rightarrow> Inl NullDeref | Some a \<Rightarrow> Inr a)"

section \<open>Comparing items\<close>

definition calc_func :: "nat \<Rightarrow> core \<Rightarrow> abort + u16 \<times> core" where
  "calc_func pdata s =
     (let dat = data16 s pdata; optype = drop_bit 7 dat AND 1
      in if optype \<noteq> 0 then Inr (dat AND 0x7f, s)
      else let flag = dat AND 7; dtype = drop_bit 3 dat AND 0xf; dtype = dtype OR push_bit 4 dtype
      in rbind (if flag = 0 then
                  (let dtype = (if dtype < 0x22 then 0x22 else dtype)
                   in rbind (of_loop (core_bench_state (rsize s) (rstate s) (rseed1 s) (rseed2 s) dtype (rcrc s))) (\<lambda>(retval, blk).
                      let s = s\<lparr>rstate := blk\<rparr>
                      in Inr (retval, if rcrcstate s = 0 then s\<lparr>rcrcstate := retval\<rparr> else s)))
                else if flag = 1 then
                  (let (retval, m) = core_bench_matrix (rmat s) dtype (rcrc s); s = s\<lparr>rmat := m\<rparr>
                   in Inr (retval, if rcrcmatrix s = 0 then s\<lparr>rcrcmatrix := retval\<rparr> else s))
                else Inr (dat, s))
         (\<lambda>(retval, s).
            let s = s\<lparr>rcrc := crcu16 retval (rcrc s)\<rparr>; retval = retval AND 0x7f
            in Inr (retval, s\<lparr>data16 := (data16 s)(pdata := (dat AND 0xff00) OR 0x80 OR retval)\<rparr>)))"

definition cmp_complex :: comparison where
  "cmp_complex a b s =
     rbind (calc_func a s) (\<lambda>(val1, s). rbind (calc_func b s) (\<lambda>(val2, s). Inr (sint val1 - sint val2, s)))"

text \<open>\<open>cmp_idx\<close> as it is called with a null \<open>res\<close>, and otherwise.\<close>

definition regen :: "nat \<Rightarrow> core \<Rightarrow> core" where
  "regen a s = s\<lparr>data16 := (data16 s)(a := (data16 s a AND 0xff00) OR (0xff AND signed_drop_bit 8 (data16 s a)))\<rparr>"

definition cmp_idx :: "bool \<Rightarrow> comparison" where
  "cmp_idx res_null a b s =
     (let s = (if res_null then regen b (regen a s) else s) in Inr (sint (idx s a) - sint (idx s b), s))"

definition copy_info :: "nat \<Rightarrow> u16 \<times> u16 \<Rightarrow> core \<Rightarrow> core" where
  "copy_info to info s = s\<lparr>data16 := (data16 s)(to := fst info), idx := (idx s)(to := snd info)\<rparr>"

section \<open>List operations\<close>

definition core_list_remove :: "nat option \<Rightarrow> core \<Rightarrow> abort + nat \<times> core" where
  "core_list_remove item s =
     rbind (deref item) (\<lambda>item.
     rbind (deref (nxp s item)) (\<lambda>ret.
       let s = s\<lparr>inf := (inf s)(item := inf s ret, ret := inf s item)\<rparr>;
           s = s\<lparr>nxp := (nxp s)(item := nxp s ret)\<rparr>
       in Inr (ret, s\<lparr>nxp := (nxp s)(ret := None)\<rparr>)))"

definition core_list_undo_remove :: "nat \<Rightarrow> nat option \<Rightarrow> core \<Rightarrow> abort + nat \<times> core" where
  "core_list_undo_remove item_removed item_modified s =
     rbind (deref item_modified) (\<lambda>m.
       let s = s\<lparr>inf := (inf s)(item_removed := inf s m, m := inf s item_removed)\<rparr>;
           s = s\<lparr>nxp := (nxp s)(item_removed := nxp s m)\<rparr>
       in Inr (item_removed, s\<lparr>nxp := (nxp s)(m := Some item_removed)\<rparr>))"

partial_function (option) find_loop :: "(nat \<Rightarrow> bool) \<Rightarrow> nat option \<Rightarrow> core \<Rightarrow> nat option option" where
  "find_loop stop p s =
     (case p of None \<Rightarrow> Some None
      | Some a \<Rightarrow> if stop (inf s a) then Some (Some a) else find_loop stop (nxp s a) s)"

definition core_list_find :: "nat option \<Rightarrow> u16 \<times> u16 \<Rightarrow> core \<Rightarrow> nat option option" where
  "core_list_find list info s =
     (if 0 \<le> sint (snd info) then find_loop (\<lambda>d. idx s d = snd info) list s
      else find_loop (\<lambda>d. data16 s d AND 0xff = fst info) list s)"

partial_function (option) reverse_loop :: "nat option \<Rightarrow> nat option \<Rightarrow> core \<Rightarrow> (nat option \<times> core) option" where
  "reverse_loop list nx s =
     (case list of None \<Rightarrow> Some (nx, s)
      | Some a \<Rightarrow> reverse_loop (nxp s a) (Some a) (s\<lparr>nxp := (nxp s)(a := nx)\<rparr>))"

definition core_list_reverse :: "nat option \<Rightarrow> core \<Rightarrow> (nat option \<times> core) option" where
  "core_list_reverse list s = reverse_loop list None s"

section \<open>Merge sort\<close>

text \<open>The steps along from \<open>p\<close>: \<open>q\<close> and \<open>psize\<close>.\<close>

fun walk :: "nat \<Rightarrow> nat option \<Rightarrow> nat \<Rightarrow> core \<Rightarrow> abort + nat option \<times> nat" where
  "walk 0 q psize s = Inr (q, psize)"
| "walk (Suc n) q psize s =
     rbind (deref q) (\<lambda>a. case nxp s a of None \<Rightarrow> Inr (None, psize + 1) | Some b \<Rightarrow> walk n (Some b) (psize + 1) s)"

text \<open>The choice of the next element \<open>e\<close>, from \<open>p\<close> or from \<open>q\<close>.\<close>

definition from_p :: "nat option \<Rightarrow> nat \<Rightarrow> nat option \<Rightarrow> nat \<Rightarrow> core \<Rightarrow> abort + nat \<times> nat option \<times> nat \<times> nat option \<times> nat \<times> core" where
  "from_p p psize q qsize s = rbind (deref p) (\<lambda>e. Inr (e, nxp s e, psize - 1, q, qsize, s))"

definition from_q :: "nat option \<Rightarrow> nat \<Rightarrow> nat option \<Rightarrow> nat \<Rightarrow> core \<Rightarrow> abort + nat \<times> nat option \<times> nat \<times> nat option \<times> nat \<times> core" where
  "from_q p psize q qsize s = rbind (deref q) (\<lambda>e. Inr (e, p, psize, nxp s e, qsize - 1, s))"

definition choose_next :: "comparison \<Rightarrow> nat option \<Rightarrow> nat \<Rightarrow> nat option \<Rightarrow> nat \<Rightarrow> core
    \<Rightarrow> abort + nat \<times> nat option \<times> nat \<times> nat option \<times> nat \<times> core" where
  "choose_next cmp p psize q qsize s =
     (if psize = 0 then from_q p psize q qsize s
      else if qsize = 0 \<or> q = None then from_p p psize q qsize s
      else rbind (deref p) (\<lambda>a. rbind (deref q) (\<lambda>b. rbind (cmp (inf s a) (inf s b) s) (\<lambda>(c, s).
        if c \<le> 0 then from_p p psize q qsize s else from_q p psize q qsize s))))"

definition append_e :: "nat \<Rightarrow> nat option \<Rightarrow> nat option \<Rightarrow> core \<Rightarrow> nat option \<times> core" where
  "append_e e list tail s =
     (case tail of Some t \<Rightarrow> (list, s\<lparr>nxp := (nxp s)(t := Some e)\<rparr>) | None \<Rightarrow> (Some e, s))"

lemma choose_next_decreases:
  "choose_next cmp p psize q qsize s = Inr (e, p', psize', q', qsize', s') \<Longrightarrow> psize > 0 \<or> qsize > 0 \<and> q \<noteq> None
    \<Longrightarrow> psize' + qsize' < psize + qsize"
  by (auto simp: choose_next_def from_p_def from_q_def rbind_Inr_iff split: if_splits)

function merge_loop :: "comparison \<Rightarrow> nat option \<Rightarrow> nat \<Rightarrow> nat option \<Rightarrow> nat \<Rightarrow> nat option \<Rightarrow> nat option \<Rightarrow> core
    \<Rightarrow> abort + nat option \<times> nat option \<times> nat option \<times> core" where
  "merge_loop cmp p psize q qsize list tail s =
     (if psize > 0 \<or> qsize > 0 \<and> q \<noteq> None then
        (case choose_next cmp p psize q qsize s of Inl x \<Rightarrow> Inl x
         | Inr (e, p, psize, q, qsize, s) \<Rightarrow>
             (let (list, s) = append_e e list tail s in merge_loop cmp p psize q qsize list (Some e) s))
      else Inr (q, list, tail, s))"
  by pat_completeness auto

termination
  by (relation "measure (\<lambda>(_, _, psize, _, qsize, _). psize + qsize)") (auto dest: choose_next_decreases)

declare merge_loop.simps [simp del]

text \<open>One pass over the list, from \<open>p\<close>; it counts the merges.\<close>

partial_function (option) pass_loop :: "comparison \<Rightarrow> nat \<Rightarrow> nat option \<Rightarrow> nat option \<Rightarrow> nat option \<Rightarrow> nat \<Rightarrow> core
    \<Rightarrow> (abort + nat option \<times> nat option \<times> nat \<times> core) option" where
  "pass_loop cmp insize p list tail nmerges s =
     (case p of None \<Rightarrow> Some (Inr (list, tail, nmerges, s))
      | Some _ \<Rightarrow>
         (case rbind (walk insize p 0 s) (\<lambda>(q, psize). merge_loop cmp p psize q insize list tail s) of Inl x \<Rightarrow> Some (Inl x)
          | Inr (q, list, tail, s) \<Rightarrow> pass_loop cmp insize q list tail (nmerges + 1) s))"

partial_function (option) sort_loop :: "comparison \<Rightarrow> nat \<Rightarrow> nat option \<Rightarrow> core \<Rightarrow> (abort + nat option \<times> core) option" where
  "sort_loop cmp insize list s =
     Option.bind (pass_loop cmp insize list None None 0 s) (\<lambda>r.
       case rbind r (\<lambda>(list, tail, nmerges, s). rbind (deref tail) (\<lambda>t. Inr (list, nmerges, s\<lparr>nxp := (nxp s)(t := None)\<rparr>))) of
         Inl x \<Rightarrow> Some (Inl x)
       | Inr (list, nmerges, s) \<Rightarrow>
           if nmerges \<le> 1 then Some (Inr (list, s)) else sort_loop cmp (insize * 2) list s)"

definition core_list_mergesort :: "nat option \<Rightarrow> comparison \<Rightarrow> core \<Rightarrow> (abort + nat option \<times> core) option" where
  "core_list_mergesort list cmp s = sort_loop cmp 1 list s"

end
