(* ===== verification/CmSort.thy ===== *)
theory CmSort imports CmList "HOL-Library.Multiset" begin

text \<open>
  The merge sort of \<open>core_list_join.c\<close> on linked lists.  Its contract with a comparison is a
  locale: comparisons may change the items they look at, so the order they sort by is one that is
  only known of items once they have been compared, and stays known.
\<close>

section \<open>Linked lists\<close>

fun seg :: "(nat \<Rightarrow> nat option) \<Rightarrow> nat option \<Rightarrow> nat list \<Rightarrow> bool" where
  "seg h p [] \<longleftrightarrow> p = None"
| "seg h p (x # xs) \<longleftrightarrow> p = Some x \<and> seg h (h x) xs"

fun links :: "(nat \<Rightarrow> nat option) \<Rightarrow> nat list \<Rightarrow> bool" where
  "links h [] \<longleftrightarrow> True"
| "links h [x] \<longleftrightarrow> True"
| "links h (x # y # ys) \<longleftrightarrow> h x = Some y \<and> links h (y # ys)"

lemma seg_upd [simp]: "t \<notin> set xs \<Longrightarrow> seg (h(t := v)) p xs = seg h p xs"
  by (induction xs arbitrary: p) auto

lemma seg_cong: "(\<And>x. x \<in> set xs \<Longrightarrow> h x = h' x) \<Longrightarrow> seg h p xs = seg h' p xs"
  by (induction xs arbitrary: p) auto

lemma seg_hd: "seg h p xs \<Longrightarrow> xs \<noteq> [] \<Longrightarrow> p = Some (hd xs)"
  by (cases xs) auto

lemma seg_append_links: "seg h p (xs @ ys) \<Longrightarrow> links h xs"
  by (induction h xs arbitrary: p rule: links.induct) (auto dest: seg_hd)

lemma links_join: "xs \<noteq> [] \<Longrightarrow> ys \<noteq> [] \<Longrightarrow> links h (xs @ ys) \<longleftrightarrow> links h xs \<and> h (last xs) = Some (hd ys) \<and> links h ys"
proof (induction h xs rule: links.induct)
  case (2 h x)
  then show ?case by (cases ys) auto
qed auto

lemma links_update [simp]: "t \<notin> set (butlast xs) \<Longrightarrow> links (h(t := v)) xs = links h xs"
  by (induction h xs rule: links.induct) auto

lemma links_cong: "(\<And>x. x \<in> set (butlast xs) \<Longrightarrow> h x = h' x) \<Longrightarrow> links h xs = links h' xs"
  by (induction h xs rule: links.induct) auto

lemma last_notin_butlast: "distinct xs \<Longrightarrow> xs \<noteq> [] \<Longrightarrow> last xs \<notin> set (butlast xs)"
  by (metis append_butlast_last_id distinct_append distinct.simps(2) disjoint_insert(1) list.set(2) inf_commute Int_iff empty_iff insertCI)

lemma links_seg: "links h xs \<Longrightarrow> xs \<noteq> [] \<Longrightarrow> distinct xs \<Longrightarrow> seg (h(last xs := None)) (Some (hd xs)) xs"
proof (induction h xs rule: links.induct)
  case (3 h x y ys)
  then have "x \<noteq> last (y # ys)" by (metis distinct.simps(2) last_in_set list.distinct(1))
  with 3 show ?case by auto
qed auto

definition chain :: "(nat \<Rightarrow> nat option) \<Rightarrow> nat option \<Rightarrow> nat list \<Rightarrow> nat option \<Rightarrow> bool" where
  "chain h list out tail \<longleftrightarrow> list = (if out = [] then None else Some (hd out))
     \<and> tail = (if out = [] then None else Some (last out)) \<and> links h out"

definition sorted_by :: "(core \<Rightarrow> nat \<Rightarrow> nat \<Rightarrow> bool) \<Rightarrow> core \<Rightarrow> nat list \<Rightarrow> bool" where
  "sorted_by le s xs \<longleftrightarrow> sorted_wrt (\<lambda>x y. le s (inf s x) (inf s y)) xs"

text \<open>The state of a merge: \<open>ms\<close> is merged, \<open>ps\<close> and \<open>qs\<close> are left of the two runs.\<close>

definition merging :: "(core \<Rightarrow> nat \<Rightarrow> nat \<Rightarrow> bool) \<Rightarrow> core \<Rightarrow> nat list \<Rightarrow> nat list \<Rightarrow> nat option \<Rightarrow> nat list
    \<Rightarrow> nat option \<Rightarrow> nat list \<Rightarrow> nat list \<Rightarrow> nat option \<Rightarrow> nat option \<Rightarrow> bool" where
  "merging le s out ms p ps q qs rest list tail \<longleftrightarrow> distinct (out @ ms @ ps @ qs @ rest)
     \<and> (ps \<noteq> [] \<longrightarrow> p = Some (hd ps)) \<and> links (nxp s) ps \<and> seg (nxp s) q (qs @ rest)
     \<and> chain (nxp s) list (out @ ms) tail
     \<and> sorted_by le s ms \<and> sorted_by le s ps \<and> sorted_by le s qs
     \<and> (\<forall>x \<in> set ms. \<forall>y \<in> set (ps @ qs). le s (inf s x) (inf s y))"

section \<open>Merging\<close>

locale list_order =
  fixes cmp :: comparison
    and Inv :: "core \<Rightarrow> bool"
    and le :: "core \<Rightarrow> nat \<Rightarrow> nat \<Rightarrow> bool"
  assumes compare: "Inv s \<Longrightarrow> \<exists>c s'. cmp a b s = Inr (c, s') \<and> Inv s' \<and> nxp s' = nxp s \<and> inf s' = inf s
      \<and> (\<forall>x y. le s x y \<longrightarrow> le s' x y) \<and> (if c \<le> 0 then le s' a b else le s' b a)"
    and relink: "Inv s \<Longrightarrow> Inv (s\<lparr>nxp := h\<rparr>)"
    and le_relink: "le (s\<lparr>nxp := h\<rparr>) = le s"
    and le_trans: "le s x y \<Longrightarrow> le s y z \<Longrightarrow> le s x z"
begin

lemma sorted_relink: "sorted_by le (s\<lparr>nxp := h\<rparr>) = sorted_by le s"
  by (simp add: sorted_by_def le_relink fun_eq_iff)

lemma append_e_chain:
  assumes "chain (nxp s) list out tail" "distinct out" "e \<notin> set out" "append_e e list tail s = (list', s')"
  shows "\<exists>h. s' = s\<lparr>nxp := h\<rparr> \<and> (\<forall>a. a \<notin> set out \<longrightarrow> h a = nxp s a) \<and> chain h list' (out @ [e]) (Some e)"
proof (cases "out = []")
  case True
  with assms show ?thesis by (intro exI [of _ "nxp s"]) (auto simp: chain_def append_e_def)
next
  case False
  then have "links ((nxp s)(last out := Some e)) (out @ [e])"
    using assms(1) last_notin_butlast [OF assms(2) False] by (simp add: links_join chain_def)
  with False assms show ?thesis
    by (intro exI [of _ "(nxp s)(last out := Some e)"]) (auto simp: chain_def append_e_def)
qed

lemma merging_append:
  assumes m: "merging le s out ms p ps q qs rest list tail" and e: "e \<notin> set (out @ ms)"
    and a: "append_e e list tail s = (list', s')"
  obtains h where "s' = s\<lparr>nxp := h\<rparr>" "\<forall>a. a \<notin> set (out @ ms) \<longrightarrow> h a = nxp s a"
    "chain h list' (out @ (ms @ [e])) (Some e)" "links h ps = links (nxp s) ps" "\<And>p. seg h p (qs @ rest) = seg (nxp s) p (qs @ rest)"
proof -
  have d: "distinct (out @ ms)" and c: "chain (nxp s) list (out @ ms) tail" using m unfolding merging_def by auto
  obtain h where h: "s' = s\<lparr>nxp := h\<rparr>" "\<forall>a. a \<notin> set (out @ ms) \<longrightarrow> h a = nxp s a" "chain h list' ((out @ ms) @ [e]) (Some e)"
    using append_e_chain [OF c d e a] by blast
  have f: "h x = nxp s x" if "x \<in> set (ps @ qs @ rest)" for x using that m h(2) unfolding merging_def by auto
  have "links h ps = links (nxp s) ps" by (rule links_cong, rule f) (auto dest: in_set_butlastD)
  moreover have "seg h p (qs @ rest) = seg (nxp s) p (qs @ rest)" for p by (rule seg_cong, rule f) auto
  ultimately show ?thesis using that h by simp
qed

lemma merging_p:
  assumes m: "merging le s out ms p (e # ps) q qs rest list tail" and e: "\<forall>y \<in> set qs. le s (inf s e) (inf s y)"
    and a: "append_e e list tail s = (list', s')"
  shows "merging le s' out (ms @ [e]) (nxp s e) ps q qs rest list' (Some e) \<and> (\<exists>h. s' = s\<lparr>nxp := h\<rparr> \<and> (\<forall>a. a \<notin> set (out @ ms) \<longrightarrow> h a = nxp s a))"
proof -
  have "e \<notin> set (out @ ms)" using m unfolding merging_def by auto
  from merging_append [OF m this a] obtain h where h: "s' = s\<lparr>nxp := h\<rparr>" "\<forall>a. a \<notin> set (out @ ms) \<longrightarrow> h a = nxp s a"
    "chain h list' (out @ (ms @ [e])) (Some e)" "links h (e # ps) = links (nxp s) (e # ps)"
    "\<And>p. seg h p (qs @ rest) = seg (nxp s) p (qs @ rest)" by blast
  have ps: "h e = nxp s e" using h(2) m unfolding merging_def by auto
  have l: "links (nxp s) (e # ps)" using m unfolding merging_def by simp
  have "links h ps \<and> (ps \<noteq> [] \<longrightarrow> nxp s e = Some (hd ps))" using l h(4) by (cases ps) simp_all
  moreover have "sorted_by le s (ms @ [e])" "\<forall>x \<in> set (ms @ [e]). \<forall>y \<in> set (ps @ qs). le s (inf s x) (inf s y)" "sorted_by le s ps"
    using m e unfolding merging_def by (auto simp: sorted_by_def sorted_wrt_append)
  moreover have "distinct (out @ (ms @ [e]) @ ps @ qs @ rest)" using m unfolding merging_def by auto
  ultimately have "merging le s' out (ms @ [e]) (nxp s e) ps q qs rest list' (Some e)"
    using m h(1,3,5) unfolding merging_def by (simp add: sorted_relink le_relink)
  with h(1,2) show ?thesis by blast
qed

lemma merging_q:
  assumes m: "merging le s out ms p ps q (e # qs) rest list tail" and e: "\<forall>y \<in> set ps. le s (inf s e) (inf s y)"
    and a: "append_e e list tail s = (list', s')"
  shows "merging le s' out (ms @ [e]) p ps (nxp s e) qs rest list' (Some e) \<and> (\<exists>h. s' = s\<lparr>nxp := h\<rparr> \<and> (\<forall>a. a \<notin> set (out @ ms) \<longrightarrow> h a = nxp s a))"
proof -
  have "e \<notin> set (out @ ms)" using m unfolding merging_def by auto
  from merging_append [OF m this a] obtain h where h: "s' = s\<lparr>nxp := h\<rparr>" "\<forall>a. a \<notin> set (out @ ms) \<longrightarrow> h a = nxp s a"
    "chain h list' (out @ (ms @ [e])) (Some e)" "links h ps = links (nxp s) ps"
    "\<And>p. seg h p ((e # qs) @ rest) = seg (nxp s) p ((e # qs) @ rest)" by blast
  have "h e = nxp s e" using h(2) m unfolding merging_def by auto
  moreover have "seg h q ((e # qs) @ rest)" using h(5) m unfolding merging_def by blast
  ultimately have "seg h (nxp s e) (qs @ rest)" by simp
  moreover have "sorted_by le s (ms @ [e])" "\<forall>x \<in> set (ms @ [e]). \<forall>y \<in> set (ps @ qs). le s (inf s x) (inf s y)" "sorted_by le s qs"
    using m e unfolding merging_def by (auto simp: sorted_by_def sorted_wrt_append)
  moreover have "distinct (out @ (ms @ [e]) @ ps @ qs @ rest)" using m unfolding merging_def by auto
  ultimately have "merging le s' out (ms @ [e]) p ps (nxp s e) qs rest list' (Some e)"
    using m h(1,3,4) unfolding merging_def by (simp add: sorted_relink le_relink)
  with h(1,2) show ?thesis by blast
qed

text \<open>What operations between two states leave: the items and what is known of their order.\<close>

definition ext :: "core \<Rightarrow> core \<Rightarrow> bool" where
  "ext s s' \<longleftrightarrow> Inv s' \<and> inf s' = inf s \<and> (\<forall>x y. le s x y \<longrightarrow> le s' x y)"

lemma ext_trans: "ext s t \<Longrightarrow> ext t u \<Longrightarrow> ext s u"
  by (simp add: ext_def)

lemma ext_relink: "Inv s \<Longrightarrow> ext s (s\<lparr>nxp := h\<rparr>)"
  by (simp add: ext_def relink le_relink)

lemma ext_sorted: "ext s s' \<Longrightarrow> sorted_by le s xs \<Longrightarrow> sorted_by le s' xs"
  by (auto simp: ext_def sorted_by_def intro: sorted_wrt_mono_rel [rotated])

lemma ext_merging: "ext s s' \<Longrightarrow> nxp s' = nxp s \<Longrightarrow> merging le s out ms p ps q qs rest list tail \<Longrightarrow> merging le s' out ms p ps q qs rest list tail"
  unfolding merging_def using ext_sorted [of s s'] by (simp add: ext_def)

text \<open>The choice of the next element.\<close>

lemma choose_ok:
  assumes "Inv s" "merging le s out ms p ps q qs rest list tail" "ps \<noteq> [] \<or> qs \<noteq> []"
    "length qs = qsize \<or> rest = [] \<and> length qs \<le> qsize"
  obtains s1 e ps' where "ps = e # ps'" "choose_next cmp p (length ps) q qsize s = Inr (e, nxp s e, length ps', q, qsize, s1)"
      "ext s s1" "nxp s1 = nxp s" "\<forall>y \<in> set qs. le s1 (inf s1 e) (inf s1 y)"
    | s1 e qs' where "qs = e # qs'" "choose_next cmp p (length ps) q qsize s = Inr (e, p, length ps, nxp s e, qsize - 1, s1)"
      "ext s s1" "nxp s1 = nxp s" "\<forall>y \<in> set ps. le s1 (inf s1 e) (inf s1 y)"
proof -
  have refl: "ext s s" using assms(1) by (simp add: ext_def)
  have q: "q = Some (hd (qs @ rest))" if "qs @ rest \<noteq> []" using assms(2) that seg_hd unfolding merging_def by blast
  show ?thesis
  proof (cases ps)
    case Nil
    then obtain e qs' where qs: "qs = e # qs'" using assms(3) by (cases qs) auto
    with q Nil refl show ?thesis by (intro that(2)) (simp_all add: choose_next_def from_q_def deref_def)
  next
    case (Cons a ps')
    then have p: "p = Some a" using assms(2) unfolding merging_def by simp
    show ?thesis
    proof (cases qs)
      case Nil
      have "qsize = 0 \<or> q = None" using assms(2,4) Nil unfolding merging_def by auto
      with Cons Nil p refl show ?thesis by (intro that(1)) (simp_all add: choose_next_def from_p_def deref_def)
    next
      case (Cons b qs')
      note qs = this
      have q: "q = Some b" using q qs by simp
      have qsz: "qsize \<noteq> 0" using assms(4) qs by auto
      obtain c s1 where c: "cmp (inf s a) (inf s b) s = Inr (c, s1)" "ext s s1" "nxp s1 = nxp s"
        "if c \<le> 0 then le s1 (inf s a) (inf s b) else le s1 (inf s b) (inf s a)"
        using compare [OF assms(1), of "inf s a" "inf s b"] unfolding ext_def by auto
      have ch: "choose_next cmp p (length ps) q qsize s = (if c \<le> 0 then from_p p (length ps) q qsize s1 else from_q p (length ps) q qsize s1)"
        using \<open>ps = a # ps'\<close> p q qsz c(1) by (simp add: choose_next_def deref_def)
      have "sorted_by le s1 ps" "sorted_by le s1 qs" using assms(2) ext_sorted [OF c(2)] unfolding merging_def by simp_all
      then have so: "\<forall>y \<in> set ps'. le s1 (inf s1 a) (inf s1 y)" "\<forall>y \<in> set qs'. le s1 (inf s1 b) (inf s1 y)"
        using \<open>ps = a # ps'\<close> qs by (simp_all add: sorted_by_def)
      have i: "inf s1 = inf s" using c(2) by (simp add: ext_def)
      show ?thesis
      proof (cases "c \<le> 0")
        case True
        then have "\<forall>y \<in> set qs. le s1 (inf s1 a) (inf s1 y)" using c(4) so(2) qs i le_trans by auto
        with True ch c p \<open>ps = a # ps'\<close> show ?thesis by (intro that(1)) (auto simp: from_p_def deref_def)
      next
        case False
        then have "\<forall>y \<in> set ps. le s1 (inf s1 b) (inf s1 y)" using c(4) so(1) \<open>ps = a # ps'\<close> i le_trans by auto
        with False ch c q qs show ?thesis by (intro that(2)) (auto simp: from_q_def deref_def)
      qed
    qed
  qed
qed

definition merged :: "nat list \<Rightarrow> nat list \<Rightarrow> nat list \<Rightarrow> nat list \<Rightarrow> nat list \<Rightarrow> core \<Rightarrow> nat option \<Rightarrow> nat option \<Rightarrow> nat option \<Rightarrow> core \<Rightarrow> bool" where
  "merged out ms ps qs rest s q list tail s' \<longleftrightarrow> (\<exists>ns. mset ns = mset (ms @ ps @ qs) \<and> sorted_by le s' ns
     \<and> chain (nxp s') list (out @ ns) tail \<and> seg (nxp s') q rest \<and> ext s s'
     \<and> (\<forall>a. a \<notin> set (out @ ns) \<longrightarrow> nxp s' a = nxp s a))"

lemma merged_step:
  assumes "merged out (ms @ [e]) ps qs rest s2 q list tail s'" "ext s s2" "\<forall>a. a \<notin> set (out @ ms) \<longrightarrow> nxp s2 a = nxp s a"
    "mset ps' + mset qs' = {#e#} + mset ps + mset qs"
  shows "merged out ms ps' qs' rest s q list tail s'"
proof -
  obtain ns where n: "mset ns = mset ((ms @ [e]) @ ps @ qs)" "sorted_by le s' ns" "chain (nxp s') list (out @ ns) tail"
    "seg (nxp s') q rest" "ext s2 s'" "\<forall>a. a \<notin> set (out @ ns) \<longrightarrow> nxp s' a = nxp s2 a"
    using assms(1) unfolding merged_def by blast
  have "mset ns = mset (ms @ ps' @ qs')" using n(1) assms(4) by (simp add: ac_simps)
  moreover have "set ns = set ((ms @ [e]) @ ps @ qs)" using n(1) by (rule mset_eq_setD)
  then have "set ms \<subseteq> set ns" by auto
  then have "\<forall>a. a \<notin> set (out @ ns) \<longrightarrow> nxp s' a = nxp s a" using n(6) assms(3) by auto
  moreover have "ext s s'" using assms(2) n(5) ext_trans by blast
  ultimately show ?thesis using n(2-4) unfolding merged_def by blast
qed

lemma merge_loop_ok:
  assumes "Inv s" "merging le s out ms p ps q qs rest list tail" "length qs = qsize \<or> rest = [] \<and> length qs \<le> qsize"
  shows "\<exists>q' list' tail' s'. merge_loop cmp p (length ps) q qsize list tail s = Inr (q', list', tail', s')
    \<and> merged out ms ps qs rest s q' list' tail' s'"
  using assms
proof (induction "length ps + length qs" arbitrary: s ms p ps q qs qsize list tail rule: less_induct)
  case less
  show ?case
  proof (cases "ps = [] \<and> qs = []")
    case True
    then have n: "\<not> (length ps > 0 \<or> qsize > 0 \<and> q \<noteq> None)" using less.prems(2,3) unfolding merging_def by auto
    have "merge_loop cmp p (length ps) q qsize list tail s = Inr (q, list, tail, s)"
      by (subst merge_loop.simps) (rule if_not_P [OF n])
    moreover have "merged out ms ps qs rest s q list tail s"
      using True less.prems(1,2) unfolding merged_def merging_def ext_def by (intro exI [of _ ms]) simp
    ultimately show ?thesis by blast
  next
    case False
    then have ne: "ps \<noteq> [] \<or> qs \<noteq> []" by blast
    have q: "q \<noteq> None" if "qs \<noteq> []" using less.prems(2) that unfolding merging_def by (cases qs) auto
    have go: "length ps > 0 \<or> qsize > 0 \<and> q \<noteq> None"
    proof (cases "qs = []")
      case False
      then have "0 < length qs" by simp
      then have "0 < qsize" using less.prems(3) by linarith
      with q False show ?thesis by blast
    qed (use ne in simp)
    from less.prems(1,2) ne less.prems(3) show ?thesis
    proof (rule choose_ok)
      fix s1 e ps' assume ps: "ps = e # ps'" and c: "choose_next cmp p (length ps) q qsize s = Inr (e, nxp s e, length ps', q, qsize, s1)"
        and x: "ext s s1" "nxp s1 = nxp s" and o: "\<forall>y \<in> set qs. le s1 (inf s1 e) (inf s1 y)"
      obtain list2 s2 where a: "append_e e list tail s1 = (list2, s2)" by fastforce
      from merging_p [OF ext_merging [OF x less.prems(2) [unfolded ps]] o a] obtain h where
        m: "merging le s2 out (ms @ [e]) (nxp s1 e) ps' q qs rest list2 (Some e)"
        and h: "s2 = s1\<lparr>nxp := h\<rparr>" "\<forall>a. a \<notin> set (out @ ms) \<longrightarrow> h a = nxp s1 a" by blast
      have "ext s1 s2" unfolding h(1) by (rule ext_relink) (use x(1) in \<open>simp add: ext_def\<close>)
      from ext_trans [OF x(1) this] have s2: "Inv s2" "ext s s2" by (simp_all add: ext_def)
      have l: "length ps' + length qs < length ps + length qs" using ps by simp
      from less.hyps [OF l s2(1) m less.prems(3)] obtain q' list' tail' s' where
        r: "merge_loop cmp (nxp s1 e) (length ps') q qsize list2 (Some e) s2 = Inr (q', list', tail', s')"
        "merged out (ms @ [e]) ps' qs rest s2 q' list' tail' s'" by blast
      have "merged out ms ps qs rest s q' list' tail' s'"
        using h x(2) ps by (intro merged_step [OF r(2) s2(2)]) auto
      moreover have "merge_loop cmp p (length ps) q qsize list tail s = Inr (q', list', tail', s')"
        using a r(1) x(2) by (subst merge_loop.simps) (simp only: if_P [OF go] c sum.case prod.case Let_def)
      ultimately show ?thesis by blast
    next
      fix s1 e qs' assume qs: "qs = e # qs'" and c: "choose_next cmp p (length ps) q qsize s = Inr (e, p, length ps, nxp s e, qsize - 1, s1)"
        and x: "ext s s1" "nxp s1 = nxp s" and o: "\<forall>y \<in> set ps. le s1 (inf s1 e) (inf s1 y)"
      obtain list2 s2 where a: "append_e e list tail s1 = (list2, s2)" by fastforce
      from merging_q [OF ext_merging [OF x less.prems(2) [unfolded qs]] o a] obtain h where
        m: "merging le s2 out (ms @ [e]) p ps (nxp s1 e) qs' rest list2 (Some e)"
        and h: "s2 = s1\<lparr>nxp := h\<rparr>" "\<forall>a. a \<notin> set (out @ ms) \<longrightarrow> h a = nxp s1 a" by blast
      have "ext s1 s2" unfolding h(1) by (rule ext_relink) (use x(1) in \<open>simp add: ext_def\<close>)
      from ext_trans [OF x(1) this] have s2: "Inv s2" "ext s s2" by (simp_all add: ext_def)
      have l: "length ps + length qs' < length ps + length qs" using qs by simp
      have b: "length qs' = qsize - 1 \<or> rest = [] \<and> length qs' \<le> qsize - 1" using less.prems(3) qs by auto
      from less.hyps [OF l s2(1) m b] obtain q' list' tail' s' where
        r: "merge_loop cmp p (length ps) (nxp s1 e) (qsize - 1) list2 (Some e) s2 = Inr (q', list', tail', s')"
        "merged out (ms @ [e]) ps qs' rest s2 q' list' tail' s'" by blast
      have "merged out ms ps qs rest s q' list' tail' s'"
        using h x(2) qs by (intro merged_step [OF r(2) s2(2)]) auto
      moreover have "merge_loop cmp p (length ps) q qsize list tail s = Inr (q', list', tail', s')"
        using a r(1) x(2) by (subst merge_loop.simps) (simp only: if_P [OF go] c sum.case prod.case Let_def)
      ultimately show ?thesis by blast
    qed
  qed
qed

lemma walk_ok:
  "seg (nxp s) p (xs @ ys) \<Longrightarrow> xs \<noteq> [] \<Longrightarrow> length xs = n \<or> ys = [] \<and> length xs \<le> n
    \<Longrightarrow> \<exists>q. walk n p k s = Inr (q, k + length xs) \<and> seg (nxp s) q ys"
proof (induction xs arbitrary: n p k)
  case (Cons x xs)
  obtain m where n: "n = Suc m" using Cons.prems by (cases n) auto
  show ?case
  proof (cases xs)
    case Nil
    then show ?thesis using Cons.prems n by (cases ys; cases m) (auto simp: deref_def)
  next
    case (Cons y zs)
    then have "nxp s x = Some y" "p = Some x" using Cons.prems by auto
    with Cons.IH [of "nxp s x" m "k + 1"] Cons.prems n Cons show ?thesis by (auto simp: deref_def)
  qed
qed simp

section \<open>Passes\<close>

text \<open>Runs of \<open>k\<close> elements that are sorted.\<close>

definition runs :: "core \<Rightarrow> nat \<Rightarrow> nat list \<Rightarrow> bool" where
  "runs s k xs \<longleftrightarrow> (\<forall>i. sorted_by le s (take k (drop (i * k) xs)))"

lemma runs_split: "runs s k xs \<Longrightarrow> sorted_by le s (take k xs) \<and> runs s k (drop k xs)"
  unfolding runs_def by (metis add.commute drop_0 drop_drop mult_0 mult_Suc)

lemma runs_join:
  assumes "sorted_by le s ms" "length ms = k \<or> rs = [] \<and> length ms \<le> k" "runs s k rs"
  shows "runs s k (ms @ rs)"
  unfolding runs_def
proof
  fix i
  show "sorted_by le s (take k (drop (i * k) (ms @ rs)))"
  proof (cases i)
    case 0
    then show ?thesis using assms(1,2) by auto
  next
    case (Suc j)
    then have "drop (i * k) (ms @ rs) = drop (j * k) rs" using assms(2) by auto
    then show ?thesis using assms(3) by (simp add: runs_def)
  qed
qed

lemma runs_ext: "ext s s' \<Longrightarrow> runs s k xs \<Longrightarrow> runs s' k xs"
  by (simp add: runs_def ext_sorted)

lemma runs_one: "runs s 1 xs"
proof -
  have "\<exists>x. take 1 ys = [x] \<or> take 1 ys = []" for ys :: "nat list" by (cases ys) auto
  then show ?thesis unfolding runs_def sorted_by_def by (metis sorted_wrt1 sorted_wrt.simps(1))
qed

lemma pass_loop_ok:
  assumes "0 < k" "Inv s" "distinct (out @ rest)" "seg (nxp s) p rest" "chain (nxp s) list out tail" "runs s k rest"
  shows "\<exists>list' tail' n' s' rs. pass_loop cmp k p list tail n s = Some (Inr (list', tail', n', s')) \<and> mset rs = mset rest
    \<and> chain (nxp s') list' (out @ rs) tail' \<and> runs s' (2 * k) rs \<and> ext s s'
    \<and> (\<forall>a. a \<notin> set (out @ rest) \<longrightarrow> nxp s' a = nxp s a) \<and> n \<le> n' \<and> (n' \<le> n + 1 \<longleftrightarrow> length rest \<le> 2 * k) \<and> (n' = n \<longleftrightarrow> rest = [])"
  using assms(2-)
proof (induction "length rest" arbitrary: s out rest p list tail n rule: less_induct)
  case less
  show ?case
  proof (cases "rest = []")
    case True
    then show ?thesis using less.prems
      by (subst pass_loop.simps) (auto simp: ext_def runs_def sorted_by_def)
  next
    case False
    define ps where "ps = take k rest"
    define qs where "qs = take k (drop k rest)"
    define rest' where "rest' = drop (2 * k) rest"
    have r: "rest = ps @ qs @ rest'"
      unfolding ps_def qs_def rest'_def by (metis append_take_drop_id drop_drop mult_2)
    have ps: "ps \<noteq> []" "length ps = k \<or> qs @ rest' = [] \<and> length ps \<le> k" and qs: "length qs = k \<or> rest' = [] \<and> length qs \<le> k"
      using False assms(1) by (auto simp: ps_def qs_def rest'_def)
    have p: "p = Some (hd ps)" using seg_hd [OF less.prems(3) False] ps(1) r by simp
    obtain q where w: "walk k p 0 s = Inr (q, length ps)" "seg (nxp s) q (qs @ rest')"
      using walk_ok [of s p ps "qs @ rest'" k 0] less.prems(3) r ps by auto
    have so: "sorted_by le s ps" "sorted_by le s qs"
      using runs_split [OF less.prems(5)] runs_split [of s k "drop k rest"] by (simp_all add: ps_def qs_def)
    have rr: "runs s k rest'" using runs_split [OF less.prems(5)] runs_split [of s k "drop k rest"] by (simp add: rest'_def mult_2)
    have m: "merging le s out [] p ps q qs rest' list tail"
      using less.prems(2-4) w(2) p so seg_append_links [of "nxp s" p ps "qs @ rest'"] unfolding merging_def r by (simp add: sorted_by_def)
    from merge_loop_ok [OF less.prems(1) m qs] obtain q1 list1 tail1 s1 ms where
      ml: "merge_loop cmp p (length ps) q k list tail s = Inr (q1, list1, tail1, s1)" and
      ms: "mset ms = mset (ps @ qs)" "sorted_by le s1 ms" "chain (nxp s1) list1 (out @ ms) tail1" "seg (nxp s1) q1 rest'" "ext s s1"
        "\<forall>a. a \<notin> set (out @ ms) \<longrightarrow> nxp s1 a = nxp s a"
      unfolding merged_def by auto
    have st: "set ms = set ps \<union> set qs" "length ms = length ps + length qs" "distinct (ms @ rest')"
    proof -
      show "set ms = set ps \<union> set qs" using mset_eq_setD [OF ms(1)] by simp
      show "length ms = length ps + length qs" using mset_eq_length [OF ms(1)] by simp
      have "mset (ms @ rest') = mset rest" using ms(1) r by simp
      then show "distinct (ms @ rest')" using less.prems(2) mset_eq_imp_distinct_iff [of "ms @ rest'" rest] by simp
    qed
    have "set (ms @ rest') = set rest" using st(1) r by auto
    then have d: "distinct ((out @ ms) @ rest')" using st(3) less.prems(2) by auto
    have l: "length rest' < length rest" using ps(1) r by simp
    have i1: "Inv s1" "runs s1 k rest'" using ms(5) rr runs_ext by (auto simp: ext_def)
    from less.hyps [OF l i1(1) d ms(4,3) i1(2), of "n + 1"] obtain list' tail' n' s' rs where
      pl: "pass_loop cmp k q1 list1 tail1 (n + 1) s1 = Some (Inr (list', tail', n', s'))" and
      rs: "mset rs = mset rest'" "chain (nxp s') list' ((out @ ms) @ rs) tail'" "runs s' (2 * k) rs" "ext s1 s'"
        "\<forall>a. a \<notin> set ((out @ ms) @ rest') \<longrightarrow> nxp s' a = nxp s1 a" "n + 1 \<le> n'" "n' = n + 1 \<longleftrightarrow> rest' = []"
      by blast
    have c1: "pass_loop cmp k p list tail n s = Some (Inr (list', tail', n', s'))"
      using pl w(1) ml by (subst pass_loop.simps) (simp add: p)
    have c2: "mset (ms @ rs) = mset rest" using ms(1) rs(1) r by simp
    have c3: "runs s' (2 * k) (ms @ rs)"
    proof (rule runs_join)
      show "sorted_by le s' ms" using ext_sorted rs(4) ms(2) by blast
      show "length ms = 2 * k \<or> rs = [] \<and> length ms \<le> 2 * k" using st(2) ps qs rs(1) by auto
    qed (rule rs(3))
    have c4: "\<forall>a. a \<notin> set (out @ rest) \<longrightarrow> nxp s' a = nxp s a" using rs(5) ms(6) st(1) r by auto
    have c5: "n' \<le> n + 1 \<longleftrightarrow> length rest \<le> 2 * k" using rs(6,7) by (auto simp: rest'_def)
    show ?thesis using c1 c2 c3 c4 c5 rs(2,6) ext_trans [OF ms(5) rs(4)] False
      by (intro exI [of _ list'] exI [of _ tail'] exI [of _ n'] exI [of _ s'] exI [of _ "ms @ rs"]) simp
  qed
qed

lemma sort_loop_ok:
  assumes "0 < k" "Inv s" "xs \<noteq> []" "distinct xs" "seg (nxp s) list xs" "runs s k xs"
  shows "\<exists>list' ys s'. sort_loop cmp k list s = Some (Inr (list', s')) \<and> seg (nxp s') list' ys \<and> mset ys = mset xs
    \<and> sorted_by le s' ys \<and> ext s s' \<and> (\<forall>a. a \<notin> set xs \<longrightarrow> nxp s' a = nxp s a)"
  using assms
proof (induction "length xs - k" arbitrary: k s xs list rule: less_induct)
  case less
  have c: "chain (nxp s) None [] None" by (simp add: chain_def)
  obtain list1 tail1 n1 s1 rs where p: "pass_loop cmp k list None None 0 s = Some (Inr (list1, tail1, n1, s1))" and
    rs: "mset rs = mset xs" "chain (nxp s1) list1 rs tail1" "runs s1 (2 * k) rs" "ext s s1"
      "\<forall>a. a \<notin> set xs \<longrightarrow> nxp s1 a = nxp s a" "n1 \<le> 1 \<longleftrightarrow> length xs \<le> 2 * k"
    using pass_loop_ok [OF less.prems(1,2) _ less.prems(5) c less.prems(6), of 0] less.prems(4) by auto
  have st: "rs \<noteq> []" "set rs = set xs" "distinct rs" "length rs = length xs"
    using rs(1) less.prems(3,4) mset_eq_setD [OF rs(1)] mset_eq_imp_distinct_iff [OF rs(1)] mset_eq_length [OF rs(1)] by auto
  define s2 where "s2 = s1\<lparr>nxp := (nxp s1)(last rs := None)\<rparr>"
  have t: "tail1 = Some (last rs)" "list1 = Some (hd rs)" "links (nxp s1) rs" using rs(2) st(1) by (simp_all add: chain_def)
  have sg: "seg (nxp s2) list1 rs" using links_seg [OF t(3) st(1,3)] t(2) by (simp add: s2_def)
  have e: "ext s1 s2" unfolding s2_def by (rule ext_relink) (use rs(4) in \<open>simp add: ext_def\<close>)
  have x: "ext s s2" by (rule ext_trans [OF rs(4) e])
  have i2: "Inv s2" using e by (simp add: ext_def)
  have r2: "runs s2 (2 * k) rs" by (rule runs_ext [OF e rs(3)])
  have fr: "\<forall>a. a \<notin> set xs \<longrightarrow> nxp s2 a = nxp s a" using rs(5) st(1,2) last_in_set [OF st(1)] by (auto simp: s2_def)
  have u: "sort_loop cmp k list s = (if n1 \<le> 1 then Some (Inr (list1, s2)) else sort_loop cmp (k * 2) list1 s2)"
    using p t(1) by (subst sort_loop.simps) (simp add: deref_def s2_def)
  show ?case
  proof (cases "length xs \<le> 2 * k")
    case True
    have "sorted_by le s2 (take (2 * k) rs)" using runs_split [OF r2] by simp
    then have "sorted_by le s2 rs" using True st(4) by simp
    with u True rs(1,6) sg x fr show ?thesis
      by (intro exI [of _ list1] exI [of _ rs] exI [of _ s2]) simp
  next
    case False
    have l: "length rs - k * 2 < length xs - k" using False st(4) less.prems(1) by simp
    have "0 < k * 2" "runs s2 (k * 2) rs" using less.prems(1) r2 by (simp_all add: mult.commute)
    from less.hyps [OF l this(1) i2 st(1,3) sg this(2)] obtain list' ys s' where
      r: "sort_loop cmp (k * 2) list1 s2 = Some (Inr (list', s'))" "seg (nxp s') list' ys" "mset ys = mset rs"
        "sorted_by le s' ys" "ext s2 s'" "\<forall>a. a \<notin> set rs \<longrightarrow> nxp s' a = nxp s2 a" by blast
    have "ext s s'" by (rule ext_trans [OF x r(5)])
    with r(1-4,6) u False rs(1,6) st(2) fr show ?thesis
      by (intro exI [of _ list'] exI [of _ ys] exI [of _ s']) simp
  qed
qed

lemma mergesort_ok:
  assumes "Inv s" "xs \<noteq> []" "distinct xs" "seg (nxp s) list xs"
  shows "\<exists>list' ys s'. core_list_mergesort list cmp s = Some (Inr (list', s')) \<and> seg (nxp s') list' ys \<and> mset ys = mset xs
    \<and> sorted_by le s' ys \<and> Inv s' \<and> inf s' = inf s \<and> (\<forall>a. a \<notin> set xs \<longrightarrow> nxp s' a = nxp s a)"
  using sort_loop_ok [OF _ assms runs_one] unfolding core_list_mergesort_def ext_def by auto

end

end
