(* ===== verification/CmOrder.thy ===== *)
theory CmOrder imports CmSort begin

text \<open>
  The two comparisons of \<open>core_list_join.c\<close>, by index and by value, meet the contract of the sort.
\<close>

unbundle bit_operations_syntax

section \<open>The two comparisons\<close>

text \<open>What \<open>core_bench_state\<close> needs of the block it scans.\<close>

definition results_ok :: "core \<Rightarrow> bool" where
  "results_ok s \<longleftrightarrow> length (rstate s) = unat (rsize s) \<and> 2 \<le> length (rstate s)
     \<and> rstate s ! (length (rstate s) - 1) = 0 \<and> rstate s ! (length (rstate s) - 2) = 0
     \<and> (\<forall>x \<in> set (rstate s). x \<noteq> 44 \<longrightarrow> x XOR ucast (rseed1 s) \<noteq> 44) \<and> rseed2 s = rseed1 s"

text \<open>What no comparison changes: all but the links, the caches, the CRCs and the matrices.\<close>

definition kept :: "core \<Rightarrow> core \<Rightarrow> bool" where
  "kept s t \<longleftrightarrow> idx t = idx s \<and> rsize t = rsize s \<and> rstate t = rstate s \<and> rseed1 t = rseed1 s \<and> rseed2 t = rseed2 s
     \<and> rseed3 t = rseed3 s \<and> rlist t = rlist s \<and> riterations t = riterations s \<and> rexecs t = rexecs s
     \<and> (\<forall>a. drop_bit 8 (data16 t a) = drop_bit 8 (data16 s a))"

lemma kept_refl [simp]: "kept s s"
  by (simp add: kept_def)

lemma kept_trans: "kept s t \<Longrightarrow> kept t u \<Longrightarrow> kept s u"
  by (simp add: kept_def)

lemma kept_updates [simp]:
  "kept s (t\<lparr>nxp := h\<rparr>) = kept s t" "kept s (t\<lparr>rcrc := v\<rparr>) = kept s t" "kept s (t\<lparr>rmat := m\<rparr>) = kept s t"
  "kept s (t\<lparr>rcrcmatrix := v\<rparr>) = kept s t" "kept s (t\<lparr>rcrcstate := v\<rparr>) = kept s t" "kept s (t\<lparr>inf := f\<rparr>) = kept s t"
  by (simp_all add: kept_def)

lemma results_ok_kept: "kept s t \<Longrightarrow> results_ok s \<Longrightarrow> results_ok t"
  unfolding kept_def results_ok_def by auto

text \<open>\<open>cmp_idx\<close> called with a null \<open>res\<close> regenerates the items it compares: their low byte is their
  high byte afterwards.  It changes nothing else.\<close>

definition clean :: "core \<Rightarrow> nat \<Rightarrow> bool" where
  "clean s a \<longleftrightarrow> data16 s a AND 0xff = drop_bit 8 (data16 s a)"

definition idx_le :: "core \<Rightarrow> nat \<Rightarrow> nat \<Rightarrow> bool" where
  "idx_le s a b \<longleftrightarrow> sint (idx s a) \<le> sint (idx s b) \<and> clean s a \<and> clean s b"

lemma regen_word:
  fixes d :: u16
  defines "r \<equiv> (d AND 0xff00) OR (0xff AND signed_drop_bit 8 d)"
  shows "r AND 0xff = drop_bit 8 d" "drop_bit 8 r = drop_bit 8 d"
proof -
  have m: "(0xff :: u16) = mask 8" "(0xff00 :: u16) = push_bit 8 (mask 8)" by (simp_all add: mask_eq_exp_minus_1)
  show r: "r AND 0xff = drop_bit 8 d"
    unfolding r_def m by (rule bit_word_eqI) (auto simp: bit_simps bit_signed_drop_bit_iff dest: bit_imp_le_length)
  show "drop_bit 8 r = drop_bit 8 d"
    unfolding r_def m by (rule bit_word_eqI) (auto simp: bit_simps bit_signed_drop_bit_iff dest: bit_imp_le_length)
qed

lemma high_byte: "drop_bit 8 d AND 0xff = drop_bit 8 d" for d :: u16
proof -
  have m: "(0xff :: u16) = mask 8" by (simp add: mask_eq_exp_minus_1)
  show ?thesis unfolding m by (rule bit_word_eqI) (auto simp: bit_simps dest: bit_imp_le_length)
qed

lemma regen_ok: "clean (regen a s) a" "clean s b \<Longrightarrow> clean (regen a s) b" "kept s (regen a s)"
  "nxp (regen a s) = nxp s" "inf (regen a s) = inf s" "idx (regen a s) = idx s"
  by (simp_all add: regen_def clean_def kept_def regen_word high_byte)

interpretation by_idx: list_order "cmp_idx True" "kept r" idx_le
proof
  fix s a b
  assume k: "kept r s"
  let ?s = "regen b (regen a s)"
  have f: "kept r ?s" using kept_trans [OF kept_trans [OF k regen_ok(3) [of s a]] regen_ok(3)] .
  have c: "clean ?s a" "clean ?s b" "\<And>x. clean s x \<Longrightarrow> clean ?s x" by (simp_all add: regen_ok(1,2))
  have "cmp_idx True a b s = Inr (sint (idx s a) - sint (idx s b), ?s)" by (simp add: cmp_idx_def Let_def regen_ok(6))
  with f c show "\<exists>c s'. cmp_idx True a b s = Inr (c, s') \<and> kept r s' \<and> nxp s' = nxp s \<and> inf s' = inf s
      \<and> (\<forall>x y. idx_le s x y \<longrightarrow> idx_le s' x y) \<and> (if c \<le> 0 then idx_le s' a b else idx_le s' b a)"
    by (intro exI [of _ "sint (idx s a) - sint (idx s b)"] exI [of _ ?s]) (simp add: regen_ok(4-6) idx_le_def)
qed (auto simp: idx_le_def clean_def fun_eq_iff)

text \<open>Items with a cached value, and the order of the values.\<close>

definition cached :: "core \<Rightarrow> nat \<Rightarrow> bool" where
  "cached s a \<longleftrightarrow> bit (data16 s a) 7"

definition value_of :: "core \<Rightarrow> nat \<Rightarrow> u16" where
  "value_of s a = data16 s a AND 0x7f"

definition value_le :: "core \<Rightarrow> nat \<Rightarrow> nat \<Rightarrow> bool" where
  "value_le s a b \<longleftrightarrow> cached s a \<and> cached s b \<and> value_of s a \<le> value_of s b"

lemma bit_7: "drop_bit 7 d AND 1 \<noteq> 0 \<longleftrightarrow> bit d 7" for d :: u16
proof -
  have "drop_bit 7 d AND 1 = of_bool (bit d 7)" by (rule bit_word_eqI) (auto simp: bit_simps)
  then show ?thesis by simp
qed

lemma cached_value:
  fixes d r :: u16
  shows "((d AND 0xff00) OR 0x80 OR (r AND 0x7f)) AND 0x7f = r AND 0x7f" "bit ((d AND 0xff00) OR 0x80 OR (r AND 0x7f)) 7"
  by (simp_all add: bit.conj_disj_distrib2 and.assoc bit_simps)

text \<open>The period of the corruption.\<close>

definition period :: "u16 \<Rightarrow> u16" where
  "period d = (let dtype = drop_bit 3 d AND 0xf; dtype = dtype OR push_bit 4 dtype in if dtype < 0x22 then 0x22 else dtype)"

lemma sint_small: "unat x < 32768 \<Longrightarrow> sint x = int (unat x)" for x :: u16
proof -
  assume a: "unat x < 32768"
  have u: "uint x = int (unat x)" by simp
  with a have "uint x < 32768" "- 32768 \<le> uint x" by linarith+
  then have "sint x = uint x" using signed_take_bit_int_eq_self [of 15 "uint x"] by (simp add: sint_uint)
  with u show ?thesis by simp
qed

lemma period_range: "2 \<le> sint (period d)"
proof -
  let ?d = "drop_bit 3 d AND 0xf"
  have m: "(0xf :: u16) = mask 4" by (simp add: mask_eq_exp_minus_1)
  have "take_bit 8 (?d OR push_bit 4 ?d) = ?d OR push_bit 4 ?d"
    unfolding m by (rule bit_word_eqI) (auto simp: bit_simps)
  moreover have "unat (take_bit 8 (?d OR push_bit 4 ?d)) < 256" by (simp only: unat_take_bit) simp
  ultimately have "unat (?d OR push_bit 4 ?d) < 256" by (simp only:)
  then have "unat (period d) < 256" "34 \<le> unat (period d)" by (auto simp: period_def Let_def word_less_nat_alt)
  then show ?thesis using sint_small [of "period d"] by linarith
qed

lemma bench_state_ok:
  assumes "results_ok s"
  shows "\<exists>r. core_bench_state (rsize s) (rstate s) (rseed1 s) (rseed2 s) (period d) crc = Some (Inr (r, rstate s))"
  using assms bench_state_restores [of "rstate s" "rsize s" "period d" "rseed1 s" crc] period_range [of d]
  unfolding results_ok_def by auto

text \<open>\<open>calc_func\<close> on an item that is not cached: the value that is then cached.\<close>

lemma calc_value:
  assumes "results_ok s" "\<not> cached s a"
  obtains r s1 where "calc_func a s = Inr (r AND 0x7f, s1\<lparr>rcrc := crcu16 r (rcrc s1),
      data16 := (data16 s1)(a := (data16 s a AND 0xff00) OR 0x80 OR (r AND 0x7f))\<rparr>)"
    "kept s s1" "nxp s1 = nxp s" "inf s1 = inf s" "data16 s1 = data16 s"
proof -
  let ?d = "data16 s a"
  let ?dt = "drop_bit 3 ?d AND 0xf OR push_bit 4 (drop_bit 3 ?d AND 0xf)"
  have n: "\<not> (drop_bit 7 ?d AND 1 \<noteq> 0)" using assms(2) by (simp only: bit_7 cached_def not_False_eq_True)
  obtain r where r: "core_bench_state (rsize s) (rstate s) (rseed1 s) (rseed2 s) (period ?d) (rcrc s) = Some (Inr (r, rstate s))"
    using bench_state_ok [OF assms(1)] by blast
  obtain m' rm where m: "core_bench_matrix (rmat s) ?dt (rcrc s) = (rm, m')" by fastforce
  consider "?d AND 7 = 0" | "?d AND 7 = 1" | "?d AND 7 \<noteq> 0" "?d AND 7 \<noteq> 1" by blast
  then show thesis
  proof cases
    case 1
    have "calc_func a s = rbind (Inr (r, if rcrcstate s = 0 then s\<lparr>rcrcstate := r\<rparr> else s)) (\<lambda>(retval, s).
            let s = s\<lparr>rcrc := crcu16 retval (rcrc s)\<rparr>; retval = retval AND 0x7f
            in Inr (retval, s\<lparr>data16 := (data16 s)(a := (?d AND 0xff00) OR 0x80 OR retval)\<rparr>))"
      using n 1 r unfolding calc_func_def Let_def period_def by (simp only: if_False if_P of_loop_simps rbind.simps prod.case) simp
    then show thesis using that [of r "if rcrcstate s = 0 then s\<lparr>rcrcstate := r\<rparr> else s"] by (simp add: Let_def)
  next
    case 2
    have "calc_func a s = rbind (Inr (rm, if rcrcmatrix s = 0 then s\<lparr>rmat := m', rcrcmatrix := rm\<rparr> else s\<lparr>rmat := m'\<rparr>)) (\<lambda>(retval, s).
            let s = s\<lparr>rcrc := crcu16 retval (rcrc s)\<rparr>; retval = retval AND 0x7f
            in Inr (retval, s\<lparr>data16 := (data16 s)(a := (?d AND 0xff00) OR 0x80 OR retval)\<rparr>))"
      using n 2 m unfolding calc_func_def Let_def by simp
    then show thesis using that [of rm "if rcrcmatrix s = 0 then s\<lparr>rmat := m', rcrcmatrix := rm\<rparr> else s\<lparr>rmat := m'\<rparr>"] by (simp add: Let_def)
  next
    case 3
    then show thesis using n that [of ?d s] unfolding calc_func_def Let_def by simp
  qed
qed

lemma cached_high: "drop_bit 8 ((d AND 0xff00) OR 0x80 OR (r AND 0x7f)) = drop_bit 8 d" for d r :: u16
proof -
  have m: "(0xff00 :: u16) = push_bit 8 (mask 8)" "(0x80 :: u16) = push_bit 7 1" "(0x7f :: u16) = mask 7"
    by (simp_all add: mask_eq_exp_minus_1)
  show ?thesis unfolding m by (rule bit_word_eqI) (auto simp: bit_simps bit_1_iff dest: bit_imp_le_length)
qed

lemma calc_func_ok:
  assumes "results_ok s"
  obtains s' where "calc_func a s = Inr (value_of s' a, s')" "kept s s'" "nxp s' = nxp s" "inf s' = inf s"
    "cached s' a" "\<And>x. cached s x \<Longrightarrow> data16 s' x = data16 s x"
proof (cases "cached s a")
  case True
  then have "calc_func a s = Inr (value_of s a, s)"
    unfolding calc_func_def Let_def value_of_def cached_def bit_7 [symmetric] by (simp only: if_True simp_thms)
  with True that [of s] show thesis by simp
next
  case False
  let ?v = "\<lambda>r. (data16 s a AND 0xff00) OR 0x80 OR (r AND 0x7f)"
  obtain r s1 where r: "calc_func a s = Inr (r AND 0x7f, s1\<lparr>rcrc := crcu16 r (rcrc s1), data16 := (data16 s1)(a := ?v r)\<rparr>)"
    and s1: "kept s s1" "nxp s1 = nxp s" "inf s1 = inf s" "data16 s1 = data16 s" using calc_value [OF assms False] .
  define s2 where "s2 = s1\<lparr>rcrc := crcu16 r (rcrc s1), data16 := (data16 s1)(a := ?v r)\<rparr>"
  have d: "data16 s2 = (data16 s)(a := ?v r)" by (simp add: s2_def s1(4))
  have "kept s s2" using s1(1,4) by (auto simp: kept_def s2_def cached_high high_byte)
  moreover have "value_of s2 a = r AND 0x7f" "cached s2 a" by (simp_all only: value_of_def cached_def d fun_upd_same cached_value)
  moreover have "data16 s2 x = data16 s x" if "cached s x" for x using False that d by auto
  ultimately show thesis using that [of s2] r s1(2,3) by (simp add: s2_def)
qed

lemma value_ext:
  assumes "\<And>x. cached s x \<Longrightarrow> data16 s' x = data16 s x"
  shows "value_le s a b \<Longrightarrow> value_le s' a b"
  using assms [of a] assms [of b] by (auto simp: value_le_def cached_def value_of_def)

lemma sint_value: "sint (value_of s a) = int (unat (value_of s a))"
proof -
  have "value_of s a \<le> 0x7f" unfolding value_of_def by (rule word_and_le1)
  then have "unat (value_of s a) < 32768" by (simp only: word_le_nat_alt) simp
  then show ?thesis by (rule sint_small)
qed

lemma cmp_complex_ok:
  assumes "results_ok s"
  obtains c s' where "cmp_complex a b s = Inr (c, s')" "kept s s'" "nxp s' = nxp s" "inf s' = inf s"
    "\<And>x y. value_le s x y \<Longrightarrow> value_le s' x y" "if c \<le> 0 then value_le s' a b else value_le s' b a"
proof -
  obtain s1 where 1: "calc_func a s = Inr (value_of s1 a, s1)" "kept s s1" "nxp s1 = nxp s" "inf s1 = inf s"
    "cached s1 a" "\<And>x. cached s x \<Longrightarrow> data16 s1 x = data16 s x" using calc_func_ok [OF assms, of a] by blast
  obtain s2 where 2: "calc_func b s1 = Inr (value_of s2 b, s2)" "kept s1 s2" "nxp s2 = nxp s1" "inf s2 = inf s1"
    "cached s2 b" "\<And>x. cached s1 x \<Longrightarrow> data16 s2 x = data16 s1 x"
    using calc_func_ok [OF results_ok_kept [OF 1(2) assms], of b] by blast
  have v: "value_of s1 a = value_of s2 a" "cached s2 a" using 2(6) [OF 1(5)] 1(5) by (simp_all add: value_of_def cached_def)
  have c: "cmp_complex a b s = Inr (sint (value_of s2 a) - sint (value_of s2 b), s2)"
    using 1(1) 2(1) v(1) by (simp add: cmp_complex_def)
  have le: "value_le s2 x y" if "value_le s x y" for x y
    using value_ext [OF 2(6) value_ext [OF 1(6) that]] .
  have "sint (value_of s2 a) - sint (value_of s2 b) \<le> 0 \<longleftrightarrow> value_of s2 a \<le> value_of s2 b"
    unfolding sint_value word_le_nat_alt by linarith
  then have "if sint (value_of s2 a) - sint (value_of s2 b) \<le> 0 then value_le s2 a b else value_le s2 b a"
    using 2(5) v(2) by (auto simp: value_le_def)
  then show thesis using that [OF c kept_trans [OF 1(2) 2(2)] _ _ le] 1(3,4) 2(3,4) by simp
qed

interpretation by_value: list_order cmp_complex "\<lambda>s. kept r s \<and> results_ok s" value_le
proof
  fix s a b
  assume k: "kept r s \<and> results_ok s"
  then obtain c s' where c: "cmp_complex a b s = Inr (c, s')" "kept s s'" "nxp s' = nxp s" "inf s' = inf s"
    "\<And>x y. value_le s x y \<Longrightarrow> value_le s' x y" "if c \<le> 0 then value_le s' a b else value_le s' b a"
    using cmp_complex_ok by blast
  have "kept r s'" "results_ok s'" using kept_trans [OF _ c(2)] results_ok_kept [OF c(2)] k by blast+
  with c show "\<exists>c s'. cmp_complex a b s = Inr (c, s') \<and> (kept r s' \<and> results_ok s') \<and> nxp s' = nxp s \<and> inf s' = inf s
      \<and> (\<forall>x y. value_le s x y \<longrightarrow> value_le s' x y) \<and> (if c \<le> 0 then value_le s' a b else value_le s' b a)" by blast
qed (auto simp: results_ok_def value_le_def cached_def value_of_def fun_eq_iff)

section \<open>The sort\<close>

lemma pairs_all:
  assumes "sorted_wrt P ys" "2 \<le> length ys" "x \<in> set ys"
  shows "\<exists>y. P x y \<or> P y x"
proof -
  obtain i where i: "i < length ys" "x = ys ! i" using assms(3) by (metis in_set_conv_nth)
  define j where "j = (if i = 0 then 1 else 0 :: nat)"
  have "j < length ys" "i < j \<or> j < i" using assms(2) by (auto simp: j_def)
  then show ?thesis using assms(1) i by (metis sorted_wrt_iff_nth_less)
qed

lemma idx_sort:
  assumes "xs \<noteq> []" "distinct xs" "seg (nxp s) list xs"
  shows "\<exists>list' ys s'. core_list_mergesort list (cmp_idx True) s = Some (Inr (list', s')) \<and> seg (nxp s') list' ys \<and> mset ys = mset xs
    \<and> sorted_wrt (\<lambda>x y. sint (idx s (inf s x)) \<le> sint (idx s (inf s y))) ys \<and> (2 \<le> length xs \<longrightarrow> (\<forall>x \<in> set xs. clean s' (inf s x)))
    \<and> kept s s' \<and> inf s' = inf s \<and> (\<forall>a. a \<notin> set xs \<longrightarrow> nxp s' a = nxp s a)"
proof -
  obtain list' ys s' where r: "core_list_mergesort list (cmp_idx True) s = Some (Inr (list', s'))" "seg (nxp s') list' ys" "mset ys = mset xs"
    "sorted_by idx_le s' ys" "kept s s'" "inf s' = inf s" "\<forall>a. a \<notin> set xs \<longrightarrow> nxp s' a = nxp s a"
    using by_idx.mergesort_ok [OF kept_refl assms] by blast
  have i: "idx s' = idx s" using r(5) by (simp add: kept_def)
  have w: "sorted_wrt (\<lambda>x y. idx_le s' (inf s x) (inf s y)) ys" using r(4) by (simp add: sorted_by_def r(6))
  have "clean s' (inf s x)" if "2 \<le> length xs" "x \<in> set xs" for x
    using pairs_all [OF w, of x] that mset_eq_length [OF r(3)] mset_eq_setD [OF r(3)] by (auto simp: idx_le_def)
  moreover have "sorted_wrt (\<lambda>x y. sint (idx s (inf s x)) \<le> sint (idx s (inf s y))) ys"
    by (rule sorted_wrt_mono_rel [OF _ w]) (simp add: idx_le_def i)
  ultimately show ?thesis using r(1-3,5-7) by blast
qed

lemma value_sort:
  assumes "xs \<noteq> []" "distinct xs" "seg (nxp s) list xs" "results_ok s"
  shows "\<exists>list' ys s'. core_list_mergesort list cmp_complex s = Some (Inr (list', s')) \<and> seg (nxp s') list' ys \<and> mset ys = mset xs
    \<and> sorted_wrt (\<lambda>x y. value_le s' (inf s x) (inf s y)) ys
    \<and> kept s s' \<and> inf s' = inf s \<and> (\<forall>a. a \<notin> set xs \<longrightarrow> nxp s' a = nxp s a)"
proof -
  have "kept s s \<and> results_ok s" using assms(4) by simp
  from by_value.mergesort_ok [OF this assms(1-3)] show ?thesis unfolding sorted_by_def by metis
qed

definition three_items :: core where
  "three_items = \<lparr>nxp = (\<lambda>a. if a < 2 then Some (a + 1) else None), inf = id, data16 = (\<lambda>_. 0), idx = (\<lambda>a. 2 - of_nat a),
     rseed1 = 0, rseed2 = 0, rseed3 = 0, rsize = 2, rstate = [0, 0], rlist = Some 0,
     rmat = \<lparr>mN = 0, mA = 0, mB = 0, mC = 0, datA = \<lambda>_. 0, datB = \<lambda>_. 0, datC = \<lambda>_. 0\<rparr>,
     riterations = 1, rexecs = 7, rcrc = 0, rcrclist = 0, rcrcmatrix = 0, rcrcstate = 0, rerr = 0\<rparr>"

text \<open>C6: \<open>core_list_mergesort\<close> on any list that is not empty returns, follows no null pointer, and
  relinks the same nodes in order: of their indices for \<open>cmp_idx\<close>, which regenerates the data
  of every item of a list of at least two, and of the cached values of their items for \<open>cmp_complex\<close>,
  all of which are then cached.  No other node, no index and nothing of the rest of the state but
  the results changes.\<close>

lemma mergesort_sorts:
  assumes "xs \<noteq> []" "distinct xs" "seg (nxp s) list xs"
  shows "(\<exists>list' ys s'. core_list_mergesort list (cmp_idx True) s = Some (Inr (list', s')) \<and> seg (nxp s') list' ys \<and> mset ys = mset xs
      \<and> sorted_wrt (\<lambda>x y. sint (idx s (inf s x)) \<le> sint (idx s (inf s y))) ys \<and> (2 \<le> length xs \<longrightarrow> (\<forall>x \<in> set xs. clean s' (inf s x)))
      \<and> kept s s' \<and> inf s' = inf s \<and> (\<forall>a. a \<notin> set xs \<longrightarrow> nxp s' a = nxp s a))
    \<and> (results_ok s \<longrightarrow> (\<exists>list' ys s'. core_list_mergesort list cmp_complex s = Some (Inr (list', s')) \<and> seg (nxp s') list' ys \<and> mset ys = mset xs
      \<and> sorted_wrt (\<lambda>x y. value_le s' (inf s x) (inf s y)) ys
      \<and> kept s s' \<and> inf s' = inf s \<and> (\<forall>a. a \<notin> set xs \<longrightarrow> nxp s' a = nxp s a)))"
  by (rule conjI [OF idx_sort [OF assms]], rule impI, rule value_sort [OF assms])

lemma three_items_seg: "seg (nxp three_items) (Some 0) [0, 1, 2]" "results_ok three_items"
  by (simp_all add: three_items_def results_ok_def)

lemma mergesort_sorts_witness:
  "(\<exists>list' s'. core_list_mergesort (Some 0) (cmp_idx True) three_items = Some (Inr (list', s')) \<and> clean s' 2)
   \<and> (\<exists>list' s'. core_list_mergesort (Some 0) cmp_complex three_items = Some (Inr (list', s')) \<and> kept three_items s')"
proof -
  have i: "core.inf three_items 2 = 2" by (simp add: three_items_def)
  have m: "[0, 1, 2] \<noteq> []" "distinct [0, 1, 2 :: nat]" by simp_all
  note r = mergesort_sorts [OF m three_items_seg(1)]
  have "\<exists>list' s'. core_list_mergesort (Some 0) (cmp_idx True) three_items = Some (Inr (list', s')) \<and> clean s' 2"
    using conjunct1 [OF r] i by auto
  with conjunct2 [OF r] three_items_seg(2) show ?thesis by blast
qed

end
