(* ===== verification/CmBench.thy ===== *)
theory CmBench imports CmOrder begin

text \<open>
  The benchmark of \<open>core_list_join.c\<close> on its list, the construction of the list, and the loop of
  iterations of \<open>core_main.c\<close>.
\<close>

unbundle bit_operations_syntax

text \<open>The next step of a computation whose loops may run forever.\<close>

definition lbind :: "(abort + 'a) option \<Rightarrow> ('a \<Rightarrow> (abort + 'b) option) \<Rightarrow> (abort + 'b) option" where
  "lbind m f = Option.bind m (\<lambda>r. case r of Inl e \<Rightarrow> Some (Inl e) | Inr x \<Rightarrow> f x)"

lemma lbind_simps [simp]: "lbind (Some (Inr x)) f = f x" "lbind (Some (Inl e)) f = Some (Inl e)" "lbind None f = None"
  by (simp_all add: lbind_def)

section \<open>The benchmark\<close>

text \<open>The local variables of the search: \<open>list\<close>, \<open>info\<close>, \<open>retval\<close>, \<open>found\<close> and \<open>missed\<close>.\<close>

record search =
  blist :: "nat option"
  binfo :: "u16 \<times> u16"
  bretval :: u16
  bfound :: u16
  bmissed :: u16

text \<open>The body of the loop, after the list has been reversed: a value was missed, or found at \<open>f\<close>.\<close>

definition missed_value :: "search \<Rightarrow> core \<Rightarrow> abort + search \<times> core" where
  "missed_value b s =
     rbind (deref (blist b)) (\<lambda>l. rbind (deref (nxp s l)) (\<lambda>n.
       Inr (b\<lparr>bmissed := bmissed b + 1, bretval := bretval b + (drop_bit 8 (data16 s (inf s n)) AND 1)\<rparr>, s)))"

definition found_value :: "nat \<Rightarrow> search \<Rightarrow> core \<Rightarrow> abort + search \<times> core" where
  "found_value f b s =
     (let d = data16 s (inf s f);
          b = b\<lparr>bfound := bfound b + 1, bretval := (if d AND 1 \<noteq> 0 then bretval b + (drop_bit 9 d AND 1) else bretval b)\<rparr>
      in case nxp s f of None \<Rightarrow> Inr (b, s)
         | Some finder \<Rightarrow>
             (let s = s\<lparr>nxp := (nxp s)(f := nxp s finder)\<rparr>
              in rbind (deref (blist b)) (\<lambda>l.
                   let s = s\<lparr>nxp := (nxp s)(finder := nxp s l)\<rparr>
                   in Inr (b, s\<lparr>nxp := (nxp s)(l := Some finder)\<rparr>))))"

definition find_step :: "nat \<Rightarrow> search \<Rightarrow> core \<Rightarrow> (abort + search \<times> core) option" where
  "find_step i b s =
     (let info = (of_nat i AND 0xff, snd (binfo b))
      in Option.bind (core_list_find (blist b) info s) (\<lambda>this_find.
         Option.bind (core_list_reverse (blist b) s) (\<lambda>(list, s).
           let b = b\<lparr>blist := list, binfo := info\<rparr>
           in Some (rbind (case this_find of None \<Rightarrow> missed_value b s | Some f \<Rightarrow> found_value f b s) (\<lambda>(b, s).
                Inr (if 0 \<le> sint (snd info) then b\<lparr>binfo := (fst info, snd info + 1)\<rparr> else b, s))))))"

fun find_values :: "nat list \<Rightarrow> search \<Rightarrow> core \<Rightarrow> (abort + search \<times> core) option" where
  "find_values [] b s = Some (Inr (b, s))"
| "find_values (i # is) b s = lbind (find_step i b s) (\<lambda>(b, s). find_values is b s)"

text \<open>The loops that take a CRC; they look at the head of the list in every round.\<close>

partial_function (option) crc_walk :: "nat option \<Rightarrow> nat option \<Rightarrow> u16 \<Rightarrow> core \<Rightarrow> (abort + u16) option" where
  "crc_walk finder list retval s =
     (case finder of None \<Rightarrow> Some (Inr retval)
      | Some f \<Rightarrow> (case list of None \<Rightarrow> Some (Inl NullDeref)
                  | Some l \<Rightarrow> crc_walk (nxp s f) list (crc16 (data16 s (inf s l)) retval) s))"

definition nxt_of :: "nat option \<Rightarrow> core \<Rightarrow> abort + nat option" where
  "nxt_of list s = rbind (deref list) (\<lambda>l. Inr (nxp s l))"

definition core_bench_list :: "u16 \<Rightarrow> core \<Rightarrow> (abort + u16 \<times> core) option" where
  "core_bench_list finder_idx s =
     lbind (find_values [0..<nat (sint (rseed3 s))]
              \<lparr>blist = rlist s, binfo = (0, finder_idx), bretval = 0, bfound = 0, bmissed = 0\<rparr> s) (\<lambda>(b, s).
     let retval = bretval b + (bfound b * 4 - bmissed b)
     in lbind (if 0 < sint finder_idx then core_list_mergesort (blist b) cmp_complex s else Some (Inr (blist b, s))) (\<lambda>(list, s).
        lbind (Some (rbind (nxt_of list s) (\<lambda>n. core_list_remove n s))) (\<lambda>(remover, s).
        Option.bind (core_list_find list (binfo b) s) (\<lambda>finder.
        lbind (Some (if finder = None then nxt_of list s else Inr finder)) (\<lambda>finder.
        lbind (crc_walk finder list retval s) (\<lambda>retval.
        lbind (Some (rbind (nxt_of list s) (\<lambda>n. core_list_undo_remove remover n s))) (\<lambda>(remover, s).
        lbind (core_list_mergesort list (cmp_idx True) s) (\<lambda>(list, s).
        lbind (Some (nxt_of list s)) (\<lambda>finder.
        lbind (crc_walk finder list retval s) (\<lambda>retval. Some (Inr (retval, s))))))))))))"

section \<open>Building the list\<close>

text \<open>\<open>memblock\<close> and \<open>datablock\<close> are the next free list head and item, \<open>n\<close> the end of both.\<close>

definition core_list_insert_new :: "nat \<Rightarrow> u16 \<times> u16 \<Rightarrow> nat \<Rightarrow> nat \<times> nat \<times> core \<Rightarrow> nat option \<times> nat \<times> nat \<times> core" where
  "core_list_insert_new insert_point info n = (\<lambda>(memblock, datablock, s).
     if n \<le> memblock + 1 then (None, memblock, datablock, s)
     else if n \<le> datablock + 1 then (None, memblock, datablock, s)
     else let newitem = memblock;
              s = s\<lparr>nxp := (nxp s)(newitem := nxp s insert_point)\<rparr>;
              s = s\<lparr>nxp := (nxp s)(insert_point := Some newitem)\<rparr>;
              s = s\<lparr>inf := (inf s)(newitem := datablock)\<rparr>
          in (Some newitem, memblock + 1, datablock + 1, copy_info datablock info s))"

definition item_data :: "u16 \<Rightarrow> u32 \<Rightarrow> u16" where
  "item_data seed i =
     (let datpat = ucast (scast seed XOR i) AND 0xf; dat = push_bit 3 datpat OR (ucast i AND 7) in push_bit 8 dat OR dat)"

definition insert_items :: "u16 \<Rightarrow> nat \<Rightarrow> nat \<Rightarrow> nat \<times> nat \<times> core \<Rightarrow> nat \<times> nat \<times> core" where
  "insert_items seed list n st =
     foldl (\<lambda>st i. snd (core_list_insert_new list (item_data seed (of_nat i), 0x7fff) n st)) st [0..<n]"

text \<open>The index of the \<open>i\<close>-th item: in order for the first fifth, scattered after that.\<close>

definition item_idx :: "u32 \<Rightarrow> u16 \<Rightarrow> u32 \<Rightarrow> u16" where
  "item_idx sz seed i =
     (if i < sz div 5 then ucast i
      else let pat = ucast (i XOR scast seed) :: u16 in 0x3fff AND (ucast (push_bit 8 ((i + 1) AND 7)) OR pat))"

partial_function (option) index_loop :: "u32 \<Rightarrow> u16 \<Rightarrow> nat option \<Rightarrow> u32 \<Rightarrow> core \<Rightarrow> (abort + core) option" where
  "index_loop sz seed finder i s =
     (case finder of None \<Rightarrow> Some (Inl NullDeref)
      | Some f \<Rightarrow> if nxp s f = None then Some (Inr s)
                  else index_loop sz seed (nxp s f) (i + 1) (s\<lparr>idx := (idx s)(inf s f := item_idx sz seed i)\<rparr>))"

text \<open>Blocks too small for the list head and its item are out of bounds.\<close>

definition core_list_init :: "u32 \<Rightarrow> u16 \<Rightarrow> core \<Rightarrow> (abort + nat option \<times> core) option" where
  "core_list_init blksize seed s =
     (let per_item = 16 + 4; sz = blksize div per_item - 2; n = unat sz; list = 0
      in if blksize div per_item \<le> 2 then Some (Inl OutOfBounds)
         else let s = s\<lparr>nxp := (nxp s)(list := None), inf := (inf s)(list := 0)\<rparr>;
                  s = copy_info 0 (0x8080, 0) s;
                  st = snd (core_list_insert_new list (0xffff, 0x7fff) n (1, 1, s));
                  (_, _, s) = insert_items seed list n st
              in lbind (index_loop sz seed (nxp s list) 1 s) (\<lambda>s. core_list_mergesort (Some list) (cmp_idx True) s))"

section \<open>The iterations\<close>

definition iterate_step :: "nat \<Rightarrow> core \<Rightarrow> (abort + core) option" where
  "iterate_step i s =
     lbind (core_bench_list 1 s) (\<lambda>(crc, s).
       let s = s\<lparr>rcrc := crcu16 crc (rcrc s)\<rparr>
       in lbind (core_bench_list (- 1) s) (\<lambda>(crc, s).
            let s = s\<lparr>rcrc := crcu16 crc (rcrc s)\<rparr>
            in Some (Inr (if i = 0 then s\<lparr>rcrclist := rcrc s\<rparr> else s))))"

fun iterate_loop :: "nat list \<Rightarrow> core \<Rightarrow> (abort + core) option" where
  "iterate_loop [] s = Some (Inr s)"
| "iterate_loop (i # is) s = lbind (iterate_step i s) (iterate_loop is)"

definition iterate :: "core \<Rightarrow> (abort + core) option" where
  "iterate s = iterate_loop [0..<unat (riterations s)] (s\<lparr>rcrc := 0, rcrclist := 0, rcrcmatrix := 0, rcrcstate := 0\<rparr>)"

section \<open>Walking and reversing\<close>

lemma find_loop_ok:
  assumes "seg (nxp s) p xs"
  shows "\<exists>r. find_loop stop p s = Some r \<and> (\<forall>a. r = Some a \<longrightarrow> a \<in> set xs)"
  using assms
proof (induction xs arbitrary: p)
  case Nil
  then show ?case by (simp add: find_loop.simps)
next
  case (Cons x xs)
  then obtain r where "find_loop stop (nxp s x) s = Some r" "\<forall>a. r = Some a \<longrightarrow> a \<in> set xs" by auto
  with Cons.prems show ?case by (subst find_loop.simps) auto
qed

lemma list_find_ok:
  assumes "seg (nxp s) p xs"
  obtains r where "core_list_find p info s = Some r" "\<And>a. r = Some a \<Longrightarrow> a \<in> set xs"
proof -
  have "\<exists>stop. core_list_find p info s = find_loop stop p s" unfolding core_list_find_def by auto
  then obtain stop where "core_list_find p info s = find_loop stop p s" by blast
  with find_loop_ok [OF assms, of stop] that show thesis by metis
qed

lemma seg_from: "seg h p xs \<Longrightarrow> a \<in> set xs \<Longrightarrow> \<exists>zs. seg h (Some a) zs"
proof (induction xs arbitrary: p)
  case (Cons x xs)
  then show ?case by (metis seg.simps(2) set_ConsD)
qed simp

lemma crc_walk_ok:
  assumes "seg (nxp s) p zs"
  shows "\<exists>r. crc_walk p (Some l) v s = Some (Inr r)"
  using assms
proof (induction zs arbitrary: p v)
  case Nil
  then show ?case by (simp add: crc_walk.simps)
next
  case (Cons x xs)
  then show ?case by (subst crc_walk.simps) auto
qed

lemma reverse_loop_ok:
  assumes "seg (nxp s) p xs" "seg (nxp s) q ys" "distinct (xs @ ys)"
  shows "\<exists>q' h. reverse_loop p q s = Some (q', s\<lparr>nxp := h\<rparr>) \<and> seg h q' (rev xs @ ys) \<and> (\<forall>a. a \<notin> set xs \<longrightarrow> h a = nxp s a)"
  using assms
proof (induction xs arbitrary: p q ys s)
  case Nil
  then show ?case by (intro exI [of _ q] exI [of _ "nxp s"]) (simp add: reverse_loop.simps)
next
  case (Cons x xs)
  let ?s = "s\<lparr>nxp := (nxp s)(x := q)\<rparr>"
  have "seg (nxp ?s) (nxp s x) xs" "seg (nxp ?s) (Some x) (x # ys)" "distinct (xs @ x # ys)" using Cons.prems by auto
  from Cons.IH [OF this] obtain q' h where r: "reverse_loop (nxp s x) (Some x) ?s = Some (q', ?s\<lparr>nxp := h\<rparr>)"
    "seg h q' (rev xs @ x # ys)" "\<forall>a. a \<notin> set xs \<longrightarrow> h a = nxp ?s a" by blast
  have "reverse_loop p q s = reverse_loop (nxp s x) (Some x) ?s" using Cons.prems(1) by (subst reverse_loop.simps) simp
  with r show ?case by (intro exI [of _ q'] exI [of _ h]) auto
qed

lemma list_reverse_ok:
  assumes "seg (nxp s) p xs" "distinct xs"
  obtains q h where "core_list_reverse p s = Some (q, s\<lparr>nxp := h\<rparr>)" "seg h q (rev xs)" "\<And>a. a \<notin> set xs \<Longrightarrow> h a = nxp s a"
  using reverse_loop_ok [OF assms(1), of None "[]"] assms(2) unfolding core_list_reverse_def by auto

section \<open>The list during the benchmark\<close>

text \<open>Some list of the nodes \<open>xs\<close>, in a state that differs from \<open>r\<close> in results and caches only.\<close>

definition list_of :: "core \<Rightarrow> nat list \<Rightarrow> nat option \<Rightarrow> core \<Rightarrow> bool" where
  "list_of r xs list s \<longleftrightarrow> (\<exists>ys. seg (nxp s) list ys \<and> mset ys = mset xs) \<and> (\<forall>a. a \<notin> set xs \<longrightarrow> nxp s a = nxp r a)
     \<and> inf s = inf r \<and> kept r s"

lemma list_ofE:
  assumes "list_of r xs list s" "distinct xs" "2 \<le> length xs"
  obtains l m ys where "list = Some l" "nxp s l = Some m" "seg (nxp s) (Some l) (l # m # ys)" "mset (l # m # ys) = mset xs"
    "distinct (l # m # ys)" "set (l # m # ys) = set xs" "length (l # m # ys) = length xs"
proof -
  obtain zs where z: "seg (nxp s) list zs" "mset zs = mset xs" using assms(1) unfolding list_of_def by blast
  have l: "length zs = length xs" by (rule mset_eq_length [OF z(2)])
  obtain l m ys where y: "zs = l # m # ys" using l assms(3) by (metis Suc_le_length_iff numeral_2_eq_2)
  have "distinct zs" using z(2) assms(2) by (metis mset_eq_imp_distinct_iff)
  then show thesis using that [of l m ys] z l mset_eq_setD [OF z(2)] y by simp
qed

lemma seg_cut: "seg h p (as @ f # g # bs) \<Longrightarrow> distinct (as @ f # g # bs) \<Longrightarrow> seg (h(f := h g)) p (as @ f # bs)"
  by (induction as arbitrary: p) auto

lemma seg_split: "seg h p (as @ f # bs) \<Longrightarrow> seg h (h f) bs"
  by (induction as arbitrary: p) auto

text \<open>The element after \<open>f\<close> is moved to the place after the head.\<close>

lemma relink_found:
  assumes z: "seg h (Some l) (l # zs)" and d: "distinct (l # zs)" and f: "f \<in> set (l # zs)" "h f = Some g"
  shows "\<exists>ys. seg (h(f := h g, g := (h(f := h g)) l, l := Some g)) (Some l) ys \<and> mset ys = mset (l # zs) \<and> g \<in> set zs"
proof (cases "f = l")
  case True
  then obtain cs where "zs = g # cs" using z f(2) by (cases zs) auto
  with True z d show ?thesis by (intro exI [of _ "l # zs"]) auto
next
  case False
  then obtain as bs where s: "zs = as @ f # bs" using f(1) by (metis set_ConsD split_list)
  have "seg h (h f) bs" using z s by (auto intro: seg_split)
  then obtain cs where b: "bs = g # cs" using f(2) by (cases bs) auto
  have "seg (h(f := h g)) (h l) (as @ f # cs)" using z d s b by (intro seg_cut) auto
  with z d s b False show ?thesis by (intro exI [of _ "l # g # as @ f # cs"]) auto
qed

section \<open>The search\<close>

lemma list_of_distinct: "list_of r xs list s \<Longrightarrow> distinct xs \<Longrightarrow> seg (nxp s) list ys \<Longrightarrow> mset ys = mset xs \<Longrightarrow> distinct ys \<and> set ys = set xs"
  by (metis mset_eq_imp_distinct_iff mset_eq_setD)

lemma kept_inf: "kept r (s\<lparr>nxp := h\<rparr>) = kept r s"
  by simp

lemma missed_ok:
  assumes "list_of r xs (blist b) s" "distinct xs" "2 \<le> length xs"
  shows "\<exists>b'. missed_value b s = Inr (b', s) \<and> blist b' = blist b"
proof -
  obtain l m ys where "blist b = Some l" "nxp s l = Some m" using list_ofE [OF assms] by metis
  then show ?thesis by (simp add: missed_value_def deref_def)
qed

lemma found_ok:
  assumes lo: "list_of r xs (blist b) s" and d: "distinct xs" "2 \<le> length xs" and f: "f \<in> set xs"
  shows "\<exists>b' s'. found_value f b s = Inr (b', s') \<and> blist b' = blist b \<and> list_of r xs (blist b) s'"
proof (cases "nxp s f")
  case None
  with lo show ?thesis by (simp add: found_value_def Let_def)
next
  case (Some g)
  obtain l m ys where y: "blist b = Some l" "seg (nxp s) (Some l) (l # m # ys)" "mset (l # m # ys) = mset xs"
    "distinct (l # m # ys)" "set (l # m # ys) = set xs" using list_ofE [OF lo d] by metis
  let ?h = "(nxp s)(f := nxp s g, g := ((nxp s)(f := nxp s g)) l, l := Some g)"
  obtain zs where z: "seg ?h (Some l) zs" "mset zs = mset (l # m # ys)" "g \<in> set (m # ys)"
    using relink_found [OF y(2,4) _ Some] f y(5) by blast
  have "l \<in> set xs" "g \<in> set xs" using y(5) z(3) by auto
  then have "\<forall>a. a \<notin> set xs \<longrightarrow> ?h a = nxp r a" using lo f unfolding list_of_def by auto
  then have "list_of r xs (Some l) (s\<lparr>nxp := ?h\<rparr>)" using lo z(1,2) y(3) unfolding list_of_def by auto
  then show ?thesis using Some y(1) by (simp add: found_value_def deref_def Let_def)
qed

lemma find_step_ok:
  assumes "list_of r xs (blist b) s" "distinct xs" "2 \<le> length xs"
  shows "\<exists>b' s'. find_step i b s = Some (Inr (b', s')) \<and> list_of r xs (blist b') s'"
proof -
  obtain ys where y: "seg (nxp s) (blist b) ys" "mset ys = mset xs" using assms(1) unfolding list_of_def by blast
  have d: "distinct ys" "set ys = set xs" using list_of_distinct [OF assms(1,2) y] by auto
  obtain q h where q: "core_list_reverse (blist b) s = Some (q, s\<lparr>nxp := h\<rparr>)" "seg h q (rev ys)" "\<And>a. a \<notin> set ys \<Longrightarrow> h a = nxp s a"
    using list_reverse_ok [OF y(1) d(1)] by blast
  let ?info = "(of_nat i AND 0xff, snd (binfo b))" and ?s = "s\<lparr>nxp := h\<rparr>"
  let ?b = "b\<lparr>blist := q, binfo := ?info\<rparr>"
  obtain fd where fd: "core_list_find (blist b) ?info s = Some fd" "\<And>a. fd = Some a \<Longrightarrow> a \<in> set ys" using list_find_ok [OF y(1)] by blast
  have lo: "list_of r xs (blist ?b) ?s" using assms(1) q(2,3) d(2) y(2) unfolding list_of_def by (auto intro!: exI [of _ "rev ys"])
  have "\<exists>b' s'. (case fd of None \<Rightarrow> missed_value ?b ?s | Some f \<Rightarrow> found_value f ?b ?s) = Inr (b', s') \<and> list_of r xs (blist b') s'"
  proof (cases fd)
    case None
    then show ?thesis using missed_ok [OF lo assms(2,3)] lo by auto
  next
    case (Some f)
    then have "f \<in> set xs" using fd(2) d(2) by blast
    from found_ok [OF lo assms(2,3) this] Some show ?thesis by auto
  qed
  then obtain b' s' where "(case fd of None \<Rightarrow> missed_value ?b ?s | Some f \<Rightarrow> found_value f ?b ?s) = Inr (b', s')" "list_of r xs (blist b') s'"
    by blast
  then show ?thesis using fd(1) q(1) unfolding find_step_def Let_def by simp
qed

lemma find_values_ok:
  assumes "list_of r xs (blist b) s" "distinct xs" "2 \<le> length xs"
  shows "\<exists>b' s'. find_values is b s = Some (Inr (b', s')) \<and> list_of r xs (blist b') s'"
  using assms(1)
proof (induction "is" arbitrary: b s)
  case (Cons i "is")
  obtain b' s' where "find_step i b s = Some (Inr (b', s'))" "list_of r xs (blist b') s'"
    using find_step_ok [OF Cons.prems assms(2,3)] by blast
  with Cons.IH show ?case by simp
qed simp

section \<open>The benchmark restores its list\<close>

lemma remove_undo:
  assumes "nxp s m = Some r" "m \<noteq> r"
  defines "s1 \<equiv> s\<lparr>nxp := (nxp s)(m := nxp s r, r := None), inf := (inf s)(m := inf s r, r := inf s m)\<rparr>"
  shows "core_list_remove (Some m) s = Inr (r, s1)" "core_list_undo_remove r (Some m) s1 = Inr (r, s)"
proof -
  show "core_list_remove (Some m) s = Inr (r, s1)"
    using assms(1,2) by (simp add: core_list_remove_def deref_def Let_def s1_def)
  show "core_list_undo_remove r (Some m) s1 = Inr (r, s)"
    using assms(1,2) by (auto simp: core_list_undo_remove_def deref_def Let_def s1_def fun_upd_twist intro!: core.equality)
qed

lemma sorted_same:
  fixes k :: "nat \<Rightarrow> int"
  assumes "mset ys = mset xs" "sorted_wrt (\<lambda>x y. k x < k y) xs" "sorted_wrt (\<lambda>x y. k x \<le> k y) ys"
  shows "ys = xs"
proof -
  have "sorted_wrt (<) (map k xs)" "sorted (map k ys)" using assms(2,3) by (simp_all add: sorted_wrt_map)
  then have x: "sorted (map k xs)" "distinct (map k xs)" "sorted (map k ys)" by (simp_all add: strict_sorted_iff)
  have s: "set ys = set xs" by (rule mset_eq_setD [OF assms(1)])
  have "distinct (map k ys)" using x(2) assms(1) by (metis mset_eq_imp_distinct_iff mset_map)
  moreover have "inj_on k (set ys \<union> set xs)" using x(2) s by (simp add: distinct_map)
  ultimately show ?thesis using map_sorted_distinct_set_unique [of k ys xs] x s by blast
qed

text \<open>The list of the results, in order of its indices, with its data regenerated.\<close>

definition list_ready :: "core \<Rightarrow> nat list \<Rightarrow> bool" where
  "list_ready s xs \<longleftrightarrow> seg (nxp s) (rlist s) xs \<and> distinct xs \<and> 3 \<le> length xs
     \<and> sorted_wrt (\<lambda>x y. sint (idx s (inf s x)) < sint (idx s (inf s y))) xs \<and> (\<forall>x \<in> set xs. clean s (inf s x))"

lemma value_sort_list_of:
  assumes "list_of r xs list s" "distinct xs" "2 \<le> length xs" "results_ok r"
  shows "\<exists>list' s'. core_list_mergesort list cmp_complex s = Some (Inr (list', s')) \<and> list_of r xs list' s'"
proof -
  obtain ys where y: "seg (nxp s) list ys" "mset ys = mset xs" "kept r s" "inf s = inf r" "\<forall>a. a \<notin> set xs \<longrightarrow> nxp s a = nxp r a"
    using assms(1) unfolding list_of_def by blast
  have d: "distinct ys" "set ys = set xs" "ys \<noteq> []" using list_of_distinct [OF assms(1,2) y(1,2)] y(2) assms(3) by auto
  from value_sort [OF d(3,1) y(1) results_ok_kept [OF y(3) assms(4)]] obtain list' zs s' where
    r: "core_list_mergesort list cmp_complex s = Some (Inr (list', s'))" "seg (nxp s') list' zs" "mset zs = mset ys"
      "kept s s'" "inf s' = inf s" "\<forall>a. a \<notin> set ys \<longrightarrow> nxp s' a = nxp s a" by blast
  have "kept r s'" by (rule kept_trans [OF y(3) r(4)])
  with r y(2,4,5) d(2) show ?thesis unfolding list_of_def by auto
qed

text \<open>After the removal, the search and the reinsertion the state is as before.\<close>

lemma middle_ok:
  assumes "list_of r xs list s" "distinct xs" "3 \<le> length xs"
  obtains remover s1 fd fi v1 where "rbind (nxt_of list s) (\<lambda>n. core_list_remove n s) = Inr (remover, s1)"
    "core_list_find list info s1 = Some fd" "(if fd = None then nxt_of list s1 else Inr fd) = Inr fi"
    "\<And>v. \<exists>v'. crc_walk fi list v s1 = Some (Inr v')"
    "rbind (nxt_of list s1) (\<lambda>n. core_list_undo_remove remover n s1) = Inr (remover, s)"
proof -
  obtain l m ys where l: "list = Some l" "nxp s l = Some m" "seg (nxp s) (Some l) (l # m # ys)" "distinct (l # m # ys)"
    "length (l # m # ys) = length xs" using list_ofE [OF assms(1,2)] assms(3) by (metis Suc_leD eval_nat_numeral(3))
  then obtain r zs where z: "ys = r # zs" using assms(3) by (cases ys) auto
  then have m: "nxp s m = Some r" "m \<noteq> r" "l \<noteq> m" "l \<noteq> r" using l(3,4) by auto
  let ?s1 = "s\<lparr>nxp := (nxp s)(m := nxp s r, r := None), inf := (inf s)(m := inf s r, r := inf s m)\<rparr>"
  have g: "seg (nxp ?s1) list (l # m # zs)" using l(1,3,4) z m by auto
  obtain fd where fd: "core_list_find list info ?s1 = Some fd" "\<And>a. fd = Some a \<Longrightarrow> a \<in> set (l # m # zs)" using list_find_ok [OF g] by blast
  define fi where "fi = (if fd = None then Some m else fd)"
  have "\<exists>ws. seg (nxp ?s1) fi ws" unfolding fi_def using seg_from [OF g] fd(2) by (cases fd) auto
  then have "\<exists>v'. crc_walk fi list v ?s1 = Some (Inr v')" for v using crc_walk_ok l(1) by blast
  moreover have n: "nxt_of list s = Inr (Some m)" "nxt_of list ?s1 = Inr (Some m)" using l(1,2) m by (simp_all add: nxt_of_def deref_def)
  moreover have "(if fd = None then nxt_of list ?s1 else Inr fd) = Inr fi" unfolding n(2) fi_def by simp
  ultimately show thesis using that [of r ?s1 fd fi] remove_undo [OF m(1,2)] fd(1) by simp
qed

lemma seg_unique: "seg h p xs \<Longrightarrow> seg h' q xs \<Longrightarrow> p = q \<and> (\<forall>x \<in> set xs. h x = h' x)"
proof (induction xs arbitrary: p q)
  case (Cons x xs)
  then show ?case by (metis seg.simps(2) set_ConsD)
qed simp

lemma clean_unique: "clean s a \<Longrightarrow> clean t a \<Longrightarrow> drop_bit 8 (data16 t a) = drop_bit 8 (data16 s a) \<Longrightarrow> data16 t a = data16 s a"
proof -
  have m: "(0xff :: u16) = mask 8" by (simp add: mask_eq_exp_minus_1)
  have w: "d = e" if "d AND 0xff = e AND 0xff" "drop_bit 8 d = drop_bit 8 e" for d e :: u16
  proof (rule bit_word_eqI)
    fix n
    have "bit (d AND mask 8) n = bit (e AND mask 8) n" "bit (drop_bit 8 d) (n - 8) = bit (drop_bit 8 e) (n - 8)"
      using that unfolding m by simp_all
    then show "bit d n = bit e n" by (cases "n < 8") (auto simp: bit_simps)
  qed
  show "clean s a \<Longrightarrow> clean t a \<Longrightarrow> drop_bit 8 (data16 t a) = drop_bit 8 (data16 s a) \<Longrightarrow> data16 t a = data16 s a"
    by (rule w) (simp_all only: clean_def)
qed

lemma idx_sort_restores:
  assumes lo: "list_of r xs list s" and rdy: "list_ready r xs"
  obtains s' where "core_list_mergesort list (cmp_idx True) s = Some (Inr (rlist r, s'))" "kept r s'" "nxp s' = nxp r" "inf s' = inf r"
    "\<And>x. x \<in> set xs \<Longrightarrow> data16 s' (inf r x) = data16 r (inf r x)"
proof -
  obtain ys where y: "seg (nxp s) list ys" "mset ys = mset xs" and s: "kept r s" "inf s = inf r" "\<forall>a. a \<notin> set xs \<longrightarrow> nxp s a = nxp r a"
    using lo unfolding list_of_def by blast
  have x: "seg (nxp r) (rlist r) xs" "distinct xs" "3 \<le> length xs" "sorted_wrt (\<lambda>x y. sint (idx r (inf r x)) < sint (idx r (inf r y))) xs"
    "\<forall>x \<in> set xs. clean r (inf r x)" using rdy unfolding list_ready_def by blast+
  have d: "distinct ys" "set ys = set xs" "ys \<noteq> []" "length ys = length xs"
    using list_of_distinct [OF lo x(2) y] mset_eq_length [OF y(2)] x(3) by auto
  from idx_sort [OF d(3,1) y(1)] obtain list' zs s' where
    r: "core_list_mergesort list (cmp_idx True) s = Some (Inr (list', s'))" "seg (nxp s') list' zs" "mset zs = mset ys"
      "sorted_wrt (\<lambda>x y. sint (idx s (inf s x)) \<le> sint (idx s (inf s y))) zs" "2 \<le> length ys \<longrightarrow> (\<forall>x \<in> set ys. clean s' (inf s x))"
      "kept s s'" "inf s' = inf s" "\<forall>a. a \<notin> set ys \<longrightarrow> nxp s' a = nxp s a" by blast
  have i: "idx s = idx r" using s(1) by (simp add: kept_def)
  have "zs = xs" by (rule sorted_same [OF _ x(4)]) (use r(3,4) y(2) i s(2) in simp_all)
  then have u: "list' = rlist r" "\<forall>x \<in> set xs. nxp s' x = nxp r x" using seg_unique [OF r(2)] x(1) by auto
  have k: "kept r s'" by (rule kept_trans [OF s(1) r(6)])
  have n: "nxp s' = nxp r" using u(2) r(8) s(3) d(2) by (metis ext)
  have "data16 s' (inf r z) = data16 r (inf r z)" if "z \<in> set xs" for z
    by (rule clean_unique) (use that x(3,5) r(5) d(2,4) s(2) k in \<open>auto simp: kept_def\<close>)
  then show thesis using that [of s'] r(1,7) u(1) s(2) k n by simp
qed

lemma bench_list_ok:
  assumes rdy: "list_ready s xs" and ok: "results_ok s"
  obtains v s' where "core_bench_list fi s = Some (Inr (v, s'))" "kept s s'" "nxp s' = nxp s" "inf s' = inf s"
    "\<And>x. x \<in> set xs \<Longrightarrow> data16 s' (inf s x) = data16 s (inf s x)"
proof -
  have x: "distinct xs" "2 \<le> length xs" "3 \<le> length xs" "seg (nxp s) (rlist s) xs" using rdy unfolding list_ready_def by auto
  let ?b = "\<lparr>blist = rlist s, binfo = (0, fi), bretval = 0, bfound = 0, bmissed = 0\<rparr>"
  have "list_of s xs (blist ?b) s" using x(4) unfolding list_of_def by auto
  from find_values_ok [OF this x(1,2)] obtain b s1 where
    1: "find_values [0..<nat (sint (rseed3 s))] ?b s = Some (Inr (b, s1))" "list_of s xs (blist b) s1" by blast
  obtain list s2 where 2: "(if 0 < sint fi then core_list_mergesort (blist b) cmp_complex s1 else Some (Inr (blist b, s1))) = Some (Inr (list, s2))"
    "list_of s xs list s2" using value_sort_list_of [OF 1(2) x(1,2) ok] 1(2) by (cases "0 < sint fi") auto
  obtain remover s3 fd fi' where 3: "rbind (nxt_of list s2) (\<lambda>n. core_list_remove n s2) = Inr (remover, s3)"
    "core_list_find list (binfo b) s3 = Some fd" "(if fd = None then nxt_of list s3 else Inr fd) = Inr fi'"
    "\<And>v. \<exists>v'. crc_walk fi' list v s3 = Some (Inr v')"
    "rbind (nxt_of list s3) (\<lambda>n. core_list_undo_remove remover n s3) = Inr (remover, s2)" using middle_ok [OF 2(2) x(1,3)] by metis
  obtain s4 where 4: "core_list_mergesort list (cmp_idx True) s2 = Some (Inr (rlist s, s4))" "kept s s4" "nxp s4 = nxp s" "inf s4 = inf s"
    "\<And>x. x \<in> set xs \<Longrightarrow> data16 s4 (inf s x) = data16 s (inf s x)" using idx_sort_restores [OF 2(2) rdy] by metis
  obtain l ys where l: "rlist s = Some l" "xs = l # ys" "seg (nxp s) (nxp s l) ys" using x(2,4) by (cases xs) auto
  have n: "nxt_of (rlist s) s4 = Inr (nxp s l)" by (simp add: nxt_of_def deref_def l(1) 4(3))
  obtain v1 where v1: "crc_walk fi' list (bretval b + (bfound b * 4 - bmissed b)) s3 = Some (Inr v1)" using 3(4) by blast
  obtain v2 where v2: "crc_walk (nxp s l) (rlist s) v1 s4 = Some (Inr v2)" using crc_walk_ok [of s4 "nxp s l" ys l v1] l 4(3) by auto
  have "core_bench_list fi s = Some (Inr (v2, s4))"
    unfolding core_bench_list_def by (simp add: 1(1) 2(1) 3(1-3,5) v1 v2 4(1) n Let_def)
  with 4(2-5) that show thesis by blast
qed

lemma list_ready_cong:
  assumes "list_ready s xs" "nxp t = nxp s" "rlist t = rlist s" "inf t = inf s" "idx t = idx s"
    "\<And>x. x \<in> set xs \<Longrightarrow> data16 t (inf s x) = data16 s (inf s x)"
  shows "list_ready t xs"
  using assms unfolding list_ready_def clean_def by auto

lemma iterate_step_ok:
  assumes "list_ready s xs" "results_ok s"
  obtains s' where "iterate_step i s = Some (Inr s')" "kept s s'" "nxp s' = nxp s" "inf s' = inf s"
    "\<And>x. x \<in> set xs \<Longrightarrow> data16 s' (inf s x) = data16 s (inf s x)"
proof -
  obtain v s1 where 1: "core_bench_list 1 s = Some (Inr (v, s1))" "kept s s1" "nxp s1 = nxp s" "inf s1 = inf s"
    "\<And>x. x \<in> set xs \<Longrightarrow> data16 s1 (inf s x) = data16 s (inf s x)" using bench_list_ok [OF assms] by metis
  let ?s1 = "s1\<lparr>rcrc := crcu16 v (rcrc s1)\<rparr>"
  have k: "kept s ?s1" using 1(2) by simp
  then have "list_ready ?s1 xs" by (intro list_ready_cong [OF assms(1)]) (use 1 in \<open>auto simp: kept_def\<close>)
  from bench_list_ok [OF this results_ok_kept [OF k assms(2)]] obtain w s2 where
    2: "core_bench_list (- 1) ?s1 = Some (Inr (w, s2))" "kept ?s1 s2" "nxp s2 = nxp ?s1" "inf s2 = inf ?s1"
      "\<And>x. x \<in> set xs \<Longrightarrow> data16 s2 (inf ?s1 x) = data16 ?s1 (inf ?s1 x)" by metis
  have k2: "kept s s2" by (rule kept_trans [OF k 2(2)])
  have d: "data16 s2 (inf s x) = data16 s (inf s x)" if "x \<in> set xs" for x using 1(4,5) 2(5) that by simp
  let ?s2 = "s2\<lparr>rcrc := crcu16 w (rcrc s2)\<rparr>"
  let ?s3 = "if i = 0 then ?s2\<lparr>rcrclist := rcrc ?s2\<rparr> else ?s2"
  have "iterate_step i s = Some (Inr ?s3)" using 1(1) 2(1) by (simp add: iterate_step_def Let_def)
  moreover have "kept s ?s3" using k2 by (simp add: kept_def)
  ultimately show thesis using that [of ?s3] 1(3,4) 2(3,4) d by simp
qed

lemma iterate_loop_ok:
  assumes "list_ready s xs" "results_ok s"
  shows "\<exists>s'. iterate_loop is s = Some (Inr s') \<and> list_ready s' xs \<and> kept s s' \<and> nxp s' = nxp s \<and> inf s' = inf s
    \<and> (\<forall>x \<in> set xs. data16 s' (inf s x) = data16 s (inf s x))"
  using assms
proof (induction "is" arbitrary: s)
  case (Cons i "is")
  obtain s1 where 1: "iterate_step i s = Some (Inr s1)" "kept s s1" "nxp s1 = nxp s" "inf s1 = inf s"
    "\<And>x. x \<in> set xs \<Longrightarrow> data16 s1 (inf s x) = data16 s (inf s x)" using iterate_step_ok [OF Cons.prems] by metis
  have "list_ready s1 xs" by (rule list_ready_cong [OF Cons.prems(1)]) (use 1 in \<open>auto simp: kept_def\<close>)
  from Cons.IH [OF this results_ok_kept [OF 1(2) Cons.prems(2)]] obtain s2 where
    "iterate_loop is s1 = Some (Inr s2)" "list_ready s2 xs" "kept s1 s2" "nxp s2 = nxp s1" "inf s2 = inf s1"
      "\<forall>x \<in> set xs. data16 s2 (inf s1 x) = data16 s1 (inf s1 x)" by blast
  with 1 kept_trans [OF 1(2)] show ?case by (intro exI [of _ s2]) simp
qed simp

lemma iterate_ok:
  assumes "list_ready s xs" "results_ok s"
  shows "\<exists>s'. iterate s = Some (Inr s') \<and> list_ready s' xs \<and> kept s s' \<and> nxp s' = nxp s \<and> inf s' = inf s
    \<and> (\<forall>x \<in> set xs. data16 s' (inf s x) = data16 s (inf s x))"
proof -
  let ?s = "s\<lparr>rcrc := 0, rcrclist := 0, rcrcmatrix := 0, rcrcstate := 0\<rparr>"
  have k: "kept s ?s" by (simp add: kept_def)
  have "list_ready ?s xs" by (rule list_ready_cong [OF assms(1)]) simp_all
  from iterate_loop_ok [OF this results_ok_kept [OF k assms(2)], of "[0..<unat (riterations s)]"] kept_trans [OF k]
  show ?thesis unfolding iterate_def by fastforce
qed



section \<open>The list that is built\<close>

text \<open>What only \<open>main\<close> sets.\<close>

definition same_run :: "core \<Rightarrow> core \<Rightarrow> bool" where
  "same_run s t \<longleftrightarrow> rsize t = rsize s \<and> rstate t = rstate s \<and> rseed1 t = rseed1 s \<and> rseed2 t = rseed2 s
     \<and> rseed3 t = rseed3 s \<and> riterations t = riterations s \<and> rexecs t = rexecs s"

definition built :: "core \<Rightarrow> nat \<Rightarrow> core \<Rightarrow> bool" where
  "built r m s \<longleftrightarrow> seg (nxp s) (Some 0) (0 # rev [2..<m] @ [1]) \<and> (\<forall>x < m. inf s x = x)
     \<and> idx s 0 = 0 \<and> idx s 1 = 0x7fff \<and> same_run r s"

lemma insert_built:
  assumes "built r m s" "m + 1 < n" "2 \<le> m"
  shows "\<exists>s'. core_list_insert_new 0 info n (m, m, s) = (Some m, m + 1, m + 1, s') \<and> built r (m + 1) s'"
proof -
  have "[2..<m + 1] = [2..<m] @ [m]" using assms(3) by simp
  moreover have "seg (nxp s) (nxp s 0) (rev [2..<m] @ [1])" using assms(1) by (simp add: built_def)
  ultimately have "seg ((nxp s)(m := nxp s 0, 0 := Some m)) (Some 0) (0 # rev [2..<m + 1] @ [1])" using assms(3) by simp
  then show ?thesis using assms unfolding core_list_insert_new_def built_def same_run_def
    by (simp add: Let_def copy_info_def less_Suc_eq)
qed

lemma insert_full: "n \<le> m + 1 \<Longrightarrow> core_list_insert_new l info n (m, m, s) = (None, m, m, s)"
  by (simp add: core_list_insert_new_def)

lemma insert_items_built:
  assumes "built r 2 s" "3 \<le> n"
  shows "\<exists>s'. insert_items seed 0 n (2, 2, s) = (n - 1, n - 1, s') \<and> built r (n - 1) s'"
proof -
  let ?f = "\<lambda>st i. snd (core_list_insert_new 0 (item_data seed (of_nat i), 0x7fff) n st)"
  have "\<exists>s'. foldl ?f (2, 2, s) [0..<k] = (min (k + 2) (n - 1), min (k + 2) (n - 1), s') \<and> built r (min (k + 2) (n - 1)) s'" for k
  proof (induction k)
    case 0
    have "min 2 (n - 1) = 2" using assms(2) by simp
    with assms(1) show ?case by (simp add: numeral_2_eq_2)
  next
    case (Suc k)
    then obtain s' where s': "foldl ?f (2, 2, s) [0..<k] = (min (k + 2) (n - 1), min (k + 2) (n - 1), s')"
      "built r (min (k + 2) (n - 1)) s'" by blast
    show ?case
    proof (cases "k + 3 < n")
      case True
      then have "min (k + 2) (n - 1) = k + 2" "min (Suc k + 2) (n - 1) = k + 2 + 1" by auto
      with s' insert_built [of r "k + 2" s' n "(item_data seed (of_nat k), 0x7fff)"] True show ?thesis by auto
    next
      case False
      then have "min (k + 2) (n - 1) = n - 1" "min (Suc k + 2) (n - 1) = n - 1" using assms(2) by auto
      with s' insert_full [of n "n - 1"] show ?thesis by auto
    qed
  qed
  moreover have "min (n + 2) (n - 1) = n - 1" by simp
  ultimately show ?thesis unfolding insert_items_def by metis
qed

lemma index_loop_ok:
  assumes "seg (nxp s) p (as @ [z])" "distinct as" "\<And>x. x \<in> set as \<Longrightarrow> inf s x = x"
  shows "\<exists>f. index_loop sz seed p i s = Some (Inr (s\<lparr>idx := f\<rparr>)) \<and> (\<forall>j < length as. f (as ! j) = item_idx sz seed (i + of_nat j))
    \<and> (\<forall>x. x \<notin> set as \<longrightarrow> f x = idx s x)"
  using assms
proof (induction as arbitrary: p i s)
  case Nil
  then show ?case by (intro exI [of _ "idx s"]) (simp add: index_loop.simps)
next
  case (Cons a as)
  let ?s = "s\<lparr>idx := (idx s)(a := item_idx sz seed i)\<rparr>"
  have "seg (nxp ?s) (nxp s a) (as @ [z])" using Cons.prems(1) by simp
  from Cons.IH [OF this, of "i + 1"] Cons.prems(2,3) obtain f where
    f: "index_loop sz seed (nxp s a) (i + 1) ?s = Some (Inr (?s\<lparr>idx := f\<rparr>))"
      "\<forall>j < length as. f (as ! j) = item_idx sz seed (i + 1 + of_nat j)" "\<forall>x. x \<notin> set as \<longrightarrow> f x = idx ?s x" by auto
  have "nxp s a \<noteq> None" using Cons.prems(1) by (cases as) auto
  then have "index_loop sz seed p i s = index_loop sz seed (nxp s a) (i + 1) ?s"
    using Cons.prems by (subst index_loop.simps) auto
  with f Cons.prems(2) show ?case by (intro exI [of _ f]) (auto simp: nth_Cons less_Suc_eq_0_disj algebra_simps)
qed

lemma head_tail_built:
  assumes "3 \<le> n" "s0 = copy_info 0 (0x8080, 0) (s\<lparr>nxp := (nxp s)(0 := None), inf := (inf s)(0 := 0)\<rparr>)"
  shows "\<exists>s'. core_list_insert_new 0 (0xffff, 0x7fff) n (1, 1, s0) = (Some 1, 2, 2, s') \<and> built s 2 s'"
  using assms(1) unfolding assms(2) core_list_insert_new_def built_def same_run_def copy_info_def
  by (simp add: Let_def less_2_cases_iff)

lemma sorted_strict:
  fixes k :: "nat \<Rightarrow> int"
  assumes "sorted_wrt (\<lambda>x y. k x \<le> k y) ys" "distinct ys" "inj_on k (set ys)"
  shows "sorted_wrt (\<lambda>x y. k x < k y) ys"
proof -
  have "sorted (map k ys)" "distinct (map k ys)" using assms by (simp_all add: sorted_wrt_map distinct_map)
  then have "sorted_wrt (<) (map k ys)" by (simp add: strict_sorted_iff)
  then show ?thesis by (simp add: sorted_wrt_map)
qed

text \<open>The indices the items get, from the head of the list to its tail.\<close>

definition item_indices :: "nat \<Rightarrow> u16 \<Rightarrow> int list" where
  "item_indices n seed = 0 # map (\<lambda>j. sint (item_idx (of_nat n) seed (of_nat j))) [1..<n - 2] @ [0x7fff]"

lemma list_init_ok:
  assumes n: "unat blksize div 20 = n + 2" "4 \<le> n" and d: "distinct (item_indices n seed)"
  shows "\<exists>p s' xs. core_list_init blksize seed s = Some (Inr (p, s')) \<and> set xs = {0..<n - 1} \<and> list_ready (s'\<lparr>rlist := p\<rparr>) xs \<and> same_run s s'"
proof -
  define sz where "sz = blksize div 20 - 2"
  have u: "unat (blksize div 20) = n + 2" using n(1) by (simp add: unat_div)
  have sz: "unat sz = n" unfolding sz_def using u by (subst unat_sub) (simp_all add: word_le_nat_alt)
  have big: "\<not> blksize div 20 \<le> 2" using u n(2) by (simp add: word_le_nat_alt)
  have szn: "sz = of_nat n" unfolding sz [symmetric] by simp
  let ?s0 = "copy_info 0 (0x8080, 0) (s\<lparr>nxp := (nxp s)(0 := None), inf := (inf s)(0 := 0)\<rparr>)"
  obtain s1 where s1: "core_list_insert_new 0 (0xffff, 0x7fff) n (1, 1, ?s0) = (Some 1, 2, 2, s1)" "built s 2 s1"
    using head_tail_built [of n ?s0 s] n(2) by auto
  obtain s2 where s2: "insert_items seed 0 n (2, 2, s1) = (n - 1, n - 1, s2)" "built s (n - 1) s2"
    using insert_items_built [OF s1(2), of n seed] n(2) by auto
  let ?as = "rev [2..<n - 1]"
  have sg: "seg (nxp s2) (nxp s2 0) (?as @ [1])" "seg (nxp s2) (Some 0) (0 # ?as @ [1])" using s2(2) by (simp_all add: built_def)
  have i: "inf s2 x = x" if "x < n - 1" for x using s2(2) that by (simp add: built_def)
  have da: "distinct ?as" by simp
  have ia: "inf s2 x = x" if "x \<in> set ?as" for x using i that by auto
  obtain f where f: "index_loop sz seed (nxp s2 0) 1 s2 = Some (Inr (s2\<lparr>idx := f\<rparr>))"
    "\<And>j. j < length ?as \<Longrightarrow> f (?as ! j) = item_idx sz seed (1 + of_nat j)" "\<And>x. x \<notin> set ?as \<Longrightarrow> f x = idx s2 x"
    using index_loop_ok [OF sg(1) da ia, of sz seed 1] by blast
  let ?s3 = "s2\<lparr>idx := f\<rparr>" and ?xs = "0 # ?as @ [1]"
  have sg3: "seg (nxp ?s3) (Some 0) ?xs" and dx: "distinct ?xs" using sg(2) by auto
  obtain p ys s4 where 4: "core_list_mergesort (Some 0) (cmp_idx True) ?s3 = Some (Inr (p, s4))" "seg (nxp s4) p ys" "mset ys = mset ?xs"
    "sorted_wrt (\<lambda>x y. sint (f (inf s2 x)) \<le> sint (f (inf s2 y))) ys" "2 \<le> length ?xs \<longrightarrow> (\<forall>x \<in> set ?xs. clean s4 (inf s2 x))"
    "kept ?s3 s4" "inf s4 = inf s2" using idx_sort [OF _ dx sg3] by auto
  have yx: "set ys = set ?xs" "distinct ys" "length ys = length ?xs"
    using mset_eq_setD [OF 4(3)] mset_eq_imp_distinct_iff [OF 4(3)] mset_eq_length [OF 4(3)] dx by auto
  have "map (\<lambda>x. sint (f x)) ?as = map (\<lambda>j. sint (item_idx (of_nat n) seed (of_nat j))) [1..<n - 2]"
    by (rule nth_equalityI) (use f(2) in \<open>auto simp: szn\<close>)
  moreover have "f 0 = 0" "f 1 = 0x7fff" using f(3) s2(2) by (simp_all add: built_def)
  ultimately have "map (\<lambda>x. sint (f x)) ?xs = item_indices n seed" by (simp add: item_indices_def)
  then have "inj_on (\<lambda>x. sint (f x)) (set ?xs)" using d by (metis distinct_map)
  moreover have fx: "f (inf s2 x) = f x" if "x \<in> set ?xs" for x using i [of x] that n(2) by auto
  ultimately have "inj_on (\<lambda>x. sint (f (inf s2 x))) (set ys)" unfolding yx(1) by (simp add: inj_on_def)
  from sorted_strict [OF 4(4) yx(2) this] have st: "sorted_wrt (\<lambda>x y. sint (f (inf s2 x)) < sint (f (inf s2 y))) ys" .
  have "3 \<le> length ys" using yx(3) n(2) by simp
  then have "list_ready (s4\<lparr>rlist := p\<rparr>) ys"
    using 4(2,5-7) yx st unfolding list_ready_def clean_def by (simp add: kept_def)
  moreover have "set ys = {0..<n - 1}" using yx(1) n(2) by auto
  moreover have "core_list_init blksize seed s = Some (Inr (p, s4))"
    unfolding core_list_init_def using big s1(1) s2(1) f(1) 4(1) by (simp add: Let_def sz sz_def [symmetric])
  moreover have "same_run s s4" using s2(2) 4(6) by (simp add: same_run_def kept_def built_def)
  ultimately show ?thesis by blast
qed

end
