(* ===== verification/CmMain.thy ===== *)
theory CmMain imports CmBench begin

text \<open>
  \<open>am-kernels/benchmarks/coremark/src/core_main.c\<close> and \<open>core_portme.c\<close>: seeds, the division of the static
  block among the algorithms, their initialisation, the runs and the check of the results.  The
  readings of the timer are a function of their number; what is printed is left out.
\<close>

unbundle bit_operations_syntax

section \<open>Time\<close>

definition uptime_ms :: "u64 \<Rightarrow> u32" where
  "uptime_ms us = ucast (us div 1000)"

definition cm_get_time :: "u32 \<Rightarrow> u32 \<Rightarrow> u32" where
  "cm_get_time start_time_val stop_time_val = stop_time_val - start_time_val"

definition time_in_secs :: "u32 \<Rightarrow> u32" where
  "time_in_secs ticks = ticks"

text \<open>The time between the readings \<open>k\<close> and \<open>k + 1\<close>.\<close>

definition run_time :: "(nat \<Rightarrow> u64) \<Rightarrow> nat \<Rightarrow> u32" where
  "run_time clock k = cm_get_time (uptime_ms (clock k)) (uptime_ms (clock (k + 1)))"

section \<open>Initialisation\<close>

definition read_seeds :: "u32 list \<Rightarrow> core \<Rightarrow> core" where
  "read_seeds volatile s =
     s\<lparr>rseed1 := ucast (get_seed_32 volatile 1), rseed2 := ucast (get_seed_32 volatile 2), rseed3 := ucast (get_seed_32 volatile 3),
       riterations := get_seed_32 volatile 4, rexecs := (if get_seed_32 volatile 5 = 0 then 7 else get_seed_32 volatile 5)\<rparr>"

definition default_seeds :: "core \<Rightarrow> core" where
  "default_seeds s =
     (let s = (if rseed1 s = 0 \<and> rseed2 s = 0 \<and> rseed3 s = 0 then s\<lparr>rseed1 := 0, rseed2 := 0, rseed3 := 0x66\<rparr> else s)
      in if rseed1 s = 1 \<and> rseed2 s = 0 \<and> rseed3 s = 0 then s\<lparr>rseed1 := 0x3415, rseed2 := 0x3415, rseed3 := 0x66\<rparr> else s)"

definition num_algorithms :: "u32 \<Rightarrow> nat" where
  "num_algorithms execs = foldl (\<lambda>k i. if push_bit i 1 AND execs \<noteq> 0 then k + 1 else k) 0 [0..<3]"

text \<open>The blocks of the algorithms follow one another; that of one not selected is never set.\<close>

fun memblocks :: "nat list \<Rightarrow> u32 \<Rightarrow> u32 \<Rightarrow> u32 \<Rightarrow> u32 \<Rightarrow> u32 option list" where
  "memblocks [] base sz execs j = []"
| "memblocks (i # is) base sz execs j =
     (if push_bit i 1 AND execs \<noteq> 0 then Some (base + sz * j) # memblocks is base sz execs (j + 1)
      else None # memblocks is base sz execs j)"

text \<open>The size of a block, and the bytes of the one of the state machine, which are static data and zero.\<close>

definition divide_memory :: "u32 \<Rightarrow> core \<Rightarrow> abort + core" where
  "divide_memory total_data_size s =
     (let n = num_algorithms (rexecs s); sz = total_data_size div of_nat n
      in if n = 0 then Inl ArithTrap
         else Inr (s\<lparr>rerr := 0, rsize := sz, rstate := (if bit (rexecs s) 2 then replicate (unat sz) 0 else [])\<rparr>))"

definition call_inits :: "u32 \<Rightarrow> core \<Rightarrow> (abort + core) option" where
  "call_inits base s =
     (let ID_LIST = 1; ID_MATRIX = 2; ID_STATE = 4; blocks = memblocks [0..<3] base (rsize s) (rexecs s) 0
      in lbind (if rexecs s AND ID_LIST \<noteq> 0
                then lbind (core_list_init (rsize s) (rseed1 s) s) (\<lambda>(p, s). Some (Inr (s\<lparr>rlist := p\<rparr>)))
                else Some (Inr s)) (\<lambda>s.
         lbind (if rexecs s AND ID_MATRIX \<noteq> 0
                then map_option (\<lambda>(_, m). Inr (s\<lparr>rmat := m\<rparr>))
                       (core_init_matrix (rsize s) (the (blocks ! 1)) (scast (rseed1 s) OR push_bit 16 (scast (rseed2 s))) (rmat s))
                else Some (Inr s)) (\<lambda>s.
         if rexecs s AND ID_STATE \<noteq> 0
         then lbind (core_init_state (rsize s) (rseed1 s) (rstate s)) (\<lambda>blk. Some (Inr (s\<lparr>rstate := blk\<rparr>)))
         else Some (Inr s))))"

section \<open>The number of iterations\<close>

partial_function (option) calibrate :: "(nat \<Rightarrow> u64) \<Rightarrow> nat \<Rightarrow> core \<Rightarrow> (abort + nat \<times> u32 \<times> core) option" where
  "calibrate clock k s =
     Option.bind (iterate (s\<lparr>riterations := riterations s * 10\<rparr>)) (\<lambda>r.
       case r of Inl e \<Rightarrow> Some (Inl e)
       | Inr s \<Rightarrow> if time_in_secs (run_time clock k) < 1 then calibrate clock (k + 2) s
                  else Some (Inr (k + 2, time_in_secs (run_time clock k), s)))"

definition find_iterations :: "(nat \<Rightarrow> u64) \<Rightarrow> core \<Rightarrow> (abort + nat \<times> core) option" where
  "find_iterations clock s =
     (if riterations s = 0
      then lbind (calibrate clock 0 (s\<lparr>riterations := 1\<rparr>)) (\<lambda>(k, secs_passed, s).
             let divisor = (if secs_passed = 0 then 1 else secs_passed)
             in Some (Inr (k, s\<lparr>riterations := riterations s * (1 + 10 div divisor)\<rparr>)))
      else Some (Inr (0, s)))"

section \<open>The check of the results\<close>

definition list_known_crc :: "u16 list" where
  "list_known_crc = [0xd4b0, 0x3340, 0x6a79, 0xe714, 0xe3c1]"

definition matrix_known_crc :: "u16 list" where
  "matrix_known_crc = [0xbe52, 0x1199, 0x5608, 0x1fd7, 0x0747]"

definition state_known_crc :: "u16 list" where
  "state_known_crc = [0x5e47, 0x39bf, 0xe5a4, 0x8e3a, 0x8d84]"

definition seedcrc :: "core \<Rightarrow> u16" where
  "seedcrc s = crc16 (ucast (rsize s)) (crc16 (rseed3 s) (crc16 (rseed2 s) (crc16 (rseed1 s) 0)))"

definition known_id :: "u16 \<Rightarrow> nat option" where
  "known_id c =
     (if c = 0x8a02 then Some 0 else if c = 0x7b05 then Some 1 else if c = 0x4eaf then Some 2
      else if c = 0xe9f5 then Some 3 else if c = 0x18f2 then Some 4 else None)"

definition count_errors :: "nat \<Rightarrow> core \<Rightarrow> u16" where
  "count_errors i s =
     of_bool (rexecs s AND 1 \<noteq> 0 \<and> rcrclist s \<noteq> list_known_crc ! i)
     + of_bool (rexecs s AND 2 \<noteq> 0 \<and> rcrcmatrix s \<noteq> matrix_known_crc ! i)
     + of_bool (rexecs s AND 4 \<noteq> 0 \<and> rcrcstate s \<noteq> state_known_crc ! i)"

text \<open>\<open>total_errors\<close>, given the errors of \<open>check_data_types\<close>.\<close>

definition check_results :: "u8 \<Rightarrow> core \<Rightarrow> u16 \<times> core" where
  "check_results type_errors s =
     (let (total_errors, s) = (case known_id (seedcrc s) of None \<Rightarrow> (- 1, s)
                               | Some i \<Rightarrow> (count_errors i s, s\<lparr>rerr := count_errors i s\<rparr>))
      in (total_errors + ucast type_errors, s))"

section \<open>Main\<close>

definition core_main :: "u32 list \<Rightarrow> u32 \<Rightarrow> u32 \<Rightarrow> u8 \<Rightarrow> (nat \<Rightarrow> u64) \<Rightarrow> core \<Rightarrow> (abort + u16 \<times> u32 \<times> core) option" where
  "core_main volatile total_data_size base type_errors clock s =
     lbind (Some (divide_memory total_data_size (default_seeds (read_seeds volatile s)))) (\<lambda>s.
     lbind (call_inits base s) (\<lambda>s.
     lbind (find_iterations clock s) (\<lambda>(k, s).
     lbind (iterate s) (\<lambda>s.
       let total_time = run_time clock k; (total_errors, s) = check_results type_errors s
       in Some (Inr (total_errors, total_time, s))))))"

section \<open>The benchmark runs\<close>

lemma list_ready_simps [simp]:
  "list_ready (s\<lparr>riterations := v\<rparr>) xs = list_ready s xs" "results_ok (s\<lparr>riterations := v\<rparr>) = results_ok s"
  "list_ready (s\<lparr>rerr := w\<rparr>) xs = list_ready s xs" "list_ready (s\<lparr>rmat := m\<rparr>) xs = list_ready s xs"
  "list_ready (s\<lparr>rstate := b\<rparr>) xs = list_ready s xs"
  by (simp_all add: list_ready_def results_ok_def clean_def)

lemma iterate_ready:
  assumes "list_ready s xs" "results_ok s"
  obtains s' where "iterate s = Some (Inr s')" "list_ready s' xs" "results_ok s'"
  using iterate_ok [OF assms] results_ok_kept [OF _ assms(2)] by blast

lemma calibrate_ok:
  assumes "1 \<le> run_time clock (2 * K)" "list_ready s xs" "results_ok s"
  shows "j \<le> K \<Longrightarrow> \<exists>k t s'. calibrate clock (2 * j) s = Some (Inr (k, t, s')) \<and> list_ready s' xs \<and> results_ok s'"
  using assms(2,3)
proof (induction "K - j" arbitrary: j s)
  case 0
  then have "j = K" by simp
  then have "\<not> time_in_secs (run_time clock (2 * j)) < 1" using assms(1) unfolding time_in_secs_def by (simp only: not_less)
  moreover obtain s' where "iterate (s\<lparr>riterations := riterations s * 10\<rparr>) = Some (Inr s')" "list_ready s' xs" "results_ok s'"
    using iterate_ready 0(3,4) by (metis list_ready_simps(1,2))
  ultimately show ?case by (subst calibrate.simps) auto
next
  case (Suc d)
  obtain s' where s': "iterate (s\<lparr>riterations := riterations s * 10\<rparr>) = Some (Inr s')" "list_ready s' xs" "results_ok s'"
    using iterate_ready Suc.prems(2,3) by (metis list_ready_simps(1,2))
  have "d = K - Suc j" "Suc j \<le> K" using Suc.hyps(2) by auto
  from Suc.hyps(1) [OF this s'(2,3)] obtain k t s'' where
    "calibrate clock (2 * Suc j) s' = Some (Inr (k, t, s''))" "list_ready s'' xs" "results_ok s''" by blast
  moreover have "2 * Suc j = 2 * j + 2" by simp
  ultimately show ?case using s' by (subst calibrate.simps) (cases "time_in_secs (run_time clock (2 * j)) < 1"; simp)
qed

lemma find_iterations_ok:
  assumes "riterations s \<noteq> 0 \<or> (\<exists>k. 1 \<le> run_time clock (2 * k))" "list_ready s xs" "results_ok s"
  obtains k s' where "find_iterations clock s = Some (Inr (k, s'))" "list_ready s' xs" "results_ok s'"
proof (cases "riterations s = 0")
  case True
  then obtain K where "1 \<le> run_time clock (2 * K)" using assms(1) by blast
  from calibrate_ok [OF this, of "s\<lparr>riterations := 1\<rparr>" xs 0] assms(2,3) obtain k t s' where
    "calibrate clock 0 (s\<lparr>riterations := 1\<rparr>) = Some (Inr (k, t, s'))" "list_ready s' xs" "results_ok s'" by auto
  with True that show thesis by (simp add: find_iterations_def Let_def)
next
  case False
  with assms(2,3) that show thesis by (simp add: find_iterations_def)
qed

lemma call_inits_ok:
  assumes n: "unat (rsize s) div 20 = n + 2" "4 \<le> n" "unat (rsize s) \<le> 2 ^ 31" and d: "distinct (item_indices n (rseed1 s))"
    and p: "\<forall>b \<in> insert 0 pattern_bytes. b XOR ucast (rseed1 s) \<noteq> 44" "rseed2 s = rseed1 s"
    and e: "rexecs s = 7" "rstate s = replicate (unat (rsize s)) 0"
  obtains s' xs where "call_inits base s = Some (Inr s')" "list_ready s' xs" "results_ok s'" "set xs = {0..<n - 1}" "riterations s' = riterations s"
proof -
  obtain p0 s1 xs where 1: "core_list_init (rsize s) (rseed1 s) s = Some (Inr (p0, s1))" "set xs = {0..<n - 1}"
    "list_ready (s1\<lparr>rlist := p0\<rparr>) xs" "same_run s s1" using list_init_ok [OF n(1,2) d] by blast
  have big: "80 \<le> unat (rsize s)" using n(1,2) by linarith
  have "0 < rsize s" using big by (simp add: word_less_nat_alt)
  then obtain N m where m: "core_init_matrix (rsize s) (the (memblocks [0..<3] base (rsize s) 7 0 ! 1))
    (scast (rseed1 s) OR push_bit 16 (scast (rseed2 s))) (rmat s1) = Some (N, m)" using init_matrix_dim n(3) by metis
  obtain ys where y: "core_init_state (rsize s) (rseed1 s) (rstate s) = Some (Inr ys)" "length ys = length (rstate s)"
    "ys ! (length ys - 1) = 0" "ys ! (length ys - 2) = 0" "set ys \<subseteq> insert 0 (insert 44 pattern_bytes)"
    using init_state_ok [of "rstate s" "rsize s" "rseed1 s"] e(2) big n(3) by auto
  let ?s = "s1\<lparr>rlist := p0, rmat := m, rstate := ys\<rparr>"
  have r: "rsize s1 = rsize s" "rstate s1 = rstate s" "rseed1 s1 = rseed1 s" "rseed2 s1 = rseed1 s" "rexecs s1 = 7" "riterations s1 = riterations s"
    using 1(4) p(2) e(1) by (simp_all add: same_run_def)
  have "call_inits base s = Some (Inr ?s)" using 1(1) m y(1) e(1) r p(2) by (simp add: call_inits_def Let_def)
  moreover have "x XOR ucast (rseed1 s) \<noteq> 44" if "x \<in> set ys" "x \<noteq> 44" for x using that y(5) p(1) by blast
  then have "results_ok ?s" using y e(2) big r by (auto simp: results_ok_def)
  ultimately show thesis using that [of ?s xs] 1(2,3) r(6) by simp
qed



end
