(* ===== verification/MbUtil.thy ===== *)
theory MbUtil imports KlibStdlib begin

text \<open>
  \<open>am-kernels/benchmarks/microbench/src/bench.c\<close>: the allocator, the random numbers and the checksum
  that the benchmarks use, and the loop that runs and scores them.
\<close>

unbundle bit_operations_syntax

section \<open>Libraries\<close>

text \<open>The heap, the limit of the setting and \<open>hbrk\<close>; memory is a function of the address.\<close>

record bench_heap =
  heap_start :: u32
  heap_end :: u32
  mlim :: u32
  hbrk :: u32
  bmem :: "u32 \<Rightarrow> u8"

definition bench_reset :: "bench_heap \<Rightarrow> bench_heap" where
  "bench_reset s = s\<lparr>hbrk := ROUNDUP (heap_start s) 8\<rparr>"

partial_function (option) zero_loop :: "u32 \<Rightarrow> u32 \<Rightarrow> (u32 \<Rightarrow> u8) \<Rightarrow> (u32 \<Rightarrow> u8) option" where
  "zero_loop p e m = (if p = e then Some m else zero_loop (p + 8) e (\<lambda>a. if a - p < 8 then 0 else m a))"

definition bench_alloc :: "u32 \<Rightarrow> bench_heap \<Rightarrow> (abort + u32 \<times> bench_heap) option" where
  "bench_alloc sz s =
     (let sz = ROUNDUP sz 8; old = hbrk s; s = s\<lparr>hbrk := hbrk s + sz\<rparr>
      in if \<not> (heap_start s \<le> hbrk s \<and> hbrk s < heap_end s) then Some (Inl AssertFail)
         else Option.bind (zero_loop old (hbrk s) (bmem s)) (\<lambda>m.
                if \<not> hbrk s - heap_start s \<le> mlim s then Some (Inl AssertFail) else Some (Inr (old, s\<lparr>bmem := m\<rparr>))))"

definition bench_srand :: "u32 \<Rightarrow> u32" where
  "bench_srand seed = seed AND 0x7fff"

text \<open>The number and the new seed.\<close>

definition bench_rand :: "u32 \<Rightarrow> u32 \<times> u32" where
  "bench_rand seed = (let seed = seed * 214013 + 2531011 in (drop_bit 16 seed AND 0x7fff, seed))"

definition hash_byte :: "u32 \<Rightarrow> u8 \<Rightarrow> u32" where
  "hash_byte h b = (h XOR ucast b) * 16777619"

text \<open>The loop over words stops at the last one that ends before the end.\<close>

fun hash_words :: "u8 list \<Rightarrow> u32 \<Rightarrow> u32" where
  "hash_words (a # b # c # d # e # bs) h = hash_words (e # bs) (foldl hash_byte h [a, b, c, d])"
| "hash_words bs h = h"

definition checksum :: "u8 list \<Rightarrow> u32" where
  "checksum bs =
     (let hash = hash_words bs 2166136261;
          hash = hash + push_bit 13 hash;
          hash = hash XOR signed_drop_bit 7 hash;
          hash = hash + push_bit 3 hash;
          hash = hash XOR signed_drop_bit 17 hash
      in hash + push_bit 5 hash)"

text \<open>The bytes of an array of words, lowest first.\<close>

definition bytes_of_word :: "u32 \<Rightarrow> u8 list" where
  "bytes_of_word w = [ucast w, ucast (drop_bit 8 w), ucast (drop_bit 16 w), ucast (drop_bit 24 w)]"

section \<open>Running the benchmarks\<close>

record setting =
  ssize :: u32
  smlim :: u32
  sref :: u32
  schecksum :: u32

definition setting_id :: "string \<Rightarrow> nat option" where
  "setting_id name =
     (let name = (if name = [] then ''ref'' else name)
      in if name = ''test'' then Some 0 else if name = ''train'' then Some 1 else if name = ''ref'' then Some 2
         else if name = ''huge'' then Some 3 else None)"

text \<open>\<open>bench_check\<close> is \<open>NULL\<close>.\<close>

definition bench_check :: "u32 \<Rightarrow> u32 \<Rightarrow> setting \<Rightarrow> bool" where
  "bench_check start stop st \<longleftrightarrow> \<not> stop - start < smlim st"

definition score :: "setting \<Rightarrow> u64 \<Rightarrow> u32" where
  "score st usec = (if usec = 0 then 0 else ucast (100000 * ucast (sref st) div usec))"

text \<open>The loop of \<open>main\<close> over the benchmarks, each its setting and what running it gives: \<open>pass\<close> and the
  time.  It returns \<open>pass\<close>, \<open>bench_score\<close> and \<open>score_time\<close>.\<close>

fun bench_loop :: "u32 \<Rightarrow> u32 \<Rightarrow> (setting \<times> bool \<times> u64) list \<Rightarrow> bool \<times> u32 \<times> u64 \<Rightarrow> bool \<times> u32 \<times> u64" where
  "bench_loop start stop [] st = st"
| "bench_loop start stop ((setting, res_pass, res_usec) # bs) (pass, bench_score, score_time) =
     bench_loop start stop bs
       (if bench_check start stop setting then
          let usec = (- 1 :: u64); succ = res_pass; usec = (if res_usec < usec then res_usec else usec);
              cur = (if succ then score setting usec else 0)
          in (pass \<and> succ, bench_score + cur, score_time + res_usec)
        else (pass, bench_score, score_time))"

definition bench_main :: "u32 \<Rightarrow> u32 \<Rightarrow> (setting \<times> bool \<times> u64) list \<Rightarrow> u32 \<times> u32 \<times> u64" where
  "bench_main start stop bs =
     (let (pass, bench_score, score_time) = bench_loop start stop bs (True, 0, 0)
      in (if pass then 0 else 1, bench_score div of_nat (length bs), score_time))"

section \<open>The allocator\<close>

lemma zero_loop_ok:
  assumes "unat p + 8 * n < 2 ^ 32"
  shows "zero_loop p (p + of_nat (8 * n)) m = Some (\<lambda>a. if unat p \<le> unat a \<and> unat a < unat p + 8 * n then 0 else m a)"
  using assms
proof (induction n arbitrary: p m)
  case 0
  then show ?case by (subst zero_loop.simps) (auto simp: fun_eq_iff)
next
  case (Suc n)
  have p8: "unat (p + 8) = unat p + 8" using Suc.prems by (simp add: unat_plus_if')
  have e: "p + of_nat (8 * Suc n) = (p + 8) + of_nat (8 * n)" by simp
  have "unat (of_nat k :: u32) = k" if "k < 2 ^ 32" for k using that by (simp add: unat_of_nat)
  from this [of "8 * Suc n"] have "unat (of_nat (8 * Suc n) :: u32) = 8 * Suc n" using Suc.prems by simp
  then have ne: "p \<noteq> p + of_nat (8 * Suc n)" by (metis add_cancel_right_right mult_is_0 nat.distinct(1) unat_0 zero_neq_numeral)
  have in8: "a - p < 8 \<longleftrightarrow> unat p \<le> unat a \<and> unat a < unat p + 8" for a
    using Suc.prems by (auto simp: word_less_nat_alt unat_sub_if')
  have "zero_loop p (p + of_nat (8 * Suc n)) m = zero_loop (p + 8) ((p + 8) + of_nat (8 * n)) (\<lambda>a. if a - p < 8 then 0 else m a)"
    using ne unfolding e by (subst zero_loop.simps) simp
  then show ?case using Suc.IH [of "p + 8" "\<lambda>a. if a - p < 8 then 0 else m a"] Suc.prems unfolding p8 in8
    by (auto simp: fun_eq_iff)
qed

text \<open>\<open>bench_alloc\<close> of a size that fits below the end of the heap and the limit of the setting returns: the
  block is what lies between the old and the new break, aligned to 8 bytes and at least as long as asked for;
  all of it is zero, and no byte outside it, hence none of an earlier block, has changed.\<close>

theorem bench_alloc_spec:
  assumes "unat sz + 8 \<le> 2 ^ 32" "heap_start s \<le> hbrk s" "unat (hbrk s) + (unat sz + 7) < unat (heap_end s)"
    "unat (hbrk s) + (unat sz + 7) - unat (heap_start s) \<le> unat (mlim s)"
  shows "\<exists>s'. bench_alloc sz s = Some (Inr (hbrk s, s')) \<and> unat (hbrk s) + unat sz \<le> unat (hbrk s')
    \<and> (unat (hbrk s) mod 8 = 0 \<longrightarrow> unat (hbrk s') mod 8 = 0) \<and> heap_start s' = heap_start s \<and> heap_end s' = heap_end s
    \<and> (\<forall>a. bmem s' a = (if hbrk s \<le> a \<and> a < hbrk s' then 0 else bmem s a))"
proof -
  define n where "n = (unat sz + 7) div 8"
  let ?n = n and ?b = "hbrk s"
  define nb where "nb = ?b + ROUNDUP sz 8"
  have r: "unat (ROUNDUP sz 8) = 8 * ?n" using ROUNDUP_8 [OF assms(1)] by (simp add: n_def)
  have le: "unat sz \<le> 8 * ?n" "8 * ?n \<le> unat sz + 7" unfolding n_def by presburger+
  have e: "unat (heap_end s) < 2 ^ 32" using unsigned_less [of "heap_end s", where ?'a = nat] by simp
  then have nb: "unat nb = unat ?b + 8 * ?n" using r le assms(3) by (simp add: nb_def unat_plus_if')
  have "ROUNDUP sz 8 = of_nat (8 * ?n)" using r by (metis of_nat_unat ucast_id)
  then have z: "zero_loop ?b nb (bmem s) = Some (\<lambda>a. if unat ?b \<le> unat a \<and> unat a < unat nb then 0 else bmem s a)"
    using zero_loop_ok [of ?b n "bmem s"] le assms(3) e unfolding nb unfolding nb_def by simp
  have "heap_start s \<le> nb \<and> nb < heap_end s" "nb - heap_start s \<le> mlim s"
    using assms(2-4) nb le by (auto simp: word_le_nat_alt word_less_nat_alt unat_sub)
  then have "bench_alloc sz s = Some (Inr (?b, s\<lparr>hbrk := nb, bmem := \<lambda>a. if unat ?b \<le> unat a \<and> unat a < unat nb then 0 else bmem s a\<rparr>))"
    using z by (simp add: bench_alloc_def Let_def nb_def [symmetric])
  then show ?thesis using nb le by (auto simp: word_le_nat_alt word_less_nat_alt)
qed

section \<open>The checksum\<close>

lemma hash_words_short: "length bs \<le> 4 \<Longrightarrow> hash_words bs h = h"
  by (rule hash_words.cases [of "(bs, h)"]) auto

lemma hash_words_prefix: "length xs = 4 * n \<Longrightarrow> length ys \<le> 4 \<Longrightarrow> length zs \<le> 4 \<Longrightarrow> ys \<noteq> [] \<Longrightarrow> zs \<noteq> []
    \<Longrightarrow> hash_words (xs @ ys) h = hash_words (xs @ zs) h"
proof (induction n arbitrary: xs h)
  case 0
  then show ?case by (simp add: hash_words_short)
next
  case (Suc n)
  then obtain a b c d xs' where xs: "xs = a # b # c # d # xs'" "length xs' = 4 * n"
    by (auto simp: length_Suc_conv numeral_eq_Suc)
  have s: "hash_words (a # b # c # d # us) h = hash_words us (foldl hash_byte h [a, b, c, d])" if "us \<noteq> []" for us
    using that by (cases us) simp_all
  show ?case using Suc.IH [OF xs(2) Suc.prems(2-5)] Suc.prems(4,5) by (simp add: xs(1) s)
qed

text \<open>The checksum does not depend on the last word: the bytes of its last one to four are never hashed, so
  that an array of words that is wrong in its last element passes the validation.\<close>

theorem checksum_blind:
  assumes "length xs mod 4 = 0" "ys \<noteq> []" "length ys \<le> 4" "zs \<noteq> []" "length zs \<le> 4"
  shows "checksum (xs @ ys) = checksum (xs @ zs)"
proof -
  have "length xs = 4 * (length xs div 4)" using mult_div_mod_eq [of 4 "length xs"] assms(1) by linarith
  then have "hash_words (xs @ ys) h = hash_words (xs @ zs) h" for h using assms(2-5) by (intro hash_words_prefix)
  then show ?thesis unfolding checksum_def by (rule arg_cong)
qed

theorem checksum_blind_witness: "checksum [1, 2, 3, 4, 5, 6, 7, 8] = checksum [1, 2, 3, 4, 9, 9, 9, 9]"
  using checksum_blind [of "[1, 2, 3, 4]" "[5, 6, 7, 8]" "[9, 9, 9, 9]"] by simp

definition sample_heap :: bench_heap where
  "sample_heap = \<lparr>heap_start = 0x1000, heap_end = 0x9000, mlim = 0x8000, hbrk = 0x1008, bmem = \<lambda>_. 7\<rparr>"

theorem bench_alloc_spec_witness:
  "\<exists>s'. bench_alloc 13 sample_heap = Some (Inr (0x1008, s')) \<and> bmem s' 0x1010 = 0 \<and> bmem s' 0x1000 = 7"
proof -
  obtain s' where s': "bench_alloc 13 sample_heap = Some (Inr (0x1008, s'))" "0x1008 + 13 \<le> unat (hbrk s')"
    "\<forall>a. bmem s' a = (if 0x1008 \<le> a \<and> a < hbrk s' then 0 else 7)"
    using bench_alloc_spec [of 13 sample_heap] by (auto simp: sample_heap_def)
  then have "(0x1010 :: u32) < hbrk s'" by (simp add: word_less_nat_alt)
  then show ?thesis using s'(1,3) by auto
qed

end
