(* ===== verification/MbQsort.thy ===== *)
theory MbQsort imports Prelude "HOL-Library.Multiset" begin

text \<open>
  \<open>am-kernels/benchmarks/microbench/src/qsort/qsort.c\<close>: quick sort of an array of \<open>int\<close>, which is the
  list of its words.
\<close>

section \<open>The functions\<close>

definition swap :: "nat \<Rightarrow> nat \<Rightarrow> u32 list \<Rightarrow> abort + u32 list" where
  "swap i j a = (if i < length a \<and> j < length a then Inr (a[i := a ! j, j := a ! i]) else Inl OutOfBounds)"

text \<open>The loop that moves the elements below \<open>p\<close> to the front, from \<open>j\<close> on; it returns the last place
  of the front.\<close>

function partition_loop :: "u32 \<Rightarrow> nat \<Rightarrow> nat \<Rightarrow> nat \<Rightarrow> u32 list \<Rightarrow> abort + nat \<times> u32 list" where
  "partition_loop p r j pivot a =
     (if j < r then
        if length a \<le> j then Inl OutOfBounds
        else if sint (a ! j) < sint p then rbind (swap (pivot + 1) j a) (partition_loop p r (j + 1) (pivot + 1))
        else partition_loop p r (j + 1) pivot a
      else Inr (pivot, a))"
  by pat_completeness auto

termination
  by (relation "measure (\<lambda>(_, r, j, _). r - j)") auto

declare partition_loop.simps [simp del]

lemma partition_loop_pivot:
  "partition_loop p r j pivot a = Inr (pivot', a') \<Longrightarrow> pivot \<le> pivot' \<and> pivot' \<le> pivot + (r - j)"
proof (induction p r j pivot a rule: partition_loop.induct)
  case (1 p r j pivot a)
  show ?case
  proof (cases "j < r \<and> \<not> length a \<le> j")
    case True
    show ?thesis
    proof (cases "sint (a ! j) < sint p")
      case lt: True
      with True 1(3) obtain b where "swap (pivot + 1) j a = Inr b" "partition_loop p r (j + 1) (pivot + 1) b = Inr (pivot', a')"
        by (subst (asm) partition_loop.simps) (auto simp: rbind_Inr_iff)
      with 1(1) True lt show ?thesis by fastforce
    next
      case False
      with True 1(3) have "partition_loop p r (j + 1) pivot a = Inr (pivot', a')" by (subst (asm) partition_loop.simps) simp
      with 1(2) True False show ?thesis by fastforce
    qed
  next
    case False
    with 1(3) show ?thesis by (subst (asm) partition_loop.simps) (auto split: if_splits)
  qed
qed

function myqsort :: "u32 list \<Rightarrow> nat \<Rightarrow> nat \<Rightarrow> abort + u32 list" where
  "myqsort a l r =
     (if l < r then
        if length a \<le> l then Inl OutOfBounds
        else (case partition_loop (a ! l) r (l + 1) l a of Inl e \<Rightarrow> Inl e
              | Inr (pivot, a) \<Rightarrow>
                  (case swap pivot l a of Inl e \<Rightarrow> Inl e
                   | Inr a \<Rightarrow> (case myqsort a l pivot of Inl e \<Rightarrow> Inl e | Inr a \<Rightarrow> myqsort a (pivot + 1) r)))
      else Inr a)"
  by pat_completeness auto

termination
  by (relation "measure (\<lambda>(_, l, r). r - l)") (auto dest!: partition_loop_pivot)

declare myqsort.simps [simp del]

section \<open>It sorts\<close>

definition part :: "nat \<Rightarrow> nat \<Rightarrow> 'a list \<Rightarrow> 'a list" where
  "part l r a = take (r - l) (drop l a)"

text \<open>\<open>b\<close> is \<open>a\<close> with the elements from \<open>l\<close> up to \<open>r\<close> in another order.\<close>

definition perm_in :: "nat \<Rightarrow> nat \<Rightarrow> 'a list \<Rightarrow> 'a list \<Rightarrow> bool" where
  "perm_in l r a b \<longleftrightarrow> length b = length a \<and> mset b = mset a \<and> (\<forall>k. k < l \<or> r \<le> k \<longrightarrow> b ! k = a ! k)"

definition sorted_in :: "nat \<Rightarrow> nat \<Rightarrow> u32 list \<Rightarrow> bool" where
  "sorted_in l r a \<longleftrightarrow> (\<forall>i j. l \<le> i \<and> i < j \<and> j < r \<longrightarrow> sint (a ! i) \<le> sint (a ! j))"

lemma perm_in_refl [simp]: "perm_in l r a a"
  by (simp add: perm_in_def)

lemma perm_in_trans: "perm_in l r a b \<Longrightarrow> perm_in l r b c \<Longrightarrow> perm_in l r a c"
  by (simp add: perm_in_def)

lemma perm_in_mono: "perm_in l' r' a b \<Longrightarrow> l \<le> l' \<Longrightarrow> r' \<le> r \<Longrightarrow> perm_in l r a b"
  by (auto simp: perm_in_def)

lemma perm_in_part:
  assumes "perm_in l r a b" "l \<le> r" "r \<le> length a"
  shows "take l b = take l a" "drop r b = drop r a" "mset (part l r b) = mset (part l r a)"
proof -
  have s: "mset c = mset (take l c) + mset (part l r c) + mset (drop r c)" for c :: "'a list"
  proof -
    have "take r c = take l c @ part l r c" using assms(2) take_add [of l "r - l" c] by (simp add: part_def)
    then have "c = take l c @ part l r c @ drop r c" by (metis append.assoc append_take_drop_id)
    then show ?thesis by (metis mset_append add.assoc)
  qed
  have o: "take l b = take l a" "drop r b = drop r a"
    using assms unfolding perm_in_def by (auto intro!: nth_equalityI)
  then show "take l b = take l a" "drop r b = drop r a" by simp_all
  show "mset (part l r b) = mset (part l r a)" using s [of a] s [of b] assms(1) o by (simp add: perm_in_def)
qed

lemma perm_in_elem:
  assumes "perm_in l r a b" "l \<le> k" "k < r" "r \<le> length a"
  shows "\<exists>k'. l \<le> k' \<and> k' < r \<and> b ! k = a ! k'"
proof -
  have "mset (part l r b) = mset (part l r a)" using perm_in_part(3) [OF assms(1)] assms(2-4) by simp
  then have "set (part l r b) = set (part l r a)" by (rule mset_eq_setD)
  moreover have "b ! k \<in> set (part l r b)" unfolding part_def in_set_conv_nth
    using assms by (intro exI [of _ "k - l"]) (auto simp: perm_in_def)
  ultimately obtain i where "i < length (part l r a)" "part l r a ! i = b ! k" by (metis in_set_conv_nth)
  then show ?thesis using assms by (intro exI [of _ "l + i"]) (auto simp: part_def)
qed

lemma swap_ok:
  assumes "l \<le> i" "l \<le> j" "i < r" "j < r" "r \<le> length a"
  shows "swap i j a = Inr (a[i := a ! j, j := a ! i])" "perm_in l r a (a[i := a ! j, j := a ! i])"
  using assms mset_swap [of j a i] by (auto simp: swap_def perm_in_def nth_list_update)

lemma partition_ok:
  assumes "l \<le> pivot" "pivot < j" "j \<le> r" "r \<le> length a"
    "\<forall>k. l < k \<and> k \<le> pivot \<longrightarrow> sint (a ! k) < sint p" "\<forall>k. pivot < k \<and> k < j \<longrightarrow> sint p \<le> sint (a ! k)"
  shows "\<exists>pivot' b. partition_loop p r j pivot a = Inr (pivot', b) \<and> pivot \<le> pivot' \<and> pivot' < r \<and> perm_in (l + 1) r a b
    \<and> (\<forall>k. l < k \<and> k \<le> pivot' \<longrightarrow> sint (b ! k) < sint p) \<and> (\<forall>k. pivot' < k \<and> k < r \<longrightarrow> sint p \<le> sint (b ! k))"
  using assms
proof (induction "r - j" arbitrary: j pivot a)
  case 0
  then show ?case by (intro exI [of _ pivot] exI [of _ a]) (subst partition_loop.simps, auto)
next
  case (Suc d)
  then have j: "j < r" "\<not> length a \<le> j" "d = r - (j + 1)" by auto
  show ?case
  proof (cases "sint (a ! j) < sint p")
    case True
    let ?a = "a[pivot + 1 := a ! j, j := a ! (pivot + 1)]"
    have s: "swap (pivot + 1) j a = Inr ?a" "perm_in (l + 1) r a ?a"
      using swap_ok [of "l + 1" "pivot + 1" j r a] Suc.prems j(1) by auto
    have "\<exists>pivot' b. partition_loop p r (j + 1) (pivot + 1) ?a = Inr (pivot', b) \<and> pivot + 1 \<le> pivot' \<and> pivot' < r \<and> perm_in (l + 1) r ?a b
      \<and> (\<forall>k. l < k \<and> k \<le> pivot' \<longrightarrow> sint (b ! k) < sint p) \<and> (\<forall>k. pivot' < k \<and> k < r \<longrightarrow> sint p \<le> sint (b ! k))"
      by (rule Suc.hyps(1) [OF j(3)]) (use Suc.prems j True in \<open>auto simp: nth_list_update less_Suc_eq le_Suc_eq\<close>)
    moreover have "partition_loop p r j pivot a = partition_loop p r (j + 1) (pivot + 1) ?a"
      using j True s(1) by (subst partition_loop.simps) simp
    ultimately show ?thesis using perm_in_trans [OF s(2)] by (metis Suc_leD Suc_eq_plus1)
  next
    case False
    moreover have "partition_loop p r j pivot a = partition_loop p r (j + 1) pivot a"
      using j False by (subst partition_loop.simps) simp
    moreover have "\<forall>k. pivot < k \<and> k < j + 1 \<longrightarrow> sint p \<le> sint (a ! k)" using Suc.prems(6) False by (auto simp: less_Suc_eq)
    ultimately show ?thesis using Suc.hyps(1) [OF j(3) Suc.prems(1) _ _ Suc.prems(4,5)] Suc.prems(2) j(1) by simp
  qed
qed

text \<open>The pivot in its place, the smaller elements before and the others after it.\<close>

lemma step_ok:
  assumes "l < r" "r \<le> length a"
  obtains pivot b c where "partition_loop (a ! l) r (l + 1) l a = Inr (pivot, b)" "swap pivot l b = Inr c"
    "l \<le> pivot" "pivot < r" "perm_in l r a c" "\<And>k. l \<le> k \<Longrightarrow> k < pivot \<Longrightarrow> sint (c ! k) < sint (c ! pivot)"
    "\<And>k. pivot < k \<Longrightarrow> k < r \<Longrightarrow> sint (c ! pivot) \<le> sint (c ! k)"
proof -
  obtain pivot b where p: "partition_loop (a ! l) r (l + 1) l a = Inr (pivot, b)" "l \<le> pivot" "pivot < r" "perm_in (l + 1) r a b"
    "\<forall>k. l < k \<and> k \<le> pivot \<longrightarrow> sint (b ! k) < sint (a ! l)" "\<forall>k. pivot < k \<and> k < r \<longrightarrow> sint (a ! l) \<le> sint (b ! k)"
    using partition_ok [of l l "l + 1" r a "a ! l"] assms by auto
  have len: "length b = length a" "b ! l = a ! l" using p(4) by (auto simp: perm_in_def)
  let ?c = "b[pivot := b ! l, l := b ! pivot]"
  have s: "swap pivot l b = Inr ?c" "perm_in l r b ?c" using swap_ok [of l pivot l r b] p(2,3) assms len by auto
  have e: "?c ! k = (if k = l then b ! pivot else if k = pivot then a ! l else b ! k)" for k
    using p(2,3) assms len by (auto simp: nth_list_update)
  have "perm_in l r a ?c" using perm_in_trans [OF perm_in_mono [OF p(4)] s(2)] by simp
  moreover have "sint (?c ! k) < sint (?c ! pivot)" if "l \<le> k" "k < pivot" for k unfolding e using p(5) that len(2) by auto
  moreover have "sint (?c ! pivot) \<le> sint (?c ! k)" if "pivot < k" "k < r" for k unfolding e using p(2,6) that len(2) by auto
  ultimately show thesis using that p(1-3) s(1) by blast
qed

lemma myqsort_ok:
  "r \<le> length a \<Longrightarrow> \<exists>b. myqsort a l r = Inr b \<and> perm_in l r a b \<and> sorted_in l r b"
proof (induction "r - l" arbitrary: a l r rule: less_induct)
  case less
  show ?case
  proof (cases "l < r")
    case False
    then show ?thesis by (subst myqsort.simps) (simp add: sorted_in_def)
  next
    case True
    obtain pivot b c where s: "partition_loop (a ! l) r (l + 1) l a = Inr (pivot, b)" "swap pivot l b = Inr c"
      "l \<le> pivot" "pivot < r" "perm_in l r a c" "\<And>k. l \<le> k \<Longrightarrow> k < pivot \<Longrightarrow> sint (c ! k) < sint (c ! pivot)"
      "\<And>k. pivot < k \<Longrightarrow> k < r \<Longrightarrow> sint (c ! pivot) \<le> sint (c ! k)" using step_ok [OF True less.prems] by blast
    have lc: "length c = length a" using s(5) by (simp add: perm_in_def)
    obtain d where d: "myqsort c l pivot = Inr d" "perm_in l pivot c d" "sorted_in l pivot d"
      using less.hyps [of pivot l c] s(3,4) lc less.prems diff_less_mono [of pivot r l] by auto
    have ld: "r \<le> length d" "r - (pivot + 1) < r - l" using d(2) lc less.prems s(3,4) by (auto simp: perm_in_def)
    obtain e where e: "myqsort d (pivot + 1) r = Inr e" "perm_in (pivot + 1) r d e" "sorted_in (pivot + 1) r e"
      using less.hyps [OF ld(2,1)] by blast
    have de: "d ! k = c ! k" if "pivot \<le> k" for k using d(2) that by (simp add: perm_in_def)
    have ee: "e ! k = d ! k" if "k \<le> pivot" for k using e(2) that by (simp add: perm_in_def)
    have low: "sint (e ! k) < sint (c ! pivot)" if k: "l \<le> k" "k < pivot" for k
    proof -
      obtain k' where "l \<le> k'" "k' < pivot" "d ! k = c ! k'" using perm_in_elem [OF d(2) k] s(4) lc less.prems by auto
      then show ?thesis using s(6) ee k(2) by simp
    qed
    have high: "sint (c ! pivot) \<le> sint (e ! k)" if k: "pivot < k" "k < r" for k
    proof -
      have "r \<le> length d" using d(2) lc less.prems by (simp add: perm_in_def)
      then obtain k' where "pivot + 1 \<le> k'" "k' < r" "e ! k = d ! k'" using perm_in_elem [OF e(2), of k] k by auto
      then show ?thesis using s(7) de by simp
    qed
    have "sint (e ! i) \<le> sint (e ! j)" if ij: "l \<le> i" "i < j" "j < r" for i j
    proof (cases "j < pivot \<or> pivot < i")
      case True
      then show ?thesis using d(3) e(3) ee ij by (auto simp: sorted_in_def)
    next
      case False
      have "sint (e ! i) \<le> sint (c ! pivot)" using low [of i] ee [of pivot] de [of pivot] ij False by (cases "i < pivot") auto
      moreover have "sint (c ! pivot) \<le> sint (e ! j)" using high [of j] ee [of pivot] de [of pivot] ij False by (cases "pivot < j") auto
      ultimately show ?thesis by linarith
    qed
    then have "sorted_in l r e" by (simp add: sorted_in_def)
    moreover have "perm_in l r a e"
      using s(5) perm_in_mono [OF d(2), of l r] perm_in_mono [OF e(2), of l r] s(3,4) perm_in_trans by (meson le_add1 less_imp_le order.trans order_refl)
    moreover have "myqsort a l r = Inr e" using True s(1,2) d(1) e(1) less.prems by (subst myqsort.simps) simp
    ultimately show ?thesis by blast
  qed
qed

text \<open>\<open>bench_qsort_run\<close> sorts the \<open>N\<close> elements of \<open>data\<close>.\<close>

definition bench_qsort_run :: "u32 list \<Rightarrow> nat \<Rightarrow> abort + u32 list" where
  "bench_qsort_run data N = myqsort data 0 N"

text \<open>C20: \<open>myqsort\<close> on any part of an array inside its bounds returns, accesses nothing outside it,
  and leaves the rest of the array as it was and the part sorted as signed integers.\<close>

theorem qsort_sorts:
  assumes "l \<le> r" "r \<le> length a"
  shows "\<exists>b. myqsort a l r = Inr b \<and> take l b = take l a \<and> drop r b = drop r a
    \<and> map sint (part l r b) = sort (map sint (part l r a))"
proof -
  obtain b where b: "myqsort a l r = Inr b" "perm_in l r a b" "sorted_in l r b" using myqsort_ok [OF assms(2)] by blast
  note p = perm_in_part [OF b(2) assms]
  have "r \<le> length b" using b(2) assms(2) by (simp add: perm_in_def)
  then have "sorted (map sint (part l r b))"
    using b(3) by (auto simp: sorted_iff_nth_mono_less sorted_in_def part_def)
  then have "sort (map sint (part l r a)) = map sint (part l r b)"
    by (rule properties_for_sort [rotated]) (metis p(3) mset_map)
  with b(1) p(1,2) show ?thesis by auto
qed

lemma qsort_sorts_witness: "\<exists>b. bench_qsort_run [3, - 1, 2] 3 = Inr b \<and> map sint b = [- 1, 2, 3]"
  using qsort_sorts [of 0 3 "[3, - 1, 2]"] by (auto simp: bench_qsort_run_def part_def)

end
