(* ===== verification/MbQueen.thy ===== *)
theory MbQueen imports Prelude begin

text \<open>
  \<open>am-kernels/benchmarks/microbench/src/queen/queen.c\<close>: the number of ways to place queens on a board,
  by a search over sets of columns and diagonals in the bits of words.
\<close>

unbundle bit_operations_syntax

section \<open>The functions\<close>

text \<open>The zero bits of a word; the search sets one in each row.\<close>

definition zeros :: "u32 \<Rightarrow> nat" where
  "zeros w = card {i. i < 32 \<and> \<not> bit w i}"

lemma odd_and_minus: "bit x 0 \<Longrightarrow> x AND - x = 1" for x :: u32
proof -
  assume o: "bit x 0"
  have "(x AND NOT 1) + 1 = (x AND NOT 1) OR 1" by (rule disjunctive_add) (auto simp: bit_simps)
  also have "\<dots> = x" using o by (intro bit_word_eqI) (auto simp: bit_simps)
  finally have "x - 1 = x AND NOT 1" by (metis add_diff_cancel_right')
  then have "- x = NOT (x AND NOT 1)" by (metis minus_eq_not_minus_1)
  then show ?thesis using o by (intro bit_word_eqI) (auto simp: bit_simps)
qed

lemma lowest_bit:
  fixes pos :: u32
  assumes "pos \<noteq> 0"
  obtains i where "i < 32" "bit pos i" "pos AND (NOT pos + 1) = push_bit i 1" "pos - push_bit i 1 = pos AND NOT (push_bit i 1)"
proof -
  define i where "i = (LEAST i. bit pos i)"
  obtain k where k: "bit pos k" using assms bit_eqI [of pos 0] by auto
  have i: "bit pos i" unfolding i_def by (rule LeastI [of _ k]) (rule k)
  have low: "\<not> bit pos j" if "j < i" for j using that not_less_Least unfolding i_def by blast
  let ?x = "drop_bit i pos"
  have p: "pos = push_bit i ?x" 
  proof (rule bit_word_eqI)
    fix n
    show "bit pos n = bit (push_bit i ?x) n" if "n < LENGTH(32)" using low that by (cases "i \<le> n") (auto simp: bit_simps)
  qed
  have "NOT pos + 1 = - pos" by (simp add: minus_eq_not_plus_1)
  also have "\<dots> = push_bit i (- ?x)" by (subst p) (simp add: push_bit_eq_mult)
  finally have "pos AND (NOT pos + 1) = push_bit i (?x AND - ?x)" using p by (metis push_bit_and)
  also have "?x AND - ?x = 1" using i by (intro odd_and_minus) (simp add: bit_simps)
  finally have 1: "pos AND (NOT pos + 1) = push_bit i 1" .
  have "(pos AND NOT (push_bit i 1)) + push_bit i 1 = (pos AND NOT (push_bit i 1)) OR push_bit i 1"
    by (rule disjunctive_add) (auto simp: bit_simps)
  also have "\<dots> = pos" using i by (intro bit_word_eqI) (auto simp: bit_simps bit_1_iff)
  finally have "pos - push_bit i 1 = pos AND NOT (push_bit i 1)" by (metis add_diff_cancel_right')
  with 1 i that show thesis using bit_imp_le_length [OF i] by auto
qed

lemma lowest_less:
  fixes pos row :: u32
  assumes "pos \<noteq> 0"
  shows "unat (pos - (pos AND (NOT pos + 1))) < unat pos" "pos AND row = 0 \<Longrightarrow> (pos - (pos AND (NOT pos + 1))) AND row = 0"
proof -
  obtain i where i: "i < 32" "bit pos i" "pos AND (NOT pos + 1) = push_bit i 1" "pos - push_bit i 1 = pos AND NOT (push_bit i 1)"
    using lowest_bit [OF assms] .
  have n: "bit (pos - push_bit i 1) k \<longleftrightarrow> bit pos k \<and> k \<noteq> i" for k
    unfolding i(4) by (auto simp: bit_simps bit_1_iff bit_not_iff dest: bit_imp_le_length)
  have "pos - push_bit i 1 \<le> pos" unfolding i(4) by (rule word_and_le2)
  moreover have "pos - push_bit i 1 \<noteq> pos" using n [of i] i(2) by metis
  ultimately have "pos - push_bit i 1 < pos" by (rule le_neq_trans)
  then show "unat (pos - (pos AND (NOT pos + 1))) < unat pos" unfolding i(3) word_less_nat_alt .
  show "(pos - (pos AND (NOT pos + 1))) AND row = 0" if "pos AND row = 0"
  proof (rule bit_word_eqI)
    fix k
    have "\<not> (bit pos k \<and> bit row k)" using that by (metis bit_0_eq bit_and_iff bot_apply bot_bool_def)
    then show "bit ((pos - (pos AND (NOT pos + 1))) AND row) k = bit 0 k" unfolding i(3) bit_and_iff n by simp
  qed
qed

lemma zeros_mono: "zeros (w OR p) \<le> zeros w"
  unfolding zeros_def by (rule card_mono) (auto simp: bit_simps)

lemma zeros_less: "i < 32 \<Longrightarrow> \<not> bit w i \<Longrightarrow> zeros (w OR push_bit i 1) < zeros w"
  unfolding zeros_def by (rule psubset_card_mono) (auto simp: bit_simps bit_1_iff)

text \<open>\<open>dfs_loop\<close> is what the loop adds to \<open>ans\<close>.\<close>

function dfs :: "u32 \<Rightarrow> u32 \<Rightarrow> u32 \<Rightarrow> u32 \<Rightarrow> u32"
  and dfs_loop :: "u32 \<Rightarrow> u32 \<Rightarrow> u32 \<Rightarrow> u32 \<Rightarrow> u32 \<Rightarrow> u32" where
  "dfs FULL row ld rd =
     (if row = FULL then 1 else dfs_loop FULL row ld rd (FULL AND NOT (row OR ld OR rd)))"
| "dfs_loop FULL row ld rd pos =
     (if pos = 0 then 0
      else let p = pos AND (NOT pos + 1)
           in dfs FULL (row OR p) (push_bit 1 (ld OR p)) (drop_bit 1 (rd OR p)) + dfs_loop FULL row ld rd (pos - p))"
  by pat_completeness auto

termination
proof (relation "measures [\<lambda>x. case x of Inl (FULL, row, ld, rd) \<Rightarrow> zeros row | Inr (FULL, row, ld, rd, pos) \<Rightarrow> zeros row,
    \<lambda>x. case x of Inl _ \<Rightarrow> 1 | Inr (FULL, row, ld, rd, pos) \<Rightarrow> if pos AND row = 0 then 0 else 2,
    \<lambda>x. case x of Inl _ \<Rightarrow> 0 | Inr (FULL, row, ld, rd, pos) \<Rightarrow> unat pos]", goal_cases)
  case (2 FULL row ld rd)
  have "(FULL AND NOT (row OR ld OR rd)) AND row = 0" by (rule bit_word_eqI) (auto simp: bit_simps)
  then show ?case by simp
next
  case (3 FULL row ld rd pos p)
  then obtain i where i: "i < 32" "bit pos i" "p = push_bit i 1" using lowest_bit by metis
  have "pos AND row = 0 \<Longrightarrow> \<not> bit row i" using i(2) by (metis bit_and_iff bit_0_eq bot_apply bot_bool_def)
  then show ?case using zeros_less [of i row] zeros_mono [of row p] i(1,3) by (auto simp: le_less)
next
  case (4 FULL row ld rd pos p)
  then have "pos AND row = 0 \<Longrightarrow> (pos - p) AND row = 0" "unat (pos - p) < unat pos"
    using lowest_less [of pos] by auto
  then show ?case by auto
qed simp

declare dfs.simps [simp del] dfs_loop.simps [simp del]

text \<open>\<open>bench_queen_prepare\<close> and \<open>bench_queen_run\<close>, for a board of \<open>n\<close> columns.\<close>

definition bench_queen_run :: "nat \<Rightarrow> u32" where
  "bench_queen_run n = (let FULL = push_bit n 1 - 1 in dfs FULL 0 0 0)"

section \<open>Placements\<close>

text \<open>Queens in rows, the last row first: no two share a column or a diagonal.\<close>

definition free_col :: "nat \<Rightarrow> nat list \<Rightarrow> nat \<Rightarrow> bool" where
  "free_col n qs c \<longleftrightarrow> c < n \<and> c \<notin> set qs \<and> (\<forall>j < length qs. c \<noteq> qs ! j + j + 1 \<and> qs ! j \<noteq> c + j + 1)"

fun valid :: "nat \<Rightarrow> nat list \<Rightarrow> bool" where
  "valid n [] \<longleftrightarrow> True"
| "valid n (c # qs) \<longleftrightarrow> free_col n qs c \<and> valid n qs"

definition completions :: "nat \<Rightarrow> nat list \<Rightarrow> nat list set" where
  "completions n qs = {zs. length zs + length qs = n \<and> valid n (zs @ qs)}"

lemma valid_set: "valid n qs \<Longrightarrow> set qs \<subseteq> {..<n} \<and> distinct qs"
  by (induction qs) (auto simp: free_col_def)

lemma finite_completions [simp]: "finite (completions n qs)"
  by (rule finite_subset [OF _ finite_lists_length_le [of "{..<n}" n]]) (use valid_set in \<open>fastforce simp: completions_def\<close>)+

lemma completions_full: "valid n qs \<Longrightarrow> length qs = n \<Longrightarrow> completions n qs = {[]}"
  by (auto simp: completions_def)

lemma valid_append: "valid n (zs @ qs) \<Longrightarrow> valid n qs"
  by (induction zs) auto

lemma completions_step:
  assumes "length qs < n"
  shows "card (completions n qs) = (\<Sum>c | free_col n qs c \<and> valid n qs. card (completions n (c # qs)))"
proof -
  let ?f = "\<lambda>c. (\<lambda>zs. zs @ [c]) ` completions n (c # qs)"
  let ?C = "{c. free_col n qs c \<and> valid n qs}"
  have "completions n qs = (\<Union>c \<in> ?C. ?f c)"
  proof (rule set_eqI, rule iffI)
    fix zs
    assume z: "zs \<in> completions n qs"
    then obtain ys c where y: "zs = ys @ [c]" using assms unfolding completions_def by (cases zs rule: rev_cases) auto
    then have "valid n (c # qs)" using z valid_append [of n ys "c # qs"] by (simp add: completions_def)
    with z y show "zs \<in> (\<Union>c \<in> ?C. ?f c)" unfolding completions_def by auto
  qed (auto simp: completions_def)
  moreover have "finite ?C" by (rule finite_subset [of _ "{..<n}"]) (auto simp: free_col_def)
  moreover have "card (?f c) = card (completions n (c # qs))" for c by (rule card_image) (auto simp: inj_on_def)
  ultimately show ?thesis by (subst \<open>completions n qs = _\<close>, subst card_UN_disjoint) auto
qed

section \<open>The search counts the placements\<close>

text \<open>The words that stand for the queens \<open>qs\<close>; \<open>ld\<close> may have bits beyond the board.\<close>

definition board :: "nat \<Rightarrow> nat list \<Rightarrow> u32 \<Rightarrow> u32 \<Rightarrow> u32 \<Rightarrow> bool" where
  "board n qs row ld rd \<longleftrightarrow> (\<forall>c. bit row c \<longleftrightarrow> c \<in> set qs) \<and> (\<forall>c < n. bit ld c \<longleftrightarrow> (\<exists>j < length qs. c = qs ! j + j + 1))
     \<and> (\<forall>c. bit rd c \<longleftrightarrow> (\<exists>j < length qs. qs ! j = c + j + 1))"

lemma board_step:
  assumes b: "board n qs row ld rd" and c: "c < n" "n < 32" and p: "\<And>k. bit p k \<longleftrightarrow> k = c"
  shows "board n (c # qs) (row OR p) (push_bit 1 (ld OR p)) (drop_bit 1 (rd OR p))"
proof -
  have ex: "(\<exists>j < length (c # qs). P j ((c # qs) ! j)) \<longleftrightarrow> P 0 c \<or> (\<exists>j < length qs. P (Suc j) (qs ! j))" for P
    by (auto simp: less_Suc_eq_0_disj)
  have row: "bit (row OR p) k \<longleftrightarrow> k \<in> set (c # qs)" for k using b by (auto simp: bit_or_iff p board_def)
  have ld: "bit (push_bit 1 (ld OR p)) k \<longleftrightarrow> (\<exists>j < length (c # qs). k = (c # qs) ! j + j + 1)" if "k < n" for k
  proof (cases k)
    case 0
    then show ?thesis unfolding bit_push_bit_iff by simp
  next
    case (Suc m)
    have "bit (push_bit 1 (ld OR p)) k \<longleftrightarrow> bit ld m \<or> m = c" unfolding bit_push_bit_iff bit_or_iff using Suc that c(2) by (simp add: p)
    also have "\<dots> \<longleftrightarrow> (\<exists>j < length (c # qs). k = (c # qs) ! j + j + 1)" unfolding ex [of "\<lambda>j q. k = q + j + 1"] using b Suc that by (auto simp: board_def)
    finally show ?thesis .
  qed
  have rd: "bit (drop_bit 1 (rd OR p)) k \<longleftrightarrow> (\<exists>j < length (c # qs). (c # qs) ! j = k + j + 1)" for k
    unfolding ex [of "\<lambda>j q. q = k + j + 1"] using b by (auto simp: bit_drop_bit_eq bit_or_iff p board_def)
  show ?thesis unfolding board_def using row ld rd by blast
qed

lemma board_pos:
  assumes "board n qs row ld rd" "n < 32"
  shows "bit (mask n AND NOT (row OR ld OR rd)) c \<longleftrightarrow> free_col n qs c"
  using assms by (auto simp: bit_simps board_def free_col_def)

lemma board_full:
  assumes "board n qs row ld rd" "n < 32" "valid n qs"
  shows "row = mask n \<longleftrightarrow> length qs = n"
proof -
  note v = valid_set [OF assms(3)]
  have "row = mask n \<longleftrightarrow> (\<forall>k. bit row k = bit (mask n :: u32) k)" by (metis bit_eqI)
  also have "\<dots> \<longleftrightarrow> (\<forall>k. k \<in> set qs \<longleftrightarrow> k < n)" using assms(1,2) by (auto simp: board_def bit_mask_iff)
  also have "\<dots> \<longleftrightarrow> set qs = {..<n}" by auto
  also have "\<dots> \<longleftrightarrow> card (set qs) = n" using v card_subset_eq [of "{..<n}" "set qs"] by auto
  finally show ?thesis using v by (simp add: distinct_card)
qed

lemma dfs_counts:
  "board n qs row ld rd \<Longrightarrow> n < 32 \<Longrightarrow> valid n qs \<Longrightarrow> FULL = mask n \<Longrightarrow> dfs FULL row ld rd = of_nat (card (completions n qs))"
  "board n qs row ld rd \<Longrightarrow> n < 32 \<Longrightarrow> valid n qs \<Longrightarrow> FULL = mask n \<Longrightarrow> (\<And>c. bit pos c \<Longrightarrow> free_col n qs c)
    \<Longrightarrow> dfs_loop FULL row ld rd pos = of_nat (\<Sum>c | bit pos c. card (completions n (c # qs)))"
proof (induction FULL row ld rd and FULL row ld rd pos arbitrary: qs and qs rule: dfs_dfs_loop.induct)
  case (1 FULL row ld rd)
  show ?case
  proof (cases "length qs = n")
    case True
    then have "row = FULL" using board_full [OF 1(2-4)] 1(5) by simp
    then show ?thesis using completions_full [OF 1(4) True] by (subst dfs.simps) simp
  next
    case False
    then have r: "row \<noteq> FULL" using board_full [OF 1(2-4)] 1(5) by simp
    have "card (set qs) \<le> n" using valid_set [OF 1(4)] card_mono [of "{..<n}" "set qs"] by simp
    then have l: "length qs < n" using False valid_set [OF 1(4)] by (simp add: distinct_card)
    note b = board_pos [OF 1(2,3)]
    have "dfs FULL row ld rd = dfs_loop FULL row ld rd (FULL AND NOT (row OR ld OR rd))" using r by (subst dfs.simps) simp
    also have "\<dots> = of_nat (\<Sum>c | bit (FULL AND NOT (row OR ld OR rd)) c. card (completions n (c # qs)))"
      by (rule 1(1) [OF r 1(2-5)]) (simp only: 1(5) b)
    also have "\<dots> = of_nat (\<Sum>c | free_col n qs c. card (completions n (c # qs)))" by (simp only: 1(5) b)
    finally show ?thesis using completions_step [OF l] 1(4) by simp
  qed
next
  case (2 FULL row ld rd pos)
  show ?case
  proof (cases "pos = 0")
    case True
    then show ?thesis by (subst dfs_loop.simps) simp
  next
    case False
    obtain i where i: "i < 32" "bit pos i" "pos AND (NOT pos + 1) = push_bit i 1" "pos - push_bit i 1 = pos AND NOT (push_bit i 1)"
      using lowest_bit [OF False] .
    define p :: u32 where "p = push_bit i 1"
    have p: "bit p k \<longleftrightarrow> k = i" for k using i(1) by (auto simp: p_def bit_simps bit_1_iff)
    have rest: "bit (pos - p) k \<longleftrightarrow> bit pos k \<and> k \<noteq> i" for k
      unfolding i(4) [folded p_def] bit_and_iff bit_not_iff p by (auto dest: bit_imp_le_length)
    have f: "free_col n qs i" using 2(7) i(2) by blast
    then have "board n (i # qs) (row OR p) (push_bit 1 (ld OR p)) (drop_bit 1 (rd OR p))" "valid n (i # qs)"
      using board_step [OF 2(3) _ 2(4) p] 2(5) by (auto simp: free_col_def)
    note d = 2(1) [OF False i(3) [folded p_def, symmetric] this(1) 2(4) this(2) 2(6)]
    have l: "dfs_loop FULL row ld rd (pos - p) = of_nat (\<Sum>c | bit (pos - p) c. card (completions n (c # qs)))"
      by (rule 2(2) [OF False i(3) [folded p_def, symmetric] 2(3-6)]) (use 2(7) rest in blast)
    have "{c. bit pos c} = insert i {c. bit (pos - p) c}" using rest i(2) by auto
    moreover have "finite {c. bit (pos - p) c}" "i \<notin> {c. bit (pos - p) c}" using rest
      by (auto intro: finite_subset [of _ "{..<32}"] dest: bit_imp_le_length)
    ultimately have s: "(\<Sum>c | bit pos c. card (completions n (c # qs))) = card (completions n (i # qs)) + (\<Sum>c | bit (pos - p) c. card (completions n (c # qs)))"
      by simp
    have "dfs_loop FULL row ld rd pos = dfs FULL (row OR p) (push_bit 1 (ld OR p)) (drop_bit 1 (rd OR p)) + dfs_loop FULL row ld rd (pos - p)"
      using False by (subst dfs_loop.simps) (simp only: i(3) [folded p_def] Let_def if_False)
    then show ?thesis unfolding d l s of_nat_add .
  qed
qed

section \<open>The number of solutions\<close>

text \<open>The queens of a solution, by row, are in distinct columns and no two are on a diagonal.\<close>

definition queens :: "nat \<Rightarrow> nat list set" where
  "queens n = {qs. length qs = n \<and> set qs \<subseteq> {..<n} \<and> distinct qs
     \<and> (\<forall>i < n. \<forall>j < i. \<bar>int (qs ! i) - int (qs ! j)\<bar> \<noteq> int i - int j)}"

lemma pairs_Suc: "(\<forall>i < Suc n. \<forall>j < i. P i j) \<longleftrightarrow> (\<forall>i < n. P (Suc i) 0) \<and> (\<forall>i < n. \<forall>j < i. P (Suc i) (Suc j))"
  by (auto simp: less_Suc_eq_0_disj)

lemma valid_iff: "valid n qs \<longleftrightarrow> set qs \<subseteq> {..<n} \<and> distinct qs
    \<and> (\<forall>i < length qs. \<forall>j < i. \<bar>int (qs ! i) - int (qs ! j)\<bar> \<noteq> int i - int j)"
proof (induction qs)
  case (Cons c qs)
  have a: "\<bar>int x - int c\<bar> \<noteq> int (Suc i) \<longleftrightarrow> c \<noteq> x + i + 1 \<and> x \<noteq> c + i + 1" for x i by arith
  have "(\<forall>i < length (c # qs). \<forall>j < i. \<bar>int ((c # qs) ! i) - int ((c # qs) ! j)\<bar> \<noteq> int i - int j)
    \<longleftrightarrow> (\<forall>i < length qs. c \<noteq> qs ! i + i + 1 \<and> qs ! i \<noteq> c + i + 1)
      \<and> (\<forall>i < length qs. \<forall>j < i. \<bar>int (qs ! i) - int (qs ! j)\<bar> \<noteq> int i - int j)"
    using pairs_Suc [of "length qs" "\<lambda>i j. \<bar>int ((c # qs) ! i) - int ((c # qs) ! j)\<bar> \<noteq> int i - int j"] a by simp
  with Cons show ?case by (auto simp: free_col_def)
qed simp



end
