(* ===== verification/MbSieve.thy ===== *)
theory MbSieve imports Prelude begin

text \<open>
  \<open>am-kernels/benchmarks/microbench/src/sieve/sieve.c\<close>: the sieve of Eratosthenes on the bits of an array
  of words.  The variables of type \<open>int\<close> are never negative and are natural numbers; a sum or product that
  does not fit is the abort \<open>ArithTrap\<close>.
\<close>

unbundle bit_operations_syntax

section \<open>The functions\<close>

definition sieve_get :: "nat \<Rightarrow> u32 list \<Rightarrow> abort + bool" where
  "sieve_get n primes =
     (if n div 32 < length primes then Inr (drop_bit (n mod 32) (primes ! (n div 32)) AND 1 \<noteq> 0) else Inl OutOfBounds)"

definition sieve_clear :: "nat \<Rightarrow> u32 list \<Rightarrow> abort + u32 list" where
  "sieve_clear n primes =
     (if n div 32 < length primes then Inr (primes[n div 32 := primes ! (n div 32) AND NOT (push_bit (n mod 32) 1)]) else Inl OutOfBounds)"

text \<open>\<open>N / 8 + 128\<close> zero bytes, of which the words up to \<open>N / 32\<close> are filled.\<close>

definition bench_sieve_prepare :: "nat \<Rightarrow> u32 list" where
  "bench_sieve_prepare N = map (\<lambda>i. if i \<le> N div 32 then 0xffffffff else 0) [0..<(N div 8 + 128) div 4]"

definition int_arith :: "nat \<Rightarrow> abort + nat" where
  "int_arith v = (if v < 2 ^ 31 then Inr v else Inl ArithTrap)"

text \<open>The first loop: it stops at a number that is not set.\<close>

function all_set :: "nat \<Rightarrow> nat \<Rightarrow> u32 list \<Rightarrow> abort + bool" where
  "all_set i N primes =
     (if i \<le> N then rbind (sieve_get i primes) (\<lambda>b. if \<not> b then Inr False else all_set (i + 1) N primes) else Inr True)"
  by pat_completeness auto

termination
  by (relation "measure (\<lambda>(i, N, _). N + 1 - i)") auto

text \<open>The multiples of \<open>i\<close> from \<open>j\<close> on; a step of 0 would not come to an end.\<close>

function clear_multiples :: "nat \<Rightarrow> nat \<Rightarrow> nat \<Rightarrow> u32 list \<Rightarrow> abort + u32 list" where
  "clear_multiples i j N primes =
     (if j \<le> N then
        if i = 0 then Inl Diverge
        else rbind (sieve_clear j primes) (\<lambda>primes. rbind (int_arith (j + i)) (\<lambda>_. clear_multiples i (j + i) N primes))
      else Inr primes)"
  by pat_completeness auto

termination
  by (relation "measure (\<lambda>(i, j, N, _). N + 1 - j)") auto

function sieve_loop :: "nat \<Rightarrow> nat \<Rightarrow> u32 list \<Rightarrow> abort + u32 list" where
  "sieve_loop i N primes =
     rbind (int_arith (i * i)) (\<lambda>sq.
       if i * i \<le> N then
         rbind (sieve_get i primes) (\<lambda>b.
         rbind (if b then rbind (int_arith (i + i)) (\<lambda>j. clear_multiples i j N primes) else Inr primes) (\<lambda>primes.
           sieve_loop (i + 1) N primes))
       else Inr primes)"
  by pat_completeness auto

termination
  by (relation "measure (\<lambda>(i, N, _). N + 1 - i)", simp) (metis (no_types, lifting) case_prod_conv diff_less_mono2 in_measure le_square le_trans lessI less_Suc_eq_le add.commute plus_1_eq_Suc)

fun count_set :: "nat list \<Rightarrow> u32 list \<Rightarrow> u32 \<Rightarrow> abort + u32" where
  "count_set [] primes ans = Inr ans"
| "count_set (i # is) primes ans = rbind (sieve_get i primes) (\<lambda>b. count_set is primes (if b then ans + 1 else ans))"

definition bench_sieve_run :: "nat \<Rightarrow> u32 list \<Rightarrow> u32 \<Rightarrow> abort + u32 \<times> u32 list" where
  "bench_sieve_run N primes ans =
     rbind (all_set 1 N primes) (\<lambda>b.
       if \<not> b then Inr (ans, primes)
       else rbind (sieve_loop 2 N primes) (\<lambda>primes. rbind (count_set [2..<Suc N] primes 0) (\<lambda>ans. Inr (ans, primes))))"

declare all_set.simps [simp del] clear_multiples.simps [simp del] sieve_loop.simps [simp del]

section \<open>The bits of the array\<close>

text \<open>The array reaches \<open>N\<close>, and the bits up to there are those of \<open>f\<close>.\<close>

definition shows_bits :: "u32 list \<Rightarrow> nat \<Rightarrow> (nat \<Rightarrow> bool) \<Rightarrow> bool" where
  "shows_bits primes N f \<longleftrightarrow> (\<forall>k \<le> N. k div 32 < length primes \<and> bit (primes ! (k div 32)) (k mod 32) = f k)"

lemma odd_and_1: "drop_bit n w AND 1 \<noteq> 0 \<longleftrightarrow> bit w n" for w :: u32
proof -
  have "drop_bit n w AND 1 = of_bool (bit w n)" by (rule bit_word_eqI) (auto simp: bit_simps)
  then show ?thesis by simp
qed

lemma get_ok: "shows_bits primes N f \<Longrightarrow> k \<le> N \<Longrightarrow> sieve_get k primes = Inr (f k)"
  unfolding sieve_get_def odd_and_1 shows_bits_def by simp

lemma clear_ok:
  assumes "shows_bits primes N f" "n \<le> N"
  obtains primes' where "sieve_clear n primes = Inr primes'" "shows_bits primes' N (\<lambda>k. f k \<and> k \<noteq> n)"
proof -
  let ?w = "primes ! (n div 32) AND NOT (push_bit (n mod 32) 1)"
  have n: "n div 32 < length primes" using assms unfolding shows_bits_def by blast
  have w: "bit ?w i \<longleftrightarrow> bit (primes ! (n div 32)) i \<and> i \<noteq> n mod 32" if "i < 32" for i
    using that by (auto simp: bit_simps bit_1_iff)
  have "shows_bits (primes[n div 32 := ?w]) N (\<lambda>k. f k \<and> k \<noteq> n)"
    unfolding shows_bits_def
  proof (intro allI impI)
    fix k
    assume k: "k \<le> N"
    have e: "k div 32 = n div 32 \<and> k mod 32 = n mod 32 \<longleftrightarrow> k = n" by (metis div_mult_mod_eq)
    show "k div 32 < length (primes[n div 32 := ?w]) \<and> bit (primes[n div 32 := ?w] ! (k div 32)) (k mod 32) = (f k \<and> k \<noteq> n)"
      using assms(1) k n w [of "k mod 32"] e unfolding shows_bits_def by (cases "k div 32 = n div 32") auto
  qed
  with n that show thesis by (simp add: sieve_clear_def)
qed

lemma prepare_ok: "shows_bits (bench_sieve_prepare N) N (\<lambda>_. True)"
proof -
  have "k div 32 < (N div 8 + 128) div 4" "k div 32 \<le> N div 32" if "k \<le> N" for k using that by linarith+
  moreover have "bit (0xffffffff :: u32) (k mod 32)" for k :: nat
  proof -
    have "(0xffffffff :: u32) = mask 32" by (simp add: mask_eq_exp_minus_1)
    then show ?thesis by (simp only: bit_mask_iff) simp
  qed
  ultimately show ?thesis by (simp add: shows_bits_def bench_sieve_prepare_def)
qed

section \<open>The sieve\<close>

lemma all_set_ok: "shows_bits primes N (\<lambda>_. True) \<Longrightarrow> all_set i N primes = Inr True"
proof (induction i N primes rule: all_set.induct)
  case (1 i N primes)
  then show ?case by (subst all_set.simps) (simp add: get_ok)
qed

lemma clear_multiples_ok:
  assumes "0 < i" "i \<le> N" "N < 2 ^ 30"
  shows "shows_bits primes N f \<Longrightarrow> i dvd j \<Longrightarrow> \<exists>primes'. clear_multiples i j N primes = Inr primes'
    \<and> shows_bits primes' N (\<lambda>k. f k \<and> \<not> (i dvd k \<and> j \<le> k))"
proof (induction "N + 1 - j" arbitrary: j primes f rule: less_induct)
  case less
  show ?case
  proof (cases "j \<le> N")
    case False
    then have "shows_bits primes N (\<lambda>k. f k \<and> \<not> (i dvd k \<and> j \<le> k))" using less.prems(1) unfolding shows_bits_def by auto
    with False show ?thesis by (subst clear_multiples.simps) simp
  next
    case True
    obtain p1 where 1: "sieve_clear j primes = Inr p1" "shows_bits p1 N (\<lambda>k. f k \<and> k \<noteq> j)" using clear_ok [OF less.prems(1) True] .
    have "N + 1 - (j + i) < N + 1 - j" "i dvd j + i" using assms(1) True less.prems(2) by auto
    from less.hyps [OF this(1) 1(2) this(2)] obtain p2 where 2: "clear_multiples i (j + i) N p1 = Inr p2"
      "shows_bits p2 N (\<lambda>k. (f k \<and> k \<noteq> j) \<and> \<not> (i dvd k \<and> j + i \<le> k))" by blast
    have e: "i dvd k \<and> j \<le> k \<longleftrightarrow> k = j \<or> i dvd k \<and> j + i \<le> k" for k
    proof
      assume "i dvd k \<and> j \<le> k"
      then obtain a b where ab: "k = i * a" "j = i * b" using less.prems(2) by (metis dvdE)
      then have "b \<le> a" using \<open>i dvd k \<and> j \<le> k\<close> assms(1) by simp
      then consider "a = b" | "Suc b \<le> a" by linarith
      then show "k = j \<or> i dvd k \<and> j + i \<le> k"
      proof cases
        case 2
        then have "i * Suc b \<le> i * a" by (rule mult_le_mono2)
        with ab show ?thesis by (simp add: add.commute)
      qed (simp add: ab)
    qed (use less.prems(2) in auto)
    have "j + i < 2 ^ 31" using True assms(2,3) by simp
    then have "clear_multiples i j N primes = Inr p2" using True assms(1) 1(1) 2(1) by (subst clear_multiples.simps) (simp add: int_arith_def)
    moreover have "shows_bits p2 N (\<lambda>k. f k \<and> \<not> (i dvd k \<and> j \<le> k))" using 2(2) unfolding e by (simp add: conj_ac)
    ultimately show ?thesis by blast
  qed
qed

text \<open>After the divisors below \<open>i\<close> the bit of \<open>k\<close> says whether one of them divides \<open>k\<close>.\<close>

definition sieved :: "nat \<Rightarrow> nat \<Rightarrow> bool" where
  "sieved i k \<longleftrightarrow> k = 0 \<or> (\<forall>d. 2 \<le> d \<and> d < i \<and> d dvd k \<longrightarrow> d = k)"

lemma sieved_step_set:
  assumes "2 \<le> i" "sieved i i"
  shows "sieved i k \<and> \<not> (i dvd k \<and> i + i \<le> k) \<longleftrightarrow> sieved (i + 1) k"
proof (cases "k = 0 \<or> \<not> i dvd k \<or> k = i")
  case True
  then show ?thesis using assms by (auto simp: sieved_def less_Suc_eq)
next
  case False
  then obtain a where a: "k = i * a" by auto
  then have "a \<noteq> 0" "a \<noteq> 1" using False by auto
  then have "2 \<le> a" by simp
  then have "i * 2 \<le> k" unfolding a by (rule mult_le_mono2)
  with False assms(1) show ?thesis by (auto simp: sieved_def)
qed

lemma sieved_step_unset:
  assumes "2 \<le> i" "\<not> sieved i i"
  shows "sieved (i + 1) k = sieved i k"
proof -
  obtain d where d: "2 \<le> d" "d < i" "d dvd i" using assms by (auto simp: sieved_def)
  have "\<not> (sieved i k \<and> i dvd k \<and> k \<noteq> 0)"
  proof
    assume k: "sieved i k \<and> i dvd k \<and> k \<noteq> 0"
    then have "d dvd k" "i \<le> k" using d(3) by (auto intro: dvd_trans dvd_imp_le)
    with k d show False by (auto simp: sieved_def)
  qed
  then show ?thesis by (auto simp: sieved_def less_Suc_eq)
qed

definition is_prime :: "nat \<Rightarrow> bool" where
  "is_prime p \<longleftrightarrow> 2 \<le> p \<and> (\<forall>d. d dvd p \<longrightarrow> d = 1 \<or> d = p)"

lemma sieved_prime:
  assumes "2 \<le> k" "k < i * i"
  shows "sieved i k \<longleftrightarrow> is_prime k"
proof
  assume s: "sieved i k"
  have "d = 1 \<or> d = k" if "d dvd k" for d
  proof (rule ccontr)
    assume n: "\<not> (d = 1 \<or> d = k)"
    obtain e where e: "k = d * e" using \<open>d dvd k\<close> by (rule dvdE)
    have de: "2 \<le> d" "2 \<le> e" "d < k" "e < k" using n e assms(1) by (cases d; cases e; auto)+
    have "i \<le> d" "i \<le> e" using s de e assms(1) unfolding sieved_def by (metis dvd_triv_left dvd_triv_right leI less_irrefl not_less_zero)+
    then have "i * i \<le> k" unfolding e by (rule mult_le_mono)
    with assms(2) show False by simp
  qed
  with assms(1) show "is_prime k" by (auto simp: is_prime_def)
next
  assume "is_prime k"
  then show "sieved i k" by (auto simp: is_prime_def sieved_def)
qed

lemma sieve_loop_ok:
  assumes "N < 2 ^ 30"
  shows "shows_bits primes N (sieved i) \<Longrightarrow> 2 \<le> i \<Longrightarrow> i * i < 2 ^ 31 \<Longrightarrow> \<exists>primes' j. sieve_loop i N primes = Inr primes'
    \<and> N < j * j \<and> shows_bits primes' N (sieved j)"
proof (induction "N + 1 - i" arbitrary: i primes rule: less_induct)
  case less
  have a: "int_arith (i * i) = Inr (i * i)" using less.prems(3) by (simp add: int_arith_def)
  show ?case
  proof (cases "i * i \<le> N")
    case False
    with a less.prems(1) show ?thesis by (intro exI [of _ primes] exI [of _ i]) (subst sieve_loop.simps, simp)
  next
    case True
    have ii: "2 * i \<le> i * i" using less.prems(2) by (rule mult_le_mono1)
    with True have i: "i \<le> N" "i + i \<le> N" using less.prems(2) by linarith+
    have "(i + 1) * (i + 1) = i * i + (i + i) + 1" by simp
    with True i(2) have "(i + 1) * (i + 1) \<le> N + N + 1" by linarith
    moreover have "N + N + 1 < 2 ^ 31" using assms by simp
    ultimately have "(i + 1) * (i + 1) < 2 ^ 31" by (rule le_less_trans)
    moreover have "\<exists>p1. (if sieved i i then rbind (int_arith (i + i)) (\<lambda>j. clear_multiples i j N primes) else Inr primes) = Inr p1
      \<and> shows_bits p1 N (sieved (i + 1))"
    proof (cases "sieved i i")
      case s: True
      have "int_arith (i + i) = Inr (i + i)" using i assms by (simp add: int_arith_def)
      moreover obtain p1 where "clear_multiples i (i + i) N primes = Inr p1" "shows_bits p1 N (\<lambda>k. sieved i k \<and> \<not> (i dvd k \<and> i + i \<le> k))"
        using clear_multiples_ok [OF _ i(1) assms less.prems(1), of "i + i"] less.prems(2) by auto
      ultimately show ?thesis using s sieved_step_set [OF less.prems(2) s] by simp
    next
      case False
      then show ?thesis using sieved_step_unset [OF less.prems(2) False] less.prems(1) by (simp add: shows_bits_def)
    qed
    then obtain p1 where p1: "(if sieved i i then rbind (int_arith (i + i)) (\<lambda>j. clear_multiples i j N primes) else Inr primes) = Inr p1"
      "shows_bits p1 N (sieved (i + 1))" by blast
    have "N + 1 - (i + 1) < N + 1 - i" "2 \<le> i + 1" using i(1) less.prems(2) by auto
    moreover have "sieve_loop i N primes = sieve_loop (i + 1) N p1"
      using a True get_ok [OF less.prems(1) i(1)] p1(1) by (subst sieve_loop.simps) simp
    ultimately show ?thesis using less.hyps [OF _ p1(2)] by simp
  qed
qed

lemma count_ok:
  "shows_bits primes N f \<Longrightarrow> \<forall>i \<in> set is. i \<le> N \<Longrightarrow> count_set is primes ans = Inr (ans + of_nat (length (filter f is)))"
  by (induction "is" arbitrary: ans) (auto simp: get_ok)

text \<open>C21: for any bound below \<open>2^30\<close> the sieve stays in its array and within \<open>int\<close>, comes to an end
  and returns the number of primes up to the bound.\<close>

theorem sieve_counts:
  assumes "N < 2 ^ 30"
  shows "\<exists>primes. bench_sieve_run N (bench_sieve_prepare N) ans = Inr (of_nat (card {p. is_prime p \<and> p \<le> N}), primes)
    \<and> shows_bits primes N (\<lambda>p. p < 2 \<or> is_prime p)"
proof -
  have "shows_bits (bench_sieve_prepare N) N (sieved 2)" using prepare_ok [of N] by (simp add: shows_bits_def sieved_def)
  from sieve_loop_ok [OF assms this] obtain primes j where p: "sieve_loop 2 N (bench_sieve_prepare N) = Inr primes"
    "N < j * j" "shows_bits primes N (sieved j)" by auto
  have j: "sieved j k \<longleftrightarrow> is_prime k" if "2 \<le> k" "k \<le> N" for k using sieved_prime [OF that(1)] that(2) p(2) by simp
  have "length (filter (sieved j) [2..<Suc N]) = card (set (filter (sieved j) [2..<Suc N]))" by (metis distinct_card distinct_filter distinct_upt)
  also have "set (filter (sieved j) [2..<Suc N]) = {p. is_prime p \<and> p \<le> N}" using j by (auto simp: is_prime_def)
  finally have "count_set [2..<Suc N] primes 0 = Inr (of_nat (card {p. is_prime p \<and> p \<le> N}))"
    using count_ok [OF p(3), of "[2..<Suc N]" 0] by (simp del: upt_Suc)
  moreover have "sieved j k" if "k < 2" for k using that by (auto simp: sieved_def dest: dvd_imp_le)
  then have "shows_bits primes N (\<lambda>p. p < 2 \<or> is_prime p)" using p(3) j unfolding shows_bits_def by (metis not_less)
  ultimately show ?thesis using p(1) all_set_ok [OF prepare_ok] by (simp add: bench_sieve_run_def del: upt_Suc)
qed

lemma sieve_counts_witness: "\<exists>primes. bench_sieve_run 100 (bench_sieve_prepare 100) 0 = Inr (of_nat (card {p. is_prime p \<and> p \<le> 100}), primes)"
  using sieve_counts [of 100 0] by auto

end
