(* ===== verification/MbFib.thy ===== *)
theory MbFib imports CmMatrix begin

text \<open>
  \<open>am-kernels/benchmarks/microbench/src/fib/fib.c\<close>: a number of a generalised Fibonacci sequence, modulo
  \<open>2^32\<close>, by powers of a matrix.  A matrix is its array, from indices to words; the arrays are blocks of
  their own.
\<close>

section \<open>The functions\<close>

type_synonym fib_mat = "nat \<Rightarrow> u32"

definition fib_mult :: "nat \<Rightarrow> fib_mat \<Rightarrow> fib_mat \<Rightarrow> fib_mat \<Rightarrow> fib_mat" where
  "fib_mult M c a b =
     foldl (\<lambda>c (i, j).
       foldl (\<lambda>c k. c(i * M + j := c (i * M + j) + a (i * M + k) * b (k * M + j))) (c(i * M + j := 0)) [0..<M])
       c (cells M)"

definition fib_assign :: "nat \<Rightarrow> fib_mat \<Rightarrow> fib_mat \<Rightarrow> fib_mat" where
  "fib_assign M a b = foldl (\<lambda>a (i, j). a(i * M + j := b (i * M + j))) a (cells M)"

text \<open>The first loop, on \<open>A\<close>, \<open>T\<close> and \<open>ans\<close>.\<close>

definition fib_init :: "nat \<Rightarrow> fib_mat \<times> fib_mat \<times> fib_mat \<Rightarrow> fib_mat \<times> fib_mat \<times> fib_mat" where
  "fib_init M st =
     foldl (\<lambda>(A, T, ans) (i, j). let x = of_bool (i = M - 1 \<or> j = i + 1)
       in (A(i * M + j := x), T(i * M + j := x), ans(i * M + j := of_bool (i = j)))) st (cells M)"

fun fib_loop :: "nat \<Rightarrow> nat \<Rightarrow> fib_mat \<Rightarrow> fib_mat \<Rightarrow> fib_mat \<Rightarrow> fib_mat" where
  "fib_loop M n tmp ans T =
     (if n > 0 then
        let (tmp, ans) = (if odd n then (let tmp = fib_mult M tmp ans T in (tmp, fib_assign M ans tmp)) else (tmp, ans));
            tmp = fib_mult M tmp T T
        in fib_loop M (n div 2) tmp ans (fib_assign M T tmp)
      else ans)"

declare fib_loop.simps [simp del]

text \<open>\<open>N\<close> is 2147483603; the result is what \<open>bench_fib_validate\<close> compares.\<close>

definition bench_fib_run :: "nat \<Rightarrow> nat \<Rightarrow> fib_mat \<Rightarrow> fib_mat \<Rightarrow> fib_mat \<Rightarrow> fib_mat \<Rightarrow> u32" where
  "bench_fib_run N M A ans T tmp =
     (let (A, T, ans) = fib_init M (A, T, ans); ans = fib_loop M N tmp ans T in ans ((M - 1) * M + (M - 1)))"

section \<open>Matrices\<close>

definition shows_mat :: "nat \<Rightarrow> fib_mat \<Rightarrow> (nat \<Rightarrow> nat \<Rightarrow> u32) \<Rightarrow> bool" where
  "shows_mat M a X \<longleftrightarrow> (\<forall>i < M. \<forall>j < M. a (i * M + j) = X i j)"

definition mmul :: "nat \<Rightarrow> (nat \<Rightarrow> nat \<Rightarrow> u32) \<Rightarrow> (nat \<Rightarrow> nat \<Rightarrow> u32) \<Rightarrow> nat \<Rightarrow> nat \<Rightarrow> u32" where
  "mmul M X Y i j = (\<Sum>k<M. X i k * Y k j)"

fun mpow :: "nat \<Rightarrow> (nat \<Rightarrow> nat \<Rightarrow> u32) \<Rightarrow> nat \<Rightarrow> nat \<Rightarrow> nat \<Rightarrow> u32" where
  "mpow M X 0 = (\<lambda>i j. of_bool (i = j))"
| "mpow M X (Suc n) = mmul M X (mpow M X n)"

lemma mmul_assoc: "mmul M (mmul M X Y) Z = mmul M X (mmul M Y Z)"
proof (intro ext)
  fix i j
  have "(\<Sum>k<M. (\<Sum>l<M. X i l * Y l k) * Z k j) = (\<Sum>k<M. \<Sum>l<M. X i l * (Y l k * Z k j))"
    by (simp add: sum_distrib_right mult.assoc)
  also have "\<dots> = (\<Sum>l<M. X i l * (\<Sum>k<M. Y l k * Z k j))" by (subst sum.swap) (simp add: sum_distrib_left)
  finally show "mmul M (mmul M X Y) Z i j = mmul M X (mmul M Y Z) i j" by (simp add: mmul_def)
qed

lemma mpow_square: "mpow M (mmul M X X) n = mpow M X (2 * n)"
  by (induction n) (simp_all add: mmul_assoc)

lemma mmul_one: "j < M \<Longrightarrow> mmul M X (\<lambda>i j. of_bool (i = j)) i j = X i j"
  by (simp add: mmul_def of_bool_def if_distrib cong: if_cong)

lemma mult_shows:
  assumes "shows_mat M a X" "shows_mat M b Y"
  shows "shows_mat M (fib_mult M c a b) (mmul M X Y)"
proof -
  have e: "fib_mult M c a b = foldl (\<lambda>c p. c(cell M p := (\<lambda>(i, j) _. \<Sum>k<M. a (i * M + k) * b (k * M + j)) p (c (cell M p)))) c (cells M)"
    unfolding fib_mult_def cell_def by (simp add: case_prod_unfold foldl_acc)
  have "fib_mult M c a b (i * M + j) = mmul M X Y i j" if "i < M" "j < M" for i j
    using loop_cell [OF that, of "\<lambda>(i, j) _. \<Sum>k<M. a (i * M + k) * b (k * M + j)" c] assms that
    unfolding e by (simp add: mmul_def shows_mat_def)
  then show ?thesis by (simp add: shows_mat_def)
qed

lemma assign_shows:
  assumes "shows_mat M b X"
  shows "shows_mat M (fib_assign M a b) X"
proof -
  have e: "fib_assign M a b = foldl (\<lambda>c p. c(cell M p := (\<lambda>(i, j) _. b (i * M + j)) p (c (cell M p)))) a (cells M)"
    unfolding fib_assign_def cell_def by (simp add: case_prod_unfold)
  show ?thesis unfolding shows_mat_def e using assms loop_cell [of _ M _ "\<lambda>(i, j) _. b (i * M + j)" a] by (auto simp: shows_mat_def)
qed

lemma loop_shows:
  "shows_mat M ans Y \<Longrightarrow> shows_mat M T X \<Longrightarrow> shows_mat M (fib_loop M n tmp ans T) (mmul M Y (mpow M X n))"
proof (induction n arbitrary: tmp ans T X Y rule: less_induct)
  case (less n)
  show ?case
  proof (cases "n = 0")
    case True
    then show ?thesis using less.prems(1) by (subst fib_loop.simps) (simp add: shows_mat_def mmul_one)
  next
    case False
    define tmp1 where "tmp1 = (if odd n then fib_mult M tmp ans T else tmp)"
    define ans1 where "ans1 = (if odd n then fib_assign M ans tmp1 else ans)"
    let ?Y = "if odd n then mmul M Y X else Y"
    have u: "fib_loop M n tmp ans T = fib_loop M (n div 2) (fib_mult M tmp1 T T) ans1 (fib_assign M T (fib_mult M tmp1 T T))"
      using False by (subst fib_loop.simps) (simp add: tmp1_def ans1_def Let_def)
    have "shows_mat M ans1 ?Y" using mult_shows [OF less.prems] less.prems(1) by (auto simp: ans1_def tmp1_def intro: assign_shows)
    moreover have "shows_mat M (fib_assign M T (fib_mult M tmp1 T T)) (mmul M X X)" by (intro assign_shows mult_shows less.prems(2))
    ultimately have "shows_mat M (fib_loop M (n div 2) (fib_mult M tmp1 T T) ans1 (fib_assign M T (fib_mult M tmp1 T T)))
      (mmul M ?Y (mpow M (mmul M X X) (n div 2)))"
      using less.IH [of "n div 2"] False by simp
    moreover have "mmul M ?Y (mpow M (mmul M X X) (n div 2)) = mmul M Y (mpow M X n)"
    proof (cases "odd n")
      case True
      then have "n = Suc (2 * (n div 2))" by simp
      then have "mpow M X n = mmul M X (mpow M X (2 * (n div 2)))" by (metis mpow.simps(2))
      then show ?thesis using True by (simp add: mmul_assoc mpow_square)
    qed (simp add: mpow_square)
    ultimately show ?thesis unfolding u by simp
  qed
qed

fun gfib :: "nat \<Rightarrow> nat \<Rightarrow> nat" where
  "gfib M n = (if n = 0 then 1 else sum_list (map (\<lambda>k. gfib M (n - k)) [1..<Suc (min M n)]))"

declare gfib.simps [simp del]

section \<open>The sequence\<close>

text \<open>The last column of the powers of the matrix of the program.\<close>

definition fib_mat :: "nat \<Rightarrow> nat \<Rightarrow> nat \<Rightarrow> u32" where
  "fib_mat M i j = of_bool (i = M - 1 \<or> j = i + 1)"

lemma init_shows:
  assumes "fib_init M (A, T, ans) = (A', T', ans')"
  shows "shows_mat M T' (fib_mat M)" "shows_mat M ans' (\<lambda>i j. of_bool (i = j))"
proof -
  have e: "foldl (\<lambda>(A, T, ans) (i, j). let x = of_bool (i = M - 1 \<or> j = i + 1)
       in (A(i * M + j := x), T(i * M + j := x), ans(i * M + j := of_bool (i = j)))) (A, T, ans) ps
    = (foldl (\<lambda>c p. c(cell M p := (\<lambda>(i, j) _. fib_mat M i j) p (c (cell M p)))) A ps,
       foldl (\<lambda>c p. c(cell M p := (\<lambda>(i, j) _. fib_mat M i j) p (c (cell M p)))) T ps,
       foldl (\<lambda>c p. c(cell M p := (\<lambda>(i, j) _. of_bool (i = j)) p (c (cell M p)))) ans ps)" for ps
    by (induction ps arbitrary: A T ans) (auto simp: fib_mat_def cell_def Let_def simp del: fun_upd_apply)
  have "T' (i * M + j) = fib_mat M i j" "ans' (i * M + j) = of_bool (i = j)" if "i < M" "j < M" for i j
    using assms [unfolded fib_init_def e] loop_cell [OF that, of "\<lambda>(i, j) _. fib_mat M i j" T]
      loop_cell [OF that, of "\<lambda>(i, j) _. of_bool (i = j)" ans] by auto
  then show "shows_mat M T' (fib_mat M)" "shows_mat M ans' (\<lambda>i j. of_bool (i = j))" by (simp_all add: shows_mat_def)
qed

lemma gfib_sum: "0 < n \<Longrightarrow> gfib M n = (\<Sum>d | d < M \<and> d < n. gfib M (n - 1 - d))"
proof -
  assume n: "0 < n"
  have "gfib M n = (\<Sum>k \<in> {1..<Suc (min M n)}. gfib M (n - k))"
    using n by (subst gfib.simps) (simp add: sum_list_distinct_conv_sum_set del: upt_Suc)
  also have "\<dots> = (\<Sum>d | d < M \<and> d < n. gfib M (n - 1 - d))"
    by (rule sum.reindex_bij_witness [of _ Suc "\<lambda>k. k - 1"]) auto
  finally show ?thesis .
qed

lemma power_column:
  assumes "0 < M"
  shows "i < M \<Longrightarrow> mpow M (fib_mat M) n i (M - 1) = (if M - 1 - i \<le> n then of_nat (gfib M (n - (M - 1 - i))) else 0)"
proof (induction n arbitrary: i)
  case 0
  then show ?case by (auto simp: gfib.simps)
next
  case (Suc n)
  let ?v = "\<lambda>k. mpow M (fib_mat M) n k (M - 1)"
  show ?case
  proof (cases "i = M - 1")
    case True
    have "mpow M (fib_mat M) (Suc n) i (M - 1) = (\<Sum>k<M. ?v k)" using True by (simp add: mmul_def fib_mat_def)
    also have "\<dots> = (\<Sum>k<M. if M - 1 - k \<le> n then of_nat (gfib M (n - (M - 1 - k))) else 0)" by (rule sum.cong) (use Suc.IH in auto)
    also have "\<dots> = (\<Sum>d<M. if d \<le> n then of_nat (gfib M (n - d)) else 0)"
      by (rule sum.reindex_bij_witness [of _ "\<lambda>k. M - 1 - k" "\<lambda>k. M - 1 - k"]) auto
    also have "\<dots> = (\<Sum>d | d < M \<and> d < Suc n. of_nat (gfib M (n - d)))"
      by (rule sum.mono_neutral_cong_right) auto
    finally show ?thesis using True by (simp add: gfib_sum)
  next
    case False
    then have "mpow M (fib_mat M) (Suc n) i (M - 1) = (\<Sum>k<M. if k = i + 1 then ?v k else 0)"
      using Suc.prems unfolding mpow.simps mmul_def fib_mat_def by (intro sum.cong) auto
    moreover have i: "i + 1 < M" using False Suc.prems by simp
    ultimately have "mpow M (fib_mat M) (Suc n) i (M - 1) = ?v (i + 1)" by (simp del: mpow.simps)
    moreover have "M - 1 - (i + 1) \<le> n \<longleftrightarrow> M - 1 - i \<le> Suc n" "n - (M - 1 - (i + 1)) = Suc n - (M - 1 - i)" using i by auto
    ultimately show ?thesis using Suc.IH [OF i] by simp
  qed
qed

text \<open>C23: the benchmark returns, modulo \<open>2^32\<close>, the \<open>N\<close>-th number of the sequence that starts with one and
  goes on with the sum of the \<open>M\<close> numbers before, whatever was in its arrays.\<close>

theorem fib_correct:
  assumes "0 < M"
  shows "bench_fib_run N M A ans T tmp = of_nat (gfib M N)"
proof -
  obtain A' T' ans' where i: "fib_init M (A, T, ans) = (A', T', ans')" by (cases "fib_init M (A, T, ans)")
  have "shows_mat M (fib_loop M N tmp ans' T') (mmul M (\<lambda>i j. of_bool (i = j)) (mpow M (fib_mat M) N))"
    by (rule loop_shows [OF init_shows(2,1) [OF i]])
  moreover have "mmul M (\<lambda>i j. of_bool (i = j)) X (M - 1) (M - 1) = X (M - 1) (M - 1)" for X
    using assms by (simp add: mmul_def of_bool_def if_distrib [of "\<lambda>x. x * _"] cong: if_cong)
  moreover have "M - 1 < M" using assms by simp
  ultimately have "fib_loop M N tmp ans' T' ((M - 1) * M + (M - 1)) = mpow M (fib_mat M) N (M - 1) (M - 1)"
    unfolding shows_mat_def by metis
  also have "\<dots> = of_nat (gfib M N)" using power_column [OF assms, of "M - 1" N] assms by simp
  finally show ?thesis using i by (simp add: bench_fib_run_def)
qed

text \<open>The Fibonacci number 55.\<close>

lemma fib_correct_witness: "bench_fib_run 9 2 (\<lambda>_. 0) (\<lambda>_. 0) (\<lambda>_. 0) (\<lambda>_. 0) = 55"
proof -
  have "gfib 2 9 = 55" by (simp add: gfib.simps upt_rec)
  with fib_correct [of 2 9 "\<lambda>_. 0" "\<lambda>_. 0" "\<lambda>_. 0" "\<lambda>_. 0"] show ?thesis by simp
qed

end
