(* ===== verification/MbBf.thy ===== *)
theory MbBf imports Prelude begin

text \<open>
  \<open>am-kernels/benchmarks/microbench/src/bf/bf.c\<close>: a compiler and an interpreter for a language of eight
  commands.  \<open>PROGRAM\<close> and \<open>data\<close> are lists of their sizes, \<open>STACK\<close> is the list of its \<open>SP\<close> entries, the
  last one first.
\<close>

section \<open>The functions\<close>

datatype operator =
    OP_END | OP_INC_DP | OP_DEC_DP | OP_INC_VAL | OP_DEC_VAL | OP_OUT | OP_IN | OP_JMP_FWD | OP_JMP_BCK

type_synonym program = "(operator \<times> nat) list"

definition plain_op :: "char \<Rightarrow> operator option" where
  "plain_op c = map_of [(CHR ''>'', OP_INC_DP), (CHR ''<'', OP_DEC_DP), (CHR ''+'', OP_INC_VAL), (CHR ''-'', OP_DEC_VAL),
     (CHR ''.'', OP_OUT), (CHR '','', OP_IN)] c"

definition set_operator :: "nat \<Rightarrow> operator \<Rightarrow> program \<Rightarrow> program" where
  "set_operator pc oper P = P[pc := (oper, snd (P ! pc))]"

text \<open>What follows the loop: whether it is a \<open>SUCCESS\<close>, and the program.\<close>

definition compile_end :: "nat \<Rightarrow> nat list \<Rightarrow> program \<Rightarrow> bool \<times> program" where
  "compile_end pc STACK P = (if STACK \<noteq> [] \<or> pc = 4096 then (False, P) else (True, set_operator pc OP_END P))"

fun compile_loop :: "string \<Rightarrow> nat \<Rightarrow> nat list \<Rightarrow> program \<Rightarrow> bool \<times> program" where
  "compile_loop [] pc STACK P = compile_end pc STACK P"
| "compile_loop (c # code) pc STACK P =
     (if pc \<ge> 4096 then compile_end pc STACK P
      else case plain_op c of Some oper \<Rightarrow> compile_loop code (pc + 1) STACK (set_operator pc oper P)
      | None \<Rightarrow>
          if c = CHR ''['' then
            (let P = set_operator pc OP_JMP_FWD P
             in if length STACK = 512 then (False, P) else compile_loop code (pc + 1) (pc # STACK) P)
          else if c = CHR '']'' then
            (case STACK of [] \<Rightarrow> (False, P)
             | jmp_pc # STACK \<Rightarrow>
                 (let P = P[pc := (OP_JMP_BCK, jmp_pc)]; P = P[jmp_pc := (fst (P ! jmp_pc), pc)]
                  in compile_loop code (pc + 1) STACK P))
          else compile_loop code pc STACK P)"

definition compile_bf :: "string \<Rightarrow> program \<Rightarrow> bool \<times> program" where
  "compile_bf code P = compile_loop code 0 [] P"

record machine =
  ptr :: u32
  dat :: "u16 list"
  inp :: "u8 list"
  outp :: "u8 list"

definition cur :: "machine \<Rightarrow> u16" where
  "cur s = dat s ! unat (ptr s)"

text \<open>A command that is no jump.  The output has \<open>DATA_SIZE\<close> bytes; \<open>inp\<close> is what is left of the input.\<close>

definition command :: "operator \<Rightarrow> machine \<Rightarrow> abort + machine" where
  "command oper s =
     (case oper of
        OP_INC_DP \<Rightarrow> Inr (s\<lparr>ptr := ptr s + 1\<rparr>)
      | OP_DEC_DP \<Rightarrow> Inr (s\<lparr>ptr := ptr s - 1\<rparr>)
      | OP_INC_VAL \<Rightarrow> Inr (s\<lparr>dat := (dat s)[unat (ptr s) := cur s + 1]\<rparr>)
      | OP_DEC_VAL \<Rightarrow> Inr (s\<lparr>dat := (dat s)[unat (ptr s) := cur s - 1]\<rparr>)
      | OP_OUT \<Rightarrow> if length (outp s) < 4096 then Inr (s\<lparr>outp := outp s @ [ucast (cur s)]\<rparr>) else Inl OutOfBounds
      | OP_IN \<Rightarrow> (case inp s of [] \<Rightarrow> Inl OutOfBounds
                 | b # bs \<Rightarrow> Inr (s\<lparr>dat := (dat s)[unat (ptr s) := scast b], inp := bs\<rparr>))
      | _ \<Rightarrow> Inr s)"

partial_function (option) execute_bf :: "program \<Rightarrow> nat \<Rightarrow> machine \<Rightarrow> (abort + machine) option" where
  "execute_bf P pc s =
     (if length P \<le> pc then Some (Inl OutOfBounds)
      else case P ! pc of (oper, operand) \<Rightarrow>
        if oper = OP_END \<or> \<not> ptr s < 4096 then Some (Inr s)
        else if oper = OP_JMP_FWD then execute_bf P ((if cur s = 0 then operand else pc) + 1) s
        else if oper = OP_JMP_BCK then execute_bf P ((if cur s \<noteq> 0 then operand else pc) + 1) s
        else (case command oper s of Inl e \<Rightarrow> Some (Inl e) | Inr s \<Rightarrow> execute_bf P (pc + 1) s))"

text \<open>The result of the compiler is not looked at.\<close>

definition bench_bf_run :: "string \<Rightarrow> program \<Rightarrow> machine \<Rightarrow> (abort + machine) option" where
  "bench_bf_run code P s = (let (_, P) = compile_bf code P in execute_bf P 0 (s\<lparr>ptr := 0\<rparr>))"

section \<open>Structured programs\<close>

datatype bf = Skip | Op operator bf | Loop bf bf

fun wf_bf :: "bf \<Rightarrow> bool" where
  "wf_bf Skip \<longleftrightarrow> True"
| "wf_bf (Op oper r) \<longleftrightarrow> oper \<in> {OP_INC_DP, OP_DEC_DP, OP_INC_VAL, OP_DEC_VAL, OP_OUT, OP_IN} \<and> wf_bf r"
| "wf_bf (Loop b r) \<longleftrightarrow> wf_bf b \<and> wf_bf r"

fun op_char :: "operator \<Rightarrow> char" where
  "op_char OP_INC_DP = CHR ''>''"
| "op_char OP_DEC_DP = CHR ''<''"
| "op_char OP_INC_VAL = CHR ''+''"
| "op_char OP_DEC_VAL = CHR ''-''"
| "op_char OP_OUT = CHR ''.''"
| "op_char _ = CHR '',''"

fun render_bf :: "bf \<Rightarrow> string" where
  "render_bf Skip = []"
| "render_bf (Op oper r) = op_char oper # render_bf r"
| "render_bf (Loop b r) = CHR ''['' # render_bf b @ CHR '']'' # render_bf r"

fun len_bf :: "bf \<Rightarrow> nat" where
  "len_bf Skip = 0"
| "len_bf (Op oper r) = 1 + len_bf r"
| "len_bf (Loop b r) = 2 + len_bf b + len_bf r"

fun depth_bf :: "bf \<Rightarrow> nat" where
  "depth_bf Skip = 0"
| "depth_bf (Op oper r) = depth_bf r"
| "depth_bf (Loop b r) = max (1 + depth_bf b) (depth_bf r)"

text \<open>The code of a program at \<open>pc\<close>, with the operands of its jumps.\<close>

fun holds_bf :: "program \<Rightarrow> nat \<Rightarrow> bf \<Rightarrow> bool" where
  "holds_bf P pc Skip \<longleftrightarrow> True"
| "holds_bf P pc (Op oper r) \<longleftrightarrow> fst (P ! pc) = oper \<and> holds_bf P (pc + 1) r"
| "holds_bf P pc (Loop b r) \<longleftrightarrow> P ! pc = (OP_JMP_FWD, pc + 1 + len_bf b) \<and> holds_bf P (pc + 1) b
     \<and> P ! (pc + 1 + len_bf b) = (OP_JMP_BCK, pc) \<and> holds_bf P (pc + 2 + len_bf b) r"

lemma holds_cong: "(\<And>i. pc \<le> i \<Longrightarrow> i < pc + len_bf p \<Longrightarrow> P' ! i = P ! i) \<Longrightarrow> holds_bf P' pc p = holds_bf P pc p"
  by (induction p arbitrary: pc) auto

lemma compile_ok:
  assumes "wf_bf p" "pc + len_bf p < 4096" "length STACK + depth_bf p \<le> 512" "length P = 4096"
  shows "\<exists>P'. (\<forall>code. compile_loop (render_bf p @ code) pc STACK P = compile_loop code (pc + len_bf p) STACK P')
    \<and> length P' = 4096 \<and> holds_bf P' pc p \<and> (\<forall>i. i < pc \<or> pc + len_bf p \<le> i \<longrightarrow> P' ! i = P ! i)"
  using assms
proof (induction p arbitrary: pc STACK P)
  case Skip
  then show ?case by auto
next
  case (Op oper r)
  let ?P = "set_operator pc oper P"
  have "plain_op (op_char oper) = Some oper" using Op.prems(1) by (auto simp: plain_op_def)
  then have s: "compile_loop (render_bf (Op oper r) @ code) pc STACK P = compile_loop (render_bf r @ code) (pc + 1) STACK ?P" for code
    using Op.prems(2) by simp
  obtain P' where P': "\<forall>code. compile_loop (render_bf r @ code) (pc + 1) STACK ?P = compile_loop code (pc + 1 + len_bf r) STACK P'"
    "length P' = 4096" "holds_bf P' (pc + 1) r" "\<forall>i. i < pc + 1 \<or> pc + 1 + len_bf r \<le> i \<longrightarrow> P' ! i = ?P ! i"
    using Op.IH [of "pc + 1" STACK ?P] Op.prems by (auto simp: set_operator_def)
  have "fst (P' ! pc) = oper" using P'(4) Op.prems(2,4) by (simp add: set_operator_def)
  moreover have "\<forall>i. i < pc \<or> pc + len_bf (Op oper r) \<le> i \<longrightarrow> P' ! i = P ! i" using P'(4) by (auto simp: set_operator_def)
  ultimately show ?case using P'(1-3) s by (intro exI [of _ P']) simp
next
  case (Loop b r)
  let ?P1 = "set_operator pc OP_JMP_FWD P" and ?q = "pc + 1 + len_bf b"
  have d: "Suc (length STACK) + depth_bf b \<le> 512" "length STACK + depth_bf r \<le> 512"
    using Loop.prems(3) by (auto simp: max_def split: if_splits)
  have s: "compile_loop (render_bf (Loop b r) @ code) pc STACK P
      = compile_loop (render_bf b @ CHR '']'' # render_bf r @ code) (pc + 1) (pc # STACK) ?P1" for code
  proof -
    have "length STACK \<noteq> 512" "\<not> 4096 \<le> pc" using Loop.prems(2) d by auto
    then show ?thesis by (simp add: plain_op_def)
  qed
  obtain P2 where P2: "\<forall>code. compile_loop (render_bf b @ code) (pc + 1) (pc # STACK) ?P1 = compile_loop code ?q (pc # STACK) P2"
    "length P2 = 4096" "holds_bf P2 (pc + 1) b" "\<forall>i. i < pc + 1 \<or> ?q \<le> i \<longrightarrow> P2 ! i = ?P1 ! i"
    using Loop.IH(1) [of "pc + 1" "pc # STACK" ?P1] Loop.prems(1,2,4) d by (auto simp: set_operator_def)
  define P4 where "P4 = P2[?q := (OP_JMP_BCK, pc), pc := (OP_JMP_FWD, ?q)]"
  have "fst (P2 ! pc) = OP_JMP_FWD" using P2(4) Loop.prems(2,4) by (simp add: set_operator_def)
  then have c: "compile_loop (CHR '']'' # code) ?q (pc # STACK) P2 = compile_loop code (?q + 1) STACK P4" for code
    using Loop.prems(2) by (simp add: plain_op_def P4_def)
  obtain P' where P': "\<forall>code. compile_loop (render_bf r @ code) (?q + 1) STACK P4 = compile_loop code (?q + 1 + len_bf r) STACK P'"
    "length P' = 4096" "holds_bf P' (?q + 1) r" "\<forall>i. i < ?q + 1 \<or> ?q + 1 + len_bf r \<le> i \<longrightarrow> P' ! i = P4 ! i"
    using Loop.IH(2) [of "?q + 1" STACK P4] Loop.prems(1,2,4) d P2(2) by (auto simp: P4_def)
  have low: "P' ! i = P4 ! i" if "i < ?q + 1" for i using P'(4) that by blast
  have "holds_bf P' (pc + 1) b = holds_bf P2 (pc + 1) b" by (rule holds_cong) (auto simp: low P4_def)
  moreover have "P' ! pc = (OP_JMP_FWD, ?q)" "P' ! ?q = (OP_JMP_BCK, pc)"
    using Loop.prems(2) P2(2) by (simp_all add: low P4_def)
  moreover have "P' ! i = P ! i" if "i < pc \<or> pc + len_bf (Loop b r) \<le> i" for i
    using P'(4) P2(4) that by (auto simp: P4_def set_operator_def)
  moreover have "compile_loop (render_bf (Loop b r) @ code) pc STACK P = compile_loop code (pc + len_bf (Loop b r)) STACK P'" for code
    unfolding s P2(1) [rule_format] c P'(1) [rule_format] by (simp add: add_ac)
  ultimately show ?case using P'(2,3) P2(3) by (intro exI [of _ P']) (simp del: compile_loop.simps)
qed

text \<open>A character that is no command is a comment.\<close>

lemma compile_comments: "compile_loop (filter (\<lambda>c. c \<in> set ''><+-.,[]'') code) pc STACK P = compile_loop code pc STACK P"
proof (induction code arbitrary: pc STACK P)
  case (Cons c code)
  show ?case
  proof (cases "c \<in> set ''><+-.,[]''")
    case True
    have f: "filter (\<lambda>c. c \<in> set ''><+-.,[]'') (c # code) = c # filter (\<lambda>c. c \<in> set ''><+-.,[]'') code" using True by simp
    show ?thesis unfolding f compile_loop.simps Cons.IH ..
  next
    case False
    have f: "filter (\<lambda>c. c \<in> set ''><+-.,[]'') (c # code) = filter (\<lambda>c. c \<in> set ''><+-.,[]'') code" using False by simp
    have full: "4096 \<le> pc \<Longrightarrow> compile_loop code pc STACK P = compile_end pc STACK P" by (cases code) simp_all
    have "plain_op c = None" using False by (auto simp: plain_op_def)
    then show ?thesis unfolding f Cons.IH using False full by simp
  qed
qed simp

section \<open>The meaning of a structured program\<close>

text \<open>
  A program goes on after its last command, or stops where the data pointer has left the data, or
  does an access outside the input or the output.
\<close>

datatype outcome = Go machine | Stop machine | Fail abort

inductive bf_runs :: "bf \<Rightarrow> machine \<Rightarrow> outcome \<Rightarrow> bool" where
  Done: "bf_runs Skip s (Go s)"
| Left: "p \<noteq> Skip \<Longrightarrow> \<not> ptr s < 4096 \<Longrightarrow> bf_runs p s (Stop s)"
| OpGo: "ptr s < 4096 \<Longrightarrow> command oper s = Inr s' \<Longrightarrow> bf_runs r s' t \<Longrightarrow> bf_runs (Op oper r) s t"
| OpFail: "ptr s < 4096 \<Longrightarrow> command oper s = Inl e \<Longrightarrow> bf_runs (Op oper r) s (Fail e)"
| LoopExit: "ptr s < 4096 \<Longrightarrow> cur s = 0 \<Longrightarrow> bf_runs r s t \<Longrightarrow> bf_runs (Loop b r) s t"
| LoopGo: "ptr s < 4096 \<Longrightarrow> cur s \<noteq> 0 \<Longrightarrow> bf_runs b s (Go s') \<Longrightarrow> bf_runs (Loop b r) s' t \<Longrightarrow> bf_runs (Loop b r) s t"
| LoopStop: "ptr s < 4096 \<Longrightarrow> cur s \<noteq> 0 \<Longrightarrow> bf_runs b s (Stop s') \<Longrightarrow> bf_runs (Loop b r) s (Stop s')"
| LoopFail: "ptr s < 4096 \<Longrightarrow> cur s \<noteq> 0 \<Longrightarrow> bf_runs b s (Fail e) \<Longrightarrow> bf_runs (Loop b r) s (Fail e)"

fun continue_bf :: "program \<Rightarrow> nat \<Rightarrow> outcome \<Rightarrow> (abort + machine) option" where
  "continue_bf P pc (Go s) = execute_bf P pc s"
| "continue_bf P pc (Stop s) = Some (Inr s)"
| "continue_bf P pc (Fail e) = Some (Inl e)"

fun result_bf :: "outcome \<Rightarrow> abort + machine" where
  "result_bf (Go s) = Inr s"
| "result_bf (Stop s) = Inr s"
| "result_bf (Fail e) = Inl e"

text \<open>The two jumps of a loop test the same cell, so the closing one can be read as the opening one.\<close>

lemma closing_bracket:
  assumes "P ! pc = (OP_JMP_FWD, q)" "P ! q = (OP_JMP_BCK, pc)" "pc < length P" "q < length P"
  shows "execute_bf P q s = execute_bf P pc s"
  using assms(3,4) by (subst (1 2) execute_bf.simps) (simp add: assms(1,2))

lemma execute_ok:
  assumes "bf_runs p s t" "wf_bf p" "holds_bf P pc p" "pc + len_bf p < length P"
  shows "execute_bf P pc s = continue_bf P (pc + len_bf p) t"
  using assms
proof (induction arbitrary: pc rule: bf_runs.induct)
  case (Left p s)
  then show ?case by (subst execute_bf.simps) (cases p; auto split: prod.splits)
next
  case (OpGo s oper s' r t)
  then show ?case by (subst execute_bf.simps) (cases "P ! pc"; auto)
next
  case (OpFail s oper e r)
  then show ?case by (subst execute_bf.simps) (cases "P ! pc"; auto)
next
  case (LoopExit s r t b)
  have "execute_bf P pc s = execute_bf P (pc + 2 + len_bf b) s"
    using LoopExit.hyps LoopExit.prems by (subst execute_bf.simps) (simp add: add.commute)
  then show ?case using LoopExit.IH [of "pc + 2 + len_bf b"] LoopExit.prems by (simp add: add_ac)
next
  case (LoopGo s b s' r t)
  have "execute_bf P pc s = execute_bf P (pc + 1) s"
    using LoopGo.hyps LoopGo.prems by (subst execute_bf.simps) simp
  also have "\<dots> = execute_bf P (pc + 1 + len_bf b) s'" using LoopGo.IH(1) [of "pc + 1"] LoopGo.prems by simp
  also have "\<dots> = execute_bf P pc s'" using LoopGo.prems by (intro closing_bracket) auto
  finally show ?case using LoopGo.IH(2) [of pc] LoopGo.prems by simp
next
  case (LoopStop s b s' r)
  have "execute_bf P pc s = execute_bf P (pc + 1) s"
    using LoopStop.hyps LoopStop.prems by (subst execute_bf.simps) simp
  then show ?case using LoopStop.IH [of "pc + 1"] LoopStop.prems by simp
next
  case (LoopFail s b e r)
  have "execute_bf P pc s = execute_bf P (pc + 1) s"
    using LoopFail.hyps LoopFail.prems by (subst execute_bf.simps) simp
  then show ?case using LoopFail.IH [of "pc + 1"] LoopFail.prems by simp
qed simp

lemma compile_bf_ok:
  assumes "wf_bf p" "len_bf p < 4096" "depth_bf p \<le> 512" "length P = 4096"
    and code: "filter (\<lambda>c. c \<in> set ''><+-.,[]'') code = render_bf p"
  shows "\<exists>P'. compile_bf code P = (True, P') \<and> length P' = 4096 \<and> holds_bf P' 0 p \<and> fst (P' ! len_bf p) = OP_END"
proof -
  obtain P1 where P1: "\<forall>code. compile_loop (render_bf p @ code) 0 [] P = compile_loop code (0 + len_bf p) [] P1"
    "length P1 = 4096" "holds_bf P1 0 p"
    using compile_ok [of p 0 "[]" P] assms by auto
  have "compile_bf code P = compile_loop (render_bf p) 0 [] P" unfolding compile_bf_def code [symmetric] compile_comments ..
  also have "\<dots> = compile_end (len_bf p) [] P1" using P1(1) [rule_format, of "[]"] by simp
  also have "\<dots> = (True, set_operator (len_bf p) OP_END P1)" using assms(2) by (simp add: compile_end_def)
  finally have c: "compile_bf code P = (True, set_operator (len_bf p) OP_END P1)" .
  have "holds_bf (set_operator (len_bf p) OP_END P1) 0 p = holds_bf P1 0 p"
    by (rule holds_cong) (simp add: set_operator_def)
  then show ?thesis using c P1 assms(2) by (simp add: set_operator_def)
qed

text \<open>C13: The compiler and the interpreter implement the meaning of the program: for a source that is, up to
  comments, the text of a structured program short and flat enough for the tables, whenever the big-step
  semantics of the program gives an outcome (the end, the data pointer outside the data, or an access outside
  the input or output), compiling and interpreting give that outcome.\<close>

theorem bf_correct:
  assumes "wf_bf p" "len_bf p < 4096" "depth_bf p \<le> 512" "length P = 4096"
    and "filter (\<lambda>c. c \<in> set ''><+-.,[]'') code = render_bf p" and "bf_runs p (s\<lparr>ptr := 0\<rparr>) t"
  shows "bench_bf_run code P s = Some (result_bf t)"
proof -
  obtain P' where P': "compile_bf code P = (True, P')" "length P' = 4096" "holds_bf P' 0 p" "fst (P' ! len_bf p) = OP_END"
    using compile_bf_ok assms by blast
  have "execute_bf P' (len_bf p) s' = Some (Inr s')" for s'
    using P'(2,4) assms(2) by (subst execute_bf.simps) (auto split: prod.splits)
  then have "continue_bf P' (len_bf p) t = Some (result_bf t)" by (cases t) auto
  then show ?thesis using execute_ok [of p "s\<lparr>ptr := 0\<rparr>" t P' 0] assms P' by (simp add: bench_bf_run_def)
qed

definition tape :: "u16 \<Rightarrow> machine" where
  "tape v = \<lparr>ptr = 0, dat = (replicate 4096 0)[0 := v], inp = [], outp = []\<rparr>"

lemma cur_tape: "cur (tape v) = v" by (simp add: tape_def cur_def)

lemma command_tape: "command OP_DEC_VAL (tape v) = Inr (tape (v - 1))"
  by (simp add: tape_def command_def cur_def)

lemma loop_tape: "bf_runs (Loop (Op OP_DEC_VAL Skip) Skip) (tape 2) (Go (tape 0))"
proof -
  have p: "ptr (tape v) < 4096" for v by (simp add: tape_def)
  have body: "bf_runs (Op OP_DEC_VAL Skip) (tape v) (Go (tape (v - 1)))" for v
    by (rule bf_runs.OpGo [OF p command_tape bf_runs.Done])
  have "bf_runs (Loop (Op OP_DEC_VAL Skip) Skip) (tape 0) (Go (tape 0))"
    by (rule bf_runs.LoopExit [OF p _ bf_runs.Done]) (simp add: cur_tape)
  then have "bf_runs (Loop (Op OP_DEC_VAL Skip) Skip) (tape 1) (Go (tape 0))"
    using bf_runs.LoopGo [OF p _ body, of 1] by (simp add: cur_tape)
  then show ?thesis using bf_runs.LoopGo [OF p _ body, of 2] by (simp add: cur_tape)
qed

theorem bf_correct_witness:
  "bench_bf_run ''[ - ]'' (replicate 4096 (OP_END, 0)) (tape 2) = Some (Inr (tape 0))"
proof -
  have "(tape 2)\<lparr>ptr := 0\<rparr> = tape 2" by (simp add: tape_def)
  then show ?thesis
    using bf_correct [of "Loop (Op OP_DEC_VAL Skip) Skip" "replicate 4096 (OP_END, 0)" "''[ - ]''" "tape 2" "Go (tape 0)"] loop_tape
    by simp
qed

end
