(* ===== verification/Blocks.thy ===== *)
theory Blocks imports Prelude begin

text \<open>
  What the digests share: a list cut into blocks of a size, the gap that pads a message to 56 bytes modulo 64,
  and four bytes as a word.
\<close>

unbundle bit_operations_syntax

section \<open>Blocks\<close>

function blocks :: "nat \<Rightarrow> 'a list \<Rightarrow> 'a list list" where
  "blocks n xs = (if n = 0 \<or> length xs < n then [] else take n xs # blocks n (drop n xs))"
  by pat_completeness auto

termination
  by (relation "measure (\<lambda>(n, xs). length xs)") auto

declare blocks.simps [simp del]

lemma nth_blocks: "0 < n \<Longrightarrow> (i + 1) * n \<le> length xs \<Longrightarrow> blocks n xs ! i = take n (drop (i * n) xs)"
proof (induction n xs arbitrary: i rule: blocks.induct)
  case (1 n xs)
  then have "n \<le> length xs" by (metis add_leD2 le_trans mult.commute mult_Suc_right Suc_eq_plus1 le_add1)
  with 1 show ?case by (cases i) (auto simp: blocks.simps [of n xs] add.commute drop_drop)
qed

lemma length_blocks: "0 < n \<Longrightarrow> length (blocks n xs) = length xs div n"
proof (induction n xs rule: blocks.induct)
  case (1 n xs)
  then show ?case by (cases "length xs < n") (auto simp: blocks.simps [of n xs] le_div_geq)
qed

lemma blocks_short: "length xs < n \<Longrightarrow> blocks n xs = []"
  by (simp add: blocks.simps [of n xs])

lemma blocks_append: "0 < n \<Longrightarrow> length xs mod n = 0 \<Longrightarrow> blocks n (xs @ ys) = blocks n xs @ blocks n ys"
proof (induction n xs rule: blocks.induct)
  case (1 n xs)
  show ?case
  proof (cases "length xs < n")
    case True
    then have "xs = []" using "1.prems"(2) by simp
    then show ?thesis using True by (simp add: blocks_short)
  next
    case False
    then have "length (drop n xs) mod n = 0" using "1.prems" le_mod_geq [of n "length xs"] by simp
    then show ?thesis using False "1.IH" "1.prems"(1) by (simp add: blocks.simps [of n xs] blocks.simps [of n "xs @ ys"])
  qed
qed

lemma blocks_rest: "0 < n \<Longrightarrow> length xs mod n = 0 \<Longrightarrow> length ys < n \<Longrightarrow> blocks n (xs @ ys) = blocks n xs"
  by (simp add: blocks_append blocks_short)

lemma blocks_take: "0 < n \<Longrightarrow> blocks n (take (n * (length xs div n)) xs) = blocks n xs"
proof -
  assume n: "0 < n"
  have "n * (length xs div n) \<le> length xs" by simp
  then have "length (take (n * (length xs div n)) xs) = n * (length xs div n)" by simp
  moreover have "length (drop (n * (length xs div n)) xs) < n" using n by (simp add: minus_mult_div_eq_mod)
  ultimately show ?thesis using blocks_rest [OF n, of "take (n * (length xs div n)) xs" "drop (n * (length xs div n)) xs"] by simp
qed

section \<open>The padding\<close>

definition gap :: "nat \<Rightarrow> nat" where
  "gap n = (120 - n mod 64) mod 64"

lemma mod_56: "(x + gap x) mod 64 = 56"
proof -
  define q r where "q = x div 64" and "r = x mod 64"
  have x: "x = 64 * q + r" "r < 64" by (simp_all add: q_def r_def)
  have "x + (120 - r) mod 64 = 56 + 64 * (if r \<le> 56 then q else q + 1)"
  proof (cases "r \<le> 56")
    case True
    then have e: "120 - r = 64 + (56 - r)" by linarith
    have "(120 - r) mod 64 = 56 - r" unfolding e mod_add_self1 by simp
    then show ?thesis using True x by simp
  next
    case False
    then have "(120 - r) mod 64 = 120 - r" by (intro mod_less) linarith
    then show ?thesis using False x by simp
  qed
  then have "(x + gap x) mod 64 = (56 + 64 * (if r \<le> 56 then q else q + 1)) mod 64" unfolding gap_def r_def by (rule arg_cong)
  also have "\<dots> = 56" unfolding mod_mult_self2 by simp
  finally show ?thesis .
qed

lemma gap_next: "gap (n + 1) = (if n mod 64 \<le> 55 then 55 - n mod 64 else 119 - n mod 64)"
proof -
  define r where "r = n mod 64"
  have r: "r < 64" "(n + 1) mod 64 = (if r = 63 then 0 else r + 1)" by (auto simp: r_def mod_Suc)
  show ?thesis
  proof (cases "r \<le> 55")
    case True
    then have e: "120 - (r + 1) = 64 + (55 - r)" by linarith
    have "(120 - (r + 1)) mod 64 = 55 - r" unfolding e mod_add_self1 by simp
    then show ?thesis using True r unfolding gap_def r_def [symmetric] by simp
  next
    case False
    then show ?thesis using r unfolding gap_def r_def [symmetric] by (cases "r = 63") auto
  qed
qed

section \<open>Bytes and words\<close>

lemma shift_or: "ucast a OR push_bit 8 x = ucast a + 256 * x" for a :: u8 and x :: u32
proof -
  have "ucast a + push_bit 8 x = ucast a OR push_bit 8 x"
    by (rule disjunctive_add) (auto simp: bit_push_bit_iff bit_ucast_iff dest: bit_imp_le_length)
  then show ?thesis by (simp add: push_bit_eq_mult mult.commute)
qed
lemma le4: "ucast a OR push_bit 8 (ucast b) OR push_bit 16 (ucast c) OR push_bit 24 (ucast d) = (of_nat (unat a + 256 * (unat b + 256 * (unat c + 256 * unat d))) :: u32)" for a b c d :: u8
proof -
  have "ucast a OR push_bit 8 (ucast b) OR push_bit 16 (ucast c) OR push_bit 24 (ucast d)
     = ucast a OR push_bit 8 (ucast b OR push_bit 8 (ucast c OR push_bit 8 (ucast d :: u32)))"
    by (simp add: push_bit_or or.assoc)
  also have "\<dots> = ucast a + 256 * (ucast b + 256 * (ucast c + 256 * ucast d))" by (simp only: shift_or)
  finally show ?thesis by simp
qed

lemma low_byte: "ucast (drop_bit j v) = (of_nat (unat v div 2 ^ j) :: u8)" for v :: u32
  by (rule word_unat_eq_iff [THEN iffD2]) (simp add: unsigned_of_nat unsigned_ucast_eq flip: drop_bit_eq_div unat_drop_bit_eq)

end
