(* ===== verification/MbMd5.thy ===== *)
theory MbMd5 imports Blocks begin

text \<open>
  \<open>am-kernels/benchmarks/microbench/src/md5/md5.c\<close>: the MD5 digest.  \<open>msg\<close> is the memory from the message on, as
  bytes: the code pads the message in place, behind its end.  An access beyond this memory is \<open>OutOfBounds\<close>;
  \<open>size_t\<close> has 32 bits, as on the target.
\<close>

unbundle bit_operations_syntax

section \<open>The functions\<close>

definition md5_k :: "u32 list" where
  "md5_k = [
    0xd76aa478, 0xe8c7b756, 0x242070db, 0xc1bdceee, 0xf57c0faf, 0x4787c62a, 0xa8304613, 0xfd469501,
    0x698098d8, 0x8b44f7af, 0xffff5bb1, 0x895cd7be, 0x6b901122, 0xfd987193, 0xa679438e, 0x49b40821,
    0xf61e2562, 0xc040b340, 0x265e5a51, 0xe9b6c7aa, 0xd62f105d, 0x02441453, 0xd8a1e681, 0xe7d3fbc8,
    0x21e1cde6, 0xc33707d6, 0xf4d50d87, 0x455a14ed, 0xa9e3e905, 0xfcefa3f8, 0x676f02d9, 0x8d2a4c8a,
    0xfffa3942, 0x8771f681, 0x6d9d6122, 0xfde5380c, 0xa4beea44, 0x4bdecfa9, 0xf6bb4b60, 0xbebfbc70,
    0x289b7ec6, 0xeaa127fa, 0xd4ef3085, 0x04881d05, 0xd9d4d039, 0xe6db99e5, 0x1fa27cf8, 0xc4ac5665,
    0xf4292244, 0x432aff97, 0xab9423a7, 0xfc93a039, 0x655b59c3, 0x8f0ccc92, 0xffeff47d, 0x85845dd1,
    0x6fa87e4f, 0xfe2ce6e0, 0xa3014314, 0x4e0811a1, 0xf7537e82, 0xbd3af235, 0x2ad7d2bb, 0xeb86d391]"

definition md5_r :: "nat list" where
  "md5_r = [
    7, 12, 17, 22, 7, 12, 17, 22, 7, 12, 17, 22, 7, 12, 17, 22,
    5, 9, 14, 20, 5, 9, 14, 20, 5, 9, 14, 20, 5, 9, 14, 20,
    4, 11, 16, 23, 4, 11, 16, 23, 4, 11, 16, 23, 4, 11, 16, 23,
    6, 10, 15, 21, 6, 10, 15, 21, 6, 10, 15, 21, 6, 10, 15, 21]"

definition LEFTROTATE :: "u32 \<Rightarrow> nat \<Rightarrow> u32" where
  "LEFTROTATE x c = push_bit c x OR drop_bit (32 - c) x"

definition to_bytes :: "u32 \<Rightarrow> nat \<Rightarrow> u8 list \<Rightarrow> u8 list" where
  "to_bytes val i bytes = bytes[i := ucast val, i + 1 := ucast (drop_bit 8 val), i + 2 := ucast (drop_bit 16 val),
     i + 3 := ucast (drop_bit 24 val)]"

definition to_int32 :: "u8 list \<Rightarrow> nat \<Rightarrow> u32" where
  "to_int32 bytes i = ucast (bytes ! i) OR push_bit 8 (ucast (bytes ! (i + 1))) OR push_bit 16 (ucast (bytes ! (i + 2)))
     OR push_bit 24 (ucast (bytes ! (i + 3)))"

type_synonym md5_state = "u32 \<times> u32 \<times> u32 \<times> u32"

text \<open>The body of the main loop, the loop, and the one over the chunks.\<close>

definition md5_step :: "u32 list \<Rightarrow> md5_state \<Rightarrow> nat \<Rightarrow> md5_state" where
  "md5_step w = (\<lambda>(a, b, c, d) i.
     let (f, g) =
           (if i < 16 then ((b AND c) OR (NOT b AND d), i)
            else if i < 32 then ((d AND b) OR (NOT d AND c), (5 * i + 1) mod 16)
            else if i < 48 then (b XOR c XOR d, (3 * i + 5) mod 16)
            else (c XOR (b OR NOT d), (7 * i) mod 16));
         temp = d; d = c; c = b;
         b = b + LEFTROTATE (a + f + md5_k ! i + w ! g) (md5_r ! i);
         a = temp
     in (a, b, c, d))"

definition md5_chunk :: "u8 list \<Rightarrow> nat \<Rightarrow> md5_state \<Rightarrow> md5_state" where
  "md5_chunk msg offset = (\<lambda>(h0, h1, h2, h3).
     let w = map (\<lambda>i. to_int32 msg (offset + i * 4)) [0..<16];
         (a, b, c, d) = foldl (md5_step w) (h0, h1, h2, h3) [0..<64]
     in (h0 + a, h1 + b, h2 + c, h3 + d))"

function md5_chunks :: "nat \<Rightarrow> nat \<Rightarrow> u8 list \<Rightarrow> md5_state \<Rightarrow> md5_state" where
  "md5_chunks offset new_len msg h =
     (if offset < new_len then md5_chunks (offset + 64) new_len msg (md5_chunk msg offset h) else h)"
  by pat_completeness auto

termination
  by (relation "measure (\<lambda>(offset, new_len, _). new_len - offset)") auto

lemma unat_mod_64: "unat (x mod 64) = unat x mod 64" for x :: u32
  by (simp add: unat_mod)
lemma mod_64_56: "x mod 64 = 56 \<longleftrightarrow> unat x mod 64 = 56" for x :: u32
  by (simp add: word_unat_eq_iff unat_mod_64)
lemma mod_64_next: "unat ((x + 1) mod 64) = Suc (unat x mod 64) mod 64" for x :: u32
proof -
  have "unat (x + 1) mod 64 = (unat x + 1) mod 2 ^ 32 mod 64" by (simp add: unat_word_ariths)
  also have "\<dots> = (unat x + 1) mod 64" by (rule mod_mod_cancel) simp
  finally show ?thesis by (simp add: unat_mod_64 mod_Suc_eq)
qed

text \<open>The first loop: from \<open>new_len\<close> to the next length that leaves eight bytes of its chunk.\<close>

function md5_new_len :: "u32 \<Rightarrow> u32" where
  "md5_new_len new_len = (if new_len mod 64 \<noteq> 56 then md5_new_len (new_len + 1) else new_len)"
  by pat_completeness auto

termination
proof (relation "measure (\<lambda>x. let m = unat (x mod 64) in if m \<le> 56 then 56 - m else 120 - m)")
  fix x :: u32
  assume "x mod 64 \<noteq> 56"
  then have "unat x mod 64 \<noteq> 56" "unat x mod 64 < 64" by (simp_all add: mod_64_56)
  then show "(x + 1, x) \<in> measure (\<lambda>x. let m = unat (x mod 64) in if m \<le> 56 then 56 - m else 120 - m)"
    unfolding in_measure Let_def mod_64_next unfolding unat_mod_64 by (auto simp: mod_Suc)
qed auto

declare md5_new_len.simps [simp del] md5_chunks.simps [simp del]

definition md5_pad :: "u8 list \<Rightarrow> u32 \<Rightarrow> u32 \<Rightarrow> u8 list" where
  "md5_pad msg initial_len new_len =
     (let msg = msg[unat initial_len := 0x80];
          msg = foldl (\<lambda>msg offset. msg[offset := 0]) msg [unat initial_len + 1..<unat new_len];
          msg = to_bytes (initial_len * 8) (unat new_len) msg
      in to_bytes (drop_bit 29 initial_len) (unat new_len + 4) msg)"

definition md5 :: "u8 list \<Rightarrow> u32 \<Rightarrow> abort + u8 list" where
  "md5 msg initial_len =
     (let new_len = md5_new_len (initial_len + 1)
      in if length msg < unat new_len + 8 then Inl OutOfBounds
         else case md5_chunks 0 (unat new_len) (md5_pad msg initial_len new_len) (0x67452301, 0xefcdab89, 0x98badcfe, 0x10325476)
           of (h0, h1, h2, h3) \<Rightarrow> Inr (to_bytes h3 12 (to_bytes h2 8 (to_bytes h1 4 (to_bytes h0 0 (replicate 16 0))))))"

section \<open>The digest of RFC 1321\<close>

text \<open>
  The message, a one bit, zero bits up to 448 modulo 512 and the length as 64 bits, all low byte first.
\<close>

definition md5_padded :: "u8 list \<Rightarrow> u8 list" where
  "md5_padded m = m @ [0x80] @ replicate (gap (length m + 1)) 0 @ map (\<lambda>j. of_nat (8 * length m div 256 ^ j)) [0..<8]"

definition word_le :: "u8 list \<Rightarrow> u32" where
  "word_le bs = of_nat (foldr (\<lambda>b n. unat b + 256 * n) bs 0)"

definition rfc_fun :: "nat \<Rightarrow> u32 \<Rightarrow> u32 \<Rightarrow> u32 \<Rightarrow> u32" where
  "rfc_fun i x y z =
     [(x AND y) OR (NOT x AND z), (x AND z) OR (y AND NOT z), x XOR y XOR z, y XOR (x OR NOT z)] ! (i div 16)"

definition rfc_word :: "nat \<Rightarrow> nat" where
  "rfc_word i = [i, 5 * i + 1, 3 * i + 5, 7 * i] ! (i div 16) mod 16"

definition rfc_shift :: "nat \<Rightarrow> nat" where
  "rfc_shift i = [[7, 12, 17, 22], [5, 9, 14, 20], [4, 11, 16, 23], [6, 10, 15, 21]] ! (i div 16) ! (i mod 4)"

text \<open>The operation \<open>[abcd k s i]\<close>: the new value of the register \<open>a\<close>.  The registers take turns.\<close>

definition rfc_op :: "u32 list \<Rightarrow> nat \<Rightarrow> u32 \<Rightarrow> u32 \<Rightarrow> u32 \<Rightarrow> u32 \<Rightarrow> u32" where
  "rfc_op x i a b c d = b + word_rotl (rfc_shift i) (a + rfc_fun i b c d + x ! rfc_word i + md5_k ! i)"

definition rfc_step :: "u32 list \<Rightarrow> md5_state \<Rightarrow> nat \<Rightarrow> md5_state" where
  "rfc_step x = (\<lambda>(A, B, C, D) i.
     if i mod 4 = 0 then (rfc_op x i A B C D, B, C, D)
     else if i mod 4 = 1 then (A, B, C, rfc_op x i D A B C)
     else if i mod 4 = 2 then (A, B, rfc_op x i C D A B, D)
     else (A, rfc_op x i B C D A, C, D))"

definition rfc_block :: "md5_state \<Rightarrow> u8 list \<Rightarrow> md5_state" where
  "rfc_block = (\<lambda>(A, B, C, D) block.
     case foldl (rfc_step (map word_le (blocks 4 block))) (A, B, C, D) [0..<64] of
       (A', B', C', D') \<Rightarrow> (A + A', B + B', C + C', D + D'))"

definition md5_spec :: "u8 list \<Rightarrow> u8 list" where
  "md5_spec m =
     (case foldl rfc_block (0x67452301, 0xefcdab89, 0x98badcfe, 0x10325476) (blocks 64 (md5_padded m)) of
        (A, B, C, D) \<Rightarrow> concat (map (\<lambda>v. map (\<lambda>j. of_nat (unat v div 256 ^ j)) [0..<4]) [A, B, C, D]))"

section \<open>The registers\<close>

lemma rotate_ok: "0 < c \<Longrightarrow> c < 32 \<Longrightarrow> LEFTROTATE x c = word_rotl c x" for x :: u32
proof -
  assume c: "0 < c" "c < 32"
  have "bit (LEFTROTATE x c) n = bit (word_rotl c x) n" if "n < 32" for n
  proof (cases "n < c")
    case True
    then have "32 - c + n = n + 32 - c" "\<not> c \<le> n" "(n + (32 - c)) mod 32 = n + 32 - c" using c by auto
    then show ?thesis using c that by (simp add: LEFTROTATE_def bit_or_iff bit_push_bit_iff bit_drop_bit_eq bit_word_rotl_iff)
  next
    case False
    then obtain d where d: "n = c + d" by (metis le_iff_add not_less)
    have "\<not> bit x (32 + d)" using bit_imp_le_length [of x "32 + d"] by auto
    moreover have "32 - c + n = 32 + d" "(n + (32 - c)) mod 32 = d" using c d that by auto
    ultimately show ?thesis using c d that by (simp add: LEFTROTATE_def bit_or_iff bit_push_bit_iff bit_drop_bit_eq bit_word_rotl_iff)
  qed
  then show ?thesis by (simp add: bit_eq_iff)
qed
lemma r_shift: "\<forall>i \<in> set [0..<64]. md5_r ! i = rfc_shift i \<and> 0 < rfc_shift i \<and> rfc_shift i < 32"
  by (simp add: upt_rec md5_r_def rfc_shift_def)

definition view :: "nat \<Rightarrow> md5_state \<Rightarrow> md5_state" where
  "view i = (\<lambda>(A, B, C, D). if i mod 4 = 0 then (A, B, C, D) else if i mod 4 = 1 then (D, A, B, C)
     else if i mod 4 = 2 then (C, D, A, B) else (B, C, D, A))"

lemma step_op:
  assumes "i < 64"
  shows "md5_step w (a, b, c, d) i = (d, rfc_op w i a b c d, b, c)"
proof -
  have "LEFTROTATE x (md5_r ! i) = word_rotl (rfc_shift i) x" for x
    using r_shift assms by (simp add: rotate_ok)
  moreover have "i div 16 = (if i < 16 then 0 else if i < 32 then 1 else if i < 48 then 2 else 3)" using assms by auto
  ultimately show ?thesis
    by (auto simp: md5_step_def rfc_op_def rfc_fun_def rfc_word_def Let_def ac_simps and.commute)
qed

lemma step_view: "i < 64 \<Longrightarrow> md5_step w (view i R) i = view (Suc i) (rfc_step w R i)"
  by (cases R) (auto simp: view_def rfc_step_def step_op mod_Suc)


lemma loop_view: "n \<le> 64 \<Longrightarrow> foldl (md5_step w) R [0..<n] = view n (foldl (rfc_step w) R [0..<n])"
proof (induction n)
  case 0
  then show ?case by (cases R) (simp add: view_def)
next
  case (Suc n)
  then show ?case by (simp add: step_view)
qed

section \<open>The chunks\<close>

lemma to_int32_le: "i + 4 \<le> length bs \<Longrightarrow> to_int32 bs i = word_le (take 4 (drop i bs))"
proof -
  assume "i + 4 \<le> length bs"
  then have "take 4 (drop i bs) = [bs ! i, bs ! (i + 1), bs ! (i + 2), bs ! (i + 3)]"
    by (intro nth_equalityI) (auto simp: less_Suc_eq numeral_eq_Suc)
  moreover have "to_int32 bs i = word_le [bs ! i, bs ! (i + 1), bs ! (i + 2), bs ! (i + 3)]"
    by (simp only: to_int32_def word_le_def le4 foldr.simps comp_apply id_apply mult_0_right add_0_right)
  ultimately show ?thesis by simp
qed

lemma chunk_ok:
  assumes "offset + 64 \<le> length msg"
  shows "md5_chunk msg offset h = rfc_block h (take 64 (drop offset msg))"
proof -
  let ?b = "take 64 (drop offset msg)"
  have l: "length (blocks 4 ?b) = 16" using assms by (simp add: length_blocks)
  have "map (\<lambda>i. to_int32 msg (offset + i * 4)) [0..<16] = map word_le (blocks 4 ?b)"
  proof (rule nth_equalityI)
    fix i assume "i < length (map (\<lambda>i. to_int32 msg (offset + i * 4)) [0..<16])"
    then have i: "i < 16" by simp
    have "blocks 4 ?b ! i = take 4 (drop (i * 4) ?b)" using i assms by (intro nth_blocks) auto
    also have "\<dots> = take 4 (drop (offset + i * 4) msg)" using i by (simp add: drop_take add.commute min_def)
    finally show "map (\<lambda>i. to_int32 msg (offset + i * 4)) [0..<16] ! i = map word_le (blocks 4 ?b) ! i"
      using i l assms by (simp add: to_int32_le)
  qed (simp add: l)
  moreover have "view 64 R = R" for R by (cases R) (simp add: view_def)
  ultimately show ?thesis
    by (cases h) (simp add: md5_chunk_def rfc_block_def loop_view Let_def del: upt_rec_numeral)
qed

lemma chunks_ok:
  assumes "offset mod 64 = 0" "new_len mod 64 = 56" "new_len + 8 \<le> length msg" "offset \<le> new_len + 8"
  shows "md5_chunks offset new_len msg h = foldl rfc_block h (blocks 64 (drop offset (take (new_len + 8) msg)))"
  using assms
proof (induction offset new_len msg h rule: md5_chunks.induct)
  case (1 offset new_len msg h)
  define a b where "a = offset div 64" and "b = new_len div 64"
  have ab: "offset = 64 * a" "new_len = 64 * b + 56"
    using "1.prems"(1,2) mult_div_mod_eq [of 64 offset] mult_div_mod_eq [of 64 new_len] unfolding a_def b_def by linarith+
  show ?case
  proof (cases "offset < new_len")
    case True
    then have o: "offset + 64 \<le> new_len + 8" using ab by simp
    then have b: "blocks 64 (drop offset (take (new_len + 8) msg))
        = take 64 (drop offset msg) # blocks 64 (drop (offset + 64) (take (new_len + 8) msg))"
      using "1.prems"(3) by (subst blocks.simps) (auto simp: take_take drop_take add.commute min_absorb1)
    have m: "(offset + 64) mod 64 = 0" using "1.prems"(1) by simp
    have "offset + 64 \<le> length msg" using o "1.prems"(3) by simp
    then have "md5_chunks offset new_len msg h = md5_chunks (offset + 64) new_len msg (rfc_block h (take 64 (drop offset msg)))"
      using True by (subst md5_chunks.simps) (simp add: chunk_ok)
    then show ?thesis unfolding b using "1.IH" [OF True m "1.prems"(2,3) o] chunk_ok [OF \<open>offset + 64 \<le> length msg\<close>] by simp
  next
    case False
    then have "offset = new_len + 8" using ab "1.prems"(4) by presburger
    then show ?thesis by (subst md5_chunks.simps, subst blocks.simps) simp
  qed
qed

section \<open>The padding\<close>

lemma circle_step:
  fixes u :: nat
  assumes "u mod 64 \<noteq> 56"
  shows "gap u = Suc (gap (Suc u))"
proof -
  define c where "c = u mod 64"
  have c: "c < 64" "c \<noteq> 56" using assms by (simp_all add: c_def)
  show ?thesis
  proof (cases "c < 56")
    case True
    then have e: "120 - c = 64 + (56 - c)" "119 - c = 64 + (55 - c)" by linarith+
    have "(120 - c) mod 64 = 56 - c" "(119 - c) mod 64 = 55 - c" unfolding e mod_add_self1 by simp_all
    then show ?thesis unfolding gap_def mod_Suc [of u] c_def [symmetric] using True by simp
  next
    case False
    show ?thesis
    proof (cases "c = 63")
      case True
      then show ?thesis unfolding gap_def mod_Suc [of u] c_def [symmetric] by simp
    next
      case False
      with \<open>\<not> c < 56\<close> c have "56 < c" "c < 63" by auto
      then show ?thesis unfolding gap_def mod_Suc [of u] c_def [symmetric] by simp
    qed
  qed
qed


lemma new_len_ok:
  "unat x + gap (unat x) < 2 ^ 32 \<Longrightarrow> unat (md5_new_len x) = unat x + gap (unat x)"
proof (induction x rule: md5_new_len.induct)
  case (1 x)
  show ?case
  proof (cases "x mod 64 = 56")
    case True
    then show ?thesis by (subst md5_new_len.simps) (simp add: mod_64_56 gap_def)
  next
    case False
    then have m: "unat x mod 64 \<noteq> 56" by (simp add: mod_64_56)
    have x: "unat (x + 1) = Suc (unat x)" using "1.prems" circle_step [OF m] by (subst unat_plus_if') simp
    show ?thesis using "1.IH" [OF False] "1.prems" circle_step [OF m] False unfolding x by (subst md5_new_len.simps) simp
  qed
qed

lemma fill_ok:
  "from + n \<le> length msg \<Longrightarrow> foldl (\<lambda>msg i. msg[i := 0]) msg [from..<from + n] = take from msg @ replicate n 0 @ drop (from + n) msg"
proof (induction n)
  case (Suc n)
  have "(take from msg @ replicate n 0 @ drop (from + n) msg)[from + n := 0] = take from msg @ replicate (Suc n) 0 @ drop (from + Suc n) msg"
    using Suc.prems by (simp add: list_update_append Cons_nth_drop_Suc [symmetric] replicate_append_same)
  then show ?case using Suc by simp
qed simp

lemma upd4: "i + 4 \<le> length msg \<Longrightarrow> msg[i := a, i + 1 := b, i + 2 := c, i + 3 := d] = take i msg @ [a, b, c, d] @ drop (i + 4) msg"
proof -
  assume "i + 4 \<le> length msg"
  then have "msg[i := a, i + 1 := b, i + 2 := c, i + 3 := d] ! j = (take i msg @ [a, b, c, d] @ drop (i + 4) msg) ! j"
    if "j < length msg" for j
    using that by (cases "j < i"; cases "j = i"; cases "j = i + 1"; cases "j = i + 2"; cases "j = i + 3") (auto simp: nth_append nth_Cons')
  then show ?thesis using \<open>i + 4 \<le> length msg\<close> by (intro nth_equalityI) auto
qed
definition le_bytes :: "u32 \<Rightarrow> u8 list" where
  "le_bytes v = map (\<lambda>j. of_nat (unat v div 256 ^ j)) [0..<4]"

lemma to_bytes_ok: "i + 4 \<le> length msg \<Longrightarrow> to_bytes v i msg = take i msg @ le_bytes v @ drop (i + 4) msg" (is "_ \<Longrightarrow> ?thesis")
proof -
  have "[ucast v, ucast (drop_bit 8 v), ucast (drop_bit 16 v), ucast (drop_bit 24 v)] = le_bytes v"
    using low_byte [of 0 v] by (simp add: low_byte le_bytes_def upt_rec)
  then show "i + 4 \<le> length msg \<Longrightarrow> ?thesis" unfolding to_bytes_def by (metis upd4)
qed

lemma len_bytes_low: "(of_nat (unat (n * 8) div 256 ^ j) :: u8) = of_nat (8 * unat n div 256 ^ j)" if "j < 4" for n :: u32
proof -
  have "unat (n * 8) = take_bit 32 (8 * unat n)" by (simp add: unat_word_ariths take_bit_eq_mod mult.commute)
  moreover have "256 ^ j = (2::nat) ^ (8 * j)" by (simp add: power_mult)
  ultimately have "unat (n * 8) div 256 ^ j = drop_bit (8 * j) (take_bit 32 (8 * unat n))" by (simp add: drop_bit_eq_div)
  also have "\<dots> = take_bit (32 - 8 * j) (drop_bit (8 * j) (8 * unat n))" by (simp add: drop_bit_take_bit)
  finally have "take_bit 8 (unat (n * 8) div 256 ^ j) = take_bit 8 (drop_bit (8 * j) (8 * unat n))" using that by (cases "8 \<le> 32 - 8 * j") (auto simp: min_def)
  then have "take_bit 8 (unat (n * 8) div 256 ^ j) = take_bit 8 (8 * unat n div 256 ^ j)" by (simp add: drop_bit_eq_div power_mult)
  then show ?thesis by (simp add: word_of_nat_eq_iff)
qed
lemma len_bytes_high: "(of_nat (unat (drop_bit 29 n) div 256 ^ j) :: u8) = of_nat (8 * unat n div 256 ^ (j + 4))" for n :: u32
proof -
  have "unat (drop_bit 29 n) div 256 ^ j = 8 * unat n div (8 * 2 ^ 29) div 256 ^ j" by (simp add: unat_drop_bit_eq drop_bit_eq_div unat_div)
  also have "\<dots> = 8 * unat n div 256 ^ (j + 4)" by (simp add: div_mult2_eq [symmetric] power_add)
  finally show ?thesis by simp
qed

lemma length_le_bytes [simp]: "length (le_bytes v) = 4"
  by (simp add: le_bytes_def)

lemma to_bytes_append: "length H = i \<Longrightarrow> 4 \<le> length R \<Longrightarrow> to_bytes v i (H @ R) = H @ le_bytes v @ drop 4 R"
  by (simp add: to_bytes_ok)

lemma len_bytes: "le_bytes (n * 8) @ le_bytes (drop_bit 29 n) = map (\<lambda>j. of_nat (8 * unat n div 256 ^ j)) [0..<8]"
proof -
  have "[0..<8] = [0..<4] @ map (\<lambda>j. j + 4) [0..<4]" by (simp add: upt_rec)
  then show ?thesis by (simp add: le_bytes_def len_bytes_low len_bytes_high comp_def del: upt_rec_numeral)
qed

lemma pad_ok:
  assumes m: "length m = unat n" and l: "length (md5_padded m) \<le> length (m @ rest)"
    and z: "unat new_len = unat n + 1 + gap (unat n + 1)"
  shows "md5_pad (m @ rest) n new_len = md5_padded m @ drop (unat new_len + 8) (m @ rest)"
proof -
  let ?z = "gap (unat n + 1)" and ?M = "m @ rest"
  have len: "unat new_len + 8 \<le> length ?M" using l z m by (simp add: md5_padded_def)
  have "?M[unat n := 0x80] = m @ 0x80 # drop (unat n + 1) ?M"
    using len z m by (cases rest) (simp_all add: list_update_append)
  then have "foldl (\<lambda>msg i. msg[i := 0]) (?M[unat n := 0x80]) [unat n + 1..<unat new_len]
      = (m @ [0x80]) @ replicate ?z 0 @ drop (unat new_len) ?M"
    using len m unfolding z by (subst fill_ok) (auto simp: add_ac)
  then have f: "foldl (\<lambda>msg i. msg[i := 0]) (?M[unat n := 0x80]) [unat n + 1..<unat new_len]
      = (m @ [0x80] @ replicate (gap (unat n + 1)) 0) @ drop (unat new_len) ?M" (is "_ = ?H @ ?R") by simp
  have R: "8 \<le> length ?R" using len by simp
  have H: "length ?H = unat new_len" using m z by simp
  have "md5_pad ?M n new_len = to_bytes (drop_bit 29 n) (unat new_len + 4) (to_bytes (n * 8) (unat new_len) (?H @ ?R))"
    unfolding md5_pad_def Let_def f ..
  also have "\<dots> = to_bytes (drop_bit 29 n) (unat new_len + 4) ((?H @ le_bytes (n * 8)) @ drop 4 ?R)"
    using R H by (subst to_bytes_append) simp_all
  also have "\<dots> = (?H @ le_bytes (n * 8)) @ le_bytes (drop_bit 29 n) @ drop 4 (drop 4 ?R)"
    using R H by (intro to_bytes_append) simp_all
  also have "\<dots> = md5_padded m @ drop (unat new_len + 8) ?M"
    using len_bytes [of n] unfolding md5_padded_def m by (simp add: add.commute del: upt_rec_numeral drop_append)
  finally show ?thesis .
qed

text \<open>C11: On a message of any length with room for its padding behind it, the digest is that of RFC 1321: the
  padding the code writes in place, its length counted in 32 bit arithmetic, the words it reads byte by byte
  and the round that shifts its four variables give what the specification computes by blocks, with rotations
  and with the four registers taking turns.\<close>

theorem md5_correct:
  assumes "length m = unat n" "length (md5_padded m) \<le> length (m @ rest)" "length (m @ rest) \<le> 2 ^ 32"
  shows "md5 (m @ rest) n = Inr (md5_spec m)"
proof -
  let ?z = "gap (unat n + 1)" and ?h = "(0x67452301, 0xefcdab89, 0x98badcfe, 0x10325476) :: md5_state"
  define new_len where "new_len = md5_new_len (n + 1)"
  have len: "length (md5_padded m) = unat n + 1 + ?z + 8" using assms(1) by (simp add: md5_padded_def)
  have n1: "unat (n + 1) = unat n + 1" using assms(2,3) len by (subst unat_plus_if') simp
  have z: "unat new_len = unat n + 1 + ?z"
    using new_len_ok [of "n + 1"] assms(2,3) len unfolding n1 new_len_def by simp
  have "md5_chunks 0 (unat new_len) (md5_pad (m @ rest) n new_len) ?h
      = foldl rfc_block ?h (blocks 64 (drop 0 (take (unat new_len + 8) (md5_pad (m @ rest) n new_len))))"
    using assms(2) mod_56 [of "unat n + 1"] len z pad_ok [OF assms(1,2) z] by (intro chunks_ok) simp_all
  also have "take (unat new_len + 8) (md5_pad (m @ rest) n new_len) = md5_padded m"
    using len z pad_ok [OF assms(1,2) z] by simp
  finally have c: "md5_chunks 0 (unat new_len) (md5_pad (m @ rest) n new_len) ?h = foldl rfc_block ?h (blocks 64 (md5_padded m))" by simp
  have d: "to_bytes d 12 (to_bytes c 8 (to_bytes b 4 (to_bytes a 0 (replicate 16 0)))) = le_bytes a @ le_bytes b @ le_bytes c @ le_bytes d" for a b c d
    by (simp add: to_bytes_ok)
  have nl: "\<not> length (m @ rest) < unat new_len + 8" using assms(2) len z by simp
  obtain A B C D where "foldl rfc_block ?h (blocks 64 (md5_padded m)) = (A, B, C, D)" by (metis prod_cases4)
  then show ?thesis unfolding md5_def Let_def new_len_def [symmetric] c md5_spec_def le_bytes_def [symmetric] using nl by (simp add: d)
qed

theorem md5_correct_witness:
  "md5 (map of_char ''abc'' @ replicate 61 7) 3 = Inr (md5_spec (map of_char ''abc''))"
  using md5_correct [of "map of_char ''abc''" 3 "replicate 61 7"] by (simp add: md5_padded_def gap_def del: upt_rec_numeral)

end
