(* ===== verification/Snake.thy ===== *)
theory Snake imports KlibStdlib begin

text \<open>
  \<open>am-kernels/kernels/snake/snake.c\<close>: the snake is a ring of points with the position of its head and its
  length.  A C \<open>int\<close> is an integer: the coordinates stay next to the board and do not overflow.  An access
  outside the ring is \<open>OutOfBounds\<close>.  The screen is a function from the row and the column of a tile to its
  colour; the keyboard is the list of the events it will give.
\<close>

section \<open>The functions\<close>

datatype dir_t = NONE | UP | DOWN | LEFT | RIGHT

datatype key = KEY_NONE | KEY_UP | KEY_DOWN | KEY_LEFT | KEY_RIGHT | KEY_Q | KEY_OTHER nat

record point_t =
  px :: int
  py :: int

record dim_t =
  dim_width :: int
  dim_height :: int

record rect_t =
  top :: int
  bottom :: int
  left :: int
  right :: int

record snake_t =
  body :: "point_t list"
  len :: int
  index :: int
  dead :: bool

record snake_game =
  snake :: snake_t
  dir :: dir_t
  food :: point_t
  game_size :: dim_t
  board :: rect_t
  tiles :: "int \<times> int \<Rightarrow> u32"
  rnd :: u32

definition draw_tile :: "int \<Rightarrow> int \<Rightarrow> u32 \<Rightarrow> snake_game \<Rightarrow> snake_game" where
  "draw_tile y x color g = g\<lparr>tiles := (tiles g)((y, x) := color)\<rparr>"

text \<open>A key that goes up is skipped; \<open>None\<close>: the events end while it waits.\<close>

fun read_key :: "(bool \<times> key) list \<Rightarrow> (key \<times> (bool \<times> key) list) option" where
  "read_key [] = None"
| "read_key ((keydown, keycode) # evs) = (if keydown \<or> keycode = KEY_NONE then Some (keycode, evs) else read_key evs)"

text \<open>The numbers of \<open>rand\<close> are not negative, so C's remainder is that by the absolute value.\<close>

definition create_food :: "dim_t \<Rightarrow> u32 \<Rightarrow> abort + point_t \<times> u32" where
  "create_food gs seed =
     (if dim_width gs = 0 \<or> dim_height gs = 0 then Inl ArithTrap
      else let (a, seed) = rand seed; x = sint a mod \<bar>dim_width gs\<bar>; (b, seed) = rand seed; y = sint b mod \<bar>dim_height gs\<bar>
           in Inr (\<lparr>px = x, py = y\<rparr>, seed))"

definition print_board :: "snake_game \<Rightarrow> snake_game" where
  "print_board g =
     (let color = 0x0000ff00; b = board g;
          g = foldl (\<lambda>g i. draw_tile (bottom b) i color (draw_tile (top b) i color g)) g [left b..right b]
      in foldl (\<lambda>g i. draw_tile i (right b) color (draw_tile i (left b) color g)) g [top b..bottom b])"

definition print_food :: "snake_game \<Rightarrow> snake_game" where
  "print_food g = draw_tile (py (food g) + top (board g) + 1) (px (food g) + left (board g) + 1) 0x000000ff g"

definition body_at :: "snake_t \<Rightarrow> int \<Rightarrow> abort + point_t" where
  "body_at s i = (if 0 \<le> i \<and> i < 100 then Inr (body s ! nat i) else Inl OutOfBounds)"

definition print_head :: "snake_game \<Rightarrow> abort + snake_game" where
  "print_head g =
     rbind (body_at (snake g) (index (snake g))) (\<lambda>p.
       Inr (draw_tile (py p + top (board g) + 1) (px p + left (board g) + 1) 0x00ff0000 g))"

definition clear_tail :: "snake_game \<Rightarrow> abort + snake_game" where
  "clear_tail g =
     (let t = index (snake g) - len (snake g); t = (if t < 0 then t + 100 else t)
      in rbind (body_at (snake g) t) (\<lambda>p. Inr (draw_tile (py p + top (board g) + 1) (px p + left (board g) + 1) 0 g)))"

fun get_dir :: "key \<Rightarrow> dir_t" where
  "get_dir KEY_LEFT = LEFT"
| "get_dir KEY_UP = UP"
| "get_dir KEY_RIGHT = RIGHT"
| "get_dir KEY_DOWN = DOWN"
| "get_dir _ = NONE"

fun point_step :: "dir_t \<Rightarrow> point_t \<Rightarrow> point_t" where
  "point_step LEFT p = p\<lparr>px := px p - 1\<rparr>"
| "point_step DOWN p = p\<lparr>py := py p + 1\<rparr>"
| "point_step RIGHT p = p\<lparr>px := px p + 1\<rparr>"
| "point_step UP p = p\<lparr>py := py p - 1\<rparr>"
| "point_step NONE p = p"

definition move_snake :: "snake_t \<Rightarrow> dir_t \<Rightarrow> abort + snake_t" where
  "move_snake s d =
     rbind (body_at s (index s)) (\<lambda>p.
       let p = point_step d p; i = index s + 1; i = (if i = 100 then 0 else i)
       in rbind (body_at s i) (\<lambda>_. Inr (s\<lparr>body := (body s)[nat i := p], index := i\<rparr>)))"

text \<open>The loop of \<open>is_dead\<close>; a length below 1 would not end it before the ring does.\<close>

function dead_loop :: "int \<Rightarrow> snake_t \<Rightarrow> point_t \<Rightarrow> abort + bool" where
  "dead_loop i s hd' =
     (if i = len s then Inr False
      else let j = index s - i; j = (if j < 0 then j + 100 else j)
           in if j < 0 \<or> 100 \<le> j then Inl OutOfBounds
              else rbind (body_at s j) (\<lambda>p. if px hd' = px p \<and> py hd' = py p then Inr True else dead_loop (i + 1) s hd'))"
  by pat_completeness auto

termination
  by (relation "measure (\<lambda>(i, s, _). nat (index s + 101 - i))") (auto split: if_splits)

definition is_dead :: "snake_t \<Rightarrow> dim_t \<Rightarrow> abort + bool" where
  "is_dead s gs =
     rbind (body_at s (index s)) (\<lambda>p.
       if px p = - 1 then Inr True else if px p = dim_width gs then Inr True
       else if py p = - 1 then Inr True else if py p = dim_height gs then Inr True
       else dead_loop 1 s p)"

definition has_food :: "snake_t \<Rightarrow> point_t \<Rightarrow> abort + bool" where
  "has_food s f = rbind (body_at s (index s)) (\<lambda>p. Inr (px p = px f \<and> py p = py f))"

text \<open>
  The parts of \<open>main\<close>: the start (the screen has at least two tiles in each direction, so nothing that is
  divided is negative), the switch on the key, one turn of the loop, and the loop.\<close>

definition turn :: "dir_t \<Rightarrow> dir_t \<Rightarrow> dir_t" where
  "turn move_dir d =
     (case move_dir of UP \<Rightarrow> if d \<noteq> DOWN then UP else d
      | DOWN \<Rightarrow> if d \<noteq> UP then DOWN else d
      | LEFT \<Rightarrow> if d \<noteq> RIGHT then LEFT else d
      | RIGHT \<Rightarrow> if d \<noteq> LEFT then RIGHT else d
      | NONE \<Rightarrow> d)"

definition snake_start :: "int \<Rightarrow> int \<Rightarrow> u32 \<Rightarrow> (int \<times> int \<Rightarrow> u32) \<Rightarrow> abort + snake_game" where
  "snake_start gpu_width gpu_height seed t0 =
     (let w = gpu_width div 8; h = gpu_height div 8; gs = \<lparr>dim_width = w - 2, dim_height = h - 2\<rparr>;
          bd = (replicate 100 \<lparr>px = 0, py = 0\<rparr>)[0 := \<lparr>px = dim_width gs div 2, py = dim_height gs div 2\<rparr>,
                 1 := \<lparr>px = dim_width gs div 2, py = dim_height gs div 2 + 1\<rparr>];
          l = w div 2 - dim_width gs div 2 - 1; t = h div 2 - dim_height gs div 2 - 1;
          bo = \<lparr>top = t, bottom = t + dim_height gs + 1, left = l, right = l + dim_width gs + 1\<rparr>
      in rbind (create_food gs seed) (\<lambda>(f, seed).
           Inr (print_food (print_board \<lparr>snake = \<lparr>body = bd, len = 2, index = 1, dead = False\<rparr>, dir = RIGHT,
             food = f, game_size = gs, board = bo, tiles = t0, rnd = seed\<rparr>))))"

definition snake_turn :: "key \<Rightarrow> snake_game \<Rightarrow> abort + snake_game" where
  "snake_turn k g =
     rbind (print_head g) (\<lambda>g. rbind (clear_tail g) (\<lambda>g.
       let g = g\<lparr>dir := turn (get_dir k) (dir g)\<rparr>
       in rbind (move_snake (snake g) (dir g)) (\<lambda>s. rbind (is_dead s (game_size g)) (\<lambda>d.
            let g = g\<lparr>snake := s\<lparr>dead := d\<rparr>\<rparr>
            in rbind (has_food (snake g) (food g)) (\<lambda>eat.
                 if eat then
                   let s = snake g
                   in rbind (create_food (game_size g) (rnd g)) (\<lambda>(f, seed).
                        Inr (print_food (g\<lparr>snake := s\<lparr>len := len s + 1\<rparr>, food := f, rnd := seed\<rparr>)))
                 else Inr g)))))"

definition snake_sleep :: "snake_t \<Rightarrow> int" where
  "snake_sleep s = (if 100000 - len s * 5000 < 5000 then 5000 else 100000 - len s * 5000)"

lemma read_key_less: "read_key evs = Some (k, evs') \<Longrightarrow> length evs' < length evs"
  by (induction evs rule: read_key.induct) (auto split: if_splits)

text \<open>The game up to the death of the snake; \<open>None\<close>: it still waits for a key.\<close>

function snake_loop :: "(bool \<times> key) list \<Rightarrow> snake_game \<Rightarrow> (abort + snake_game) option" where
  "snake_loop evs g =
     (case read_key evs of None \<Rightarrow> None
      | Some (k, evs) \<Rightarrow>
          (case snake_turn k g of Inl e \<Rightarrow> Some (Inl e)
           | Inr g \<Rightarrow> if dead (snake g) then Some (Inr g) else snake_loop evs g))"
  by pat_completeness auto

termination
  by (relation "measure (\<lambda>(evs, _). length evs)") (auto dest: read_key_less)

declare dead_loop.simps [simp del] snake_loop.simps [simp del]

section \<open>The snake as a list\<close>

definition ring :: "snake_t \<Rightarrow> int \<Rightarrow> point_t" where
  "ring s i = body s ! nat ((index s - i) mod 100)"

definition segments :: "snake_t \<Rightarrow> point_t list" where
  "segments s = map (ring s) [0..len s - 1]"

definition snake_ok :: "snake_t \<Rightarrow> bool" where
  "snake_ok s \<longleftrightarrow> length (body s) = 100 \<and> 0 \<le> index s \<and> index s < 100 \<and> 2 \<le> len s"

definition outside :: "dim_t \<Rightarrow> point_t \<Rightarrow> bool" where
  "outside gs p \<longleftrightarrow> px p = - 1 \<or> px p = dim_width gs \<or> py p = - 1 \<or> py p = dim_height gs"

lemma body_at_ok [simp]: "0 \<le> i \<Longrightarrow> i < 100 \<Longrightarrow> body_at s i = Inr (body s ! nat i)"
  by (simp add: body_at_def)

lemma ring_0: "snake_ok s \<Longrightarrow> body s ! nat (index s) = ring s 0"
  by (simp add: ring_def snake_ok_def)

lemma point_eq: "p = q \<longleftrightarrow> px p = px q \<and> py p = py q" for p q :: point_t
  by (auto intro: point_t.equality)

lemma wrap_100:
  fixes n i :: int
  assumes "0 \<le> n" "n < 100" "0 \<le> i" "i \<le> 100"
  shows "(if n - i < 0 then n - i + 100 else n - i) = (n - i) mod 100"
proof (cases "n - i < 0")
  case True
  have "(n - i) mod 100 = (n - i + 100) mod 100" by simp
  also have "\<dots> = n - i + 100" using assms True by (intro mod_pos_pos_trivial) auto
  finally show ?thesis using True by simp
qed (use assms in simp)

lemma ring_other: "0 \<le> n \<Longrightarrow> n < 100 \<Longrightarrow> 0 < i \<Longrightarrow> i < 100 \<Longrightarrow> (n - i) mod 100 \<noteq> n" for n i :: int
  using wrap_100 [of n i] by (auto split: if_splits)

lemma move_ok:
  assumes "snake_ok s"
  shows "\<exists>s'. move_snake s d = Inr s' \<and> snake_ok s' \<and> ring s' 0 = point_step d (ring s 0)
    \<and> (\<forall>i. 0 < i \<longrightarrow> i < 100 \<longrightarrow> ring s' i = ring s (i - 1)) \<and> len s' = len s"
proof -
  define k where "k = (index s + 1) mod 100"
  let ?s = "s\<lparr>body := (body s)[nat k := point_step d (ring s 0)], index := k\<rparr>"
  have i: "0 \<le> k" "k < 100" and k: "(if index s + 1 = 100 then 0 else index s + 1) = k" and b: "length (body s) = 100"
    using assms by (auto simp: snake_ok_def k_def)
  have m: "move_snake s d = Inr ?s"
    using assms i ring_0 [OF assms] unfolding move_snake_def Let_def k by (simp add: snake_ok_def)
  have "ring ?s i = ring s (i - 1)" if "0 < i" "i < 100" for i
  proof -
    have "nat ((k - i) mod 100) \<noteq> nat k" using i ring_other [OF i that] by (simp add: nat_eq_iff)
    moreover have "(k - i) mod 100 = (index s - (i - 1)) mod 100"
      unfolding k_def mod_diff_left_eq by (simp add: algebra_simps)
    ultimately show ?thesis by (simp add: ring_def)
  qed
  moreover have "snake_ok ?s" using assms i by (simp add: snake_ok_def)
  moreover have "ring ?s 0 = point_step d (ring s 0)" using i b by (simp add: ring_def)
  ultimately show ?thesis using m by (intro exI [of _ ?s]) simp
qed

lemma dead_loop_step:
  assumes "snake_ok s" "0 < i" "i < len s" "i \<le> 100"
  shows "dead_loop i s p = (if p = ring s i then Inr True else dead_loop (i + 1) s p)"
proof -
  have w: "(if index s - i < 0 then index s - i + 100 else index s - i) = (index s - i) mod 100"
    using assms by (intro wrap_100) (auto simp: snake_ok_def)
  have "body_at s ((index s - i) mod 100) = Inr (ring s i)" by (simp add: ring_def)
  moreover have "\<not> (index s - i) mod 100 < 0" "\<not> 100 \<le> (index s - i) mod 100" by simp_all
  ultimately show ?thesis using assms(3) unfolding dead_loop.simps [of i] Let_def w by (simp add: point_eq del: body_at_ok)
qed

lemma dead_loop_ok:
  assumes "snake_ok s" "0 < i" "i \<le> len s" "len s \<le> 101"
  shows "dead_loop i s p = Inr (p \<in> ring s ` {i..<len s})"
  using assms
proof (induction "nat (len s - i)" arbitrary: i)
  case 0
  then show ?case by (subst dead_loop.simps) simp
next
  case (Suc n)
  then have "{i..<len s} = insert i {i + 1..<len s}" "i < len s" by auto
  then show ?case using Suc by (simp add: dead_loop_step)
qed

lemma is_dead_ok:
  assumes "snake_ok s" "len s \<le> 101"
  shows "is_dead s gs = Inr (outside gs (ring s 0) \<or> ring s 0 \<in> ring s ` {1..<len s})"
proof -
  have "dead_loop 1 s (ring s 0) = Inr (ring s 0 \<in> ring s ` {1..<len s})"
    using assms by (intro dead_loop_ok) (auto simp: snake_ok_def)
  moreover have "body_at s (index s) = Inr (ring s 0)" using assms by (simp add: snake_ok_def ring_0)
  ultimately show ?thesis by (auto simp: is_dead_def outside_def)
qed

section \<open>The game on a list\<close>

record game =
  gsegs :: "point_t list"
  gdir :: dir_t
  gfood :: point_t
  gdead :: bool
  grnd :: u32

definition abs_game :: "snake_game \<Rightarrow> game" where
  "abs_game g = \<lparr>gsegs = segments (snake g), gdir = dir g, gfood = food g, gdead = dead (snake g), grnd = rnd g\<rparr>"

text \<open>A turn: the head moves, the last segment goes unless the head meets the food.\<close>

definition game_turn :: "dim_t \<Rightarrow> key \<Rightarrow> game \<Rightarrow> abort + game" where
  "game_turn gs k g =
     (let d = turn (get_dir k) (gdir g); segs = gsegs g; p = point_step d (hd segs); rest = butlast segs;
          g = g\<lparr>gsegs := p # rest, gdir := d, gdead := outside gs p \<or> p \<in> set rest\<rparr>
      in if p = gfood g then
           rbind (create_food gs (grnd g)) (\<lambda>(f, seed). Inr (g\<lparr>gsegs := p # segs, gfood := f, grnd := seed\<rparr>))
         else Inr g)"

lemma map_ring_move:
  assumes "\<forall>i. 0 < i \<longrightarrow> i < 100 \<longrightarrow> ring s' i = ring s (i - 1)" "1 \<le> n" "n \<le> 100"
  shows "map (ring s') [0..n - 1] = ring s' 0 # map (ring s) [0..n - 2]"
proof -
  have "map (ring s') [1..n - 1] = map (ring s) [0..n - 2]"
    using assms by (intro nth_equalityI) auto
  then show ?thesis using assms(2) by (subst upto_rec1) auto
qed

lemma set_map_ring: "set (map (ring s) [0..n - 2]) = (\<lambda>i. ring s (i - 1)) ` {1..<n}"
proof -
  have "x \<in> (\<lambda>i. i - 1) ` {1..<n}" if "x \<in> {0..n - 2}" for x
    using that by (intro image_eqI [of x _ "x + 1"]) auto
  then have "{0..n - 2} = (\<lambda>i. i - 1) ` {1..<n}" by auto
  then show ?thesis by (simp add: image_image)
qed

lemma butlast_segments: "2 \<le> len s \<Longrightarrow> butlast (segments s) = map (ring s) [0..len s - 2]"
  by (subst segments_def, subst upto_rec2) (auto simp: butlast_append)

lemma print_head_ok: "snake_ok (snake g) \<Longrightarrow>
    print_head g = Inr (draw_tile (py (ring (snake g) 0) + top (board g) + 1) (px (ring (snake g) 0) + left (board g) + 1) 0x00ff0000 g)"
  by (simp add: print_head_def ring_0 snake_ok_def)

lemma clear_tail_ok:
  assumes "snake_ok (snake g)" "len (snake g) \<le> 100"
  shows "clear_tail g = (let p = ring (snake g) (len (snake g)) in
    Inr (draw_tile (py p + top (board g) + 1) (px p + left (board g) + 1) 0 g))"
proof -
  have w: "(if index (snake g) - len (snake g) < 0 then index (snake g) - len (snake g) + 100 else index (snake g) - len (snake g))
      = (index (snake g) - len (snake g)) mod 100"
    using assms by (intro wrap_100) (auto simp: snake_ok_def)
  have "body_at (snake g) ((index (snake g) - len (snake g)) mod 100) = Inr (ring (snake g) (len (snake g)))"
    by (simp add: ring_def)
  then show ?thesis unfolding clear_tail_def Let_def w by (simp del: body_at_ok)
qed

lemma draw_tile_frame [simp]:
  "snake (draw_tile y x c g) = snake g" "dir (draw_tile y x c g) = dir g" "food (draw_tile y x c g) = food g"
  "game_size (draw_tile y x c g) = game_size g" "rnd (draw_tile y x c g) = rnd g" "board (draw_tile y x c g) = board g"
  by (simp_all add: draw_tile_def)

text \<open>What a turn does: the two tiles, the move, and the meal.\<close>

definition drawn :: "snake_game \<Rightarrow> snake_game" where
  "drawn g = (let p = ring (snake g) 0; q = ring (snake g) (len (snake g)) in
     draw_tile (py q + top (board g) + 1) (px q + left (board g) + 1) 0
       (draw_tile (py p + top (board g) + 1) (px p + left (board g) + 1) 0x00ff0000 g))"

lemma drawn_frame [simp]:
  "snake (drawn g) = snake g" "dir (drawn g) = dir g" "food (drawn g) = food g"
  "game_size (drawn g) = game_size g" "rnd (drawn g) = rnd g" "board (drawn g) = board g"
  by (simp_all add: drawn_def Let_def)

definition eaten :: "snake_game \<Rightarrow> abort + snake_game" where
  "eaten g =
     (if ring (snake g) 0 = food g then
        rbind (create_food (game_size g) (rnd g)) (\<lambda>(f, seed).
          Inr (print_food (g\<lparr>snake := (snake g)\<lparr>len := len (snake g) + 1\<rparr>, food := f, rnd := seed\<rparr>)))
      else Inr g)"

lemma turn_ok:
  assumes "snake_ok (snake g)" "len (snake g) \<le> 100"
  shows "\<exists>s. snake_turn k g = eaten (drawn g\<lparr>dir := turn (get_dir k) (dir g), snake := s\<rparr>)
    \<and> snake_ok s \<and> len s = len (snake g) \<and> ring s 0 = point_step (turn (get_dir k) (dir g)) (ring (snake g) 0)
    \<and> (\<forall>i. 0 < i \<longrightarrow> i < 100 \<longrightarrow> ring s i = ring (snake g) (i - 1))
    \<and> dead s = (outside (game_size g) (ring s 0) \<or> ring s 0 \<in> ring s ` {1..<len s})"
proof -
  let ?d = "turn (get_dir k) (dir g)"
  obtain s where s: "move_snake (snake g) ?d = Inr s" "snake_ok s" "ring s 0 = point_step ?d (ring (snake g) 0)"
    "\<forall>i. 0 < i \<longrightarrow> i < 100 \<longrightarrow> ring s i = ring (snake g) (i - 1)" "len s = len (snake g)"
    using move_ok [OF assms(1), of ?d] by blast
  let ?b = "outside (game_size g) (ring s 0) \<or> ring s 0 \<in> ring s ` {1..<len s}"
  have "is_dead s (game_size g) = Inr ?b" using s assms by (intro is_dead_ok) auto
  moreover have r: "ring (s\<lparr>dead := ?b\<rparr>) i = ring s i" for i by (simp add: ring_def)
  moreover have "has_food (s\<lparr>dead := ?b\<rparr>) f = Inr (ring s 0 = f)" for f
    using s(2) ring_0 [OF s(2)] by (simp add: has_food_def snake_ok_def point_eq)
  ultimately have "snake_turn k g = eaten (drawn g\<lparr>dir := ?d, snake := s\<lparr>dead := ?b\<rparr>\<rparr>)"
    using assms s(1) by (simp add: snake_turn_def print_head_ok clear_tail_ok eaten_def drawn_def Let_def)
  moreover have "snake_ok (s\<lparr>dead := ?b\<rparr>)" using s(2) by (simp add: snake_ok_def)
  ultimately show ?thesis using s r by (intro exI [of _ "s\<lparr>dead := ?b\<rparr>"]) simp
qed

lemma ring_dead [simp]: "ring (s\<lparr>dead := b\<rparr>) = ring s" "ring (s\<lparr>len := n\<rparr>) = ring s"
  by (simp_all add: ring_def fun_eq_iff)

lemma hd_segments: "2 \<le> len s \<Longrightarrow> hd (segments s) = ring s 0"
  by (simp add: segments_def upto_rec1)

lemma print_food_frame [simp]:
  "snake (print_food g) = snake g" "dir (print_food g) = dir g" "food (print_food g) = food g"
  "game_size (print_food g) = game_size g" "rnd (print_food g) = rnd g" "board (print_food g) = board g"
  by (simp_all add: print_food_def)

lemma turn_refines:
  assumes ok: "snake_ok (snake g)" and l: "len (snake g) < 100"
  shows "rbind (snake_turn k g) (\<lambda>g'. Inr (abs_game g')) = game_turn (game_size g) k (abs_game g)"
proof -
  let ?d = "turn (get_dir k) (dir g)" and ?n = "len (snake g)"
  obtain s where s: "snake_turn k g = eaten (drawn g\<lparr>dir := ?d, snake := s\<rparr>)" "snake_ok s" "len s = ?n"
    "ring s 0 = point_step ?d (ring (snake g) 0)" "\<forall>i. 0 < i \<longrightarrow> i < 100 \<longrightarrow> ring s i = ring (snake g) (i - 1)"
    "dead s = (outside (game_size g) (ring s 0) \<or> ring s 0 \<in> ring s ` {1..<len s})"
    using turn_ok [OF ok less_imp_le [OF l], of k] by blast
  have n: "2 \<le> ?n" using ok by (simp add: snake_ok_def)
  have seg: "segments s = ring s 0 # butlast (segments (snake g))"
    using map_ring_move [OF s(5), of ?n] n l s(3) by (simp add: segments_def [of s] butlast_segments)
  have "map (ring s) [0..?n] = ring s 0 # map (ring (snake g)) [0..?n - 1]"
    using map_ring_move [OF s(5), of "?n + 1"] n l by simp
  then have seg': "segments (s\<lparr>len := ?n + 1\<rparr>) = ring s 0 # segments (snake g)"
    unfolding segments_def by simp
  have "ring s ` {1..<?n} = (\<lambda>i. ring (snake g) (i - 1)) ` {1..<?n}" using s(5) l by (intro image_cong) auto
  then have d: "dead s = (outside (game_size g) (ring s 0) \<or> ring s 0 \<in> set (butlast (segments (snake g))))"
    using s(3,6) n set_map_ring [of "snake g" ?n] by (simp add: butlast_segments)
  show ?thesis
  proof (cases "ring s 0 = food g")
    case True
    then show ?thesis
      using n seg seg' d s(3,4)
      by (cases "create_food (game_size g) (rnd g)")
        (auto simp: s(1) eaten_def game_turn_def abs_game_def hd_segments Let_def)
  next
    case False
    then show ?thesis using n seg d s(4) by (simp add: s(1) eaten_def game_turn_def abs_game_def hd_segments Let_def)
  qed
qed

lemma turn_keeps:
  assumes "snake_ok (snake g)" "len (snake g) \<le> 100" "snake_turn k g = Inr g'"
  shows "snake_ok (snake g') \<and> len (snake g') \<le> len (snake g) + 1 \<and> game_size g' = game_size g"
proof -
  obtain s where s: "snake_turn k g = eaten (drawn g\<lparr>dir := turn (get_dir k) (dir g), snake := s\<rparr>)" "snake_ok s" "len s = len (snake g)"
    using turn_ok [OF assms(1,2), of k] by auto
  have "snake_ok (s\<lparr>len := len s + 1\<rparr>)" using s(2) by (simp add: snake_ok_def)
  then show ?thesis using assms(3) s
    by (cases "create_food (game_size g) (rnd g)") (auto simp: eaten_def split: if_splits)
qed


definition sample_game :: "int \<Rightarrow> snake_game" where
  "sample_game n =
     \<lparr>snake = \<lparr>body = (replicate 100 \<lparr>px = 5, py = 6\<rparr>)[0 := \<lparr>px = 5, py = 5\<rparr>], len = n, index = 1, dead = False\<rparr>, dir = RIGHT,
      food = \<lparr>px = 9, py = 9\<rparr>, game_size = \<lparr>dim_width = 20, dim_height = 20\<rparr>,
      board = \<lparr>top = 0, bottom = 21, left = 0, right = 21\<rparr>, tiles = \<lambda>_. 0, rnd = 1\<rparr>"

lemma sample_ok: "2 \<le> n \<Longrightarrow> snake_ok (snake (sample_game n))"
  by (simp add: sample_game_def snake_ok_def)


lemma create_food_ok: "dim_width gs \<noteq> 0 \<Longrightarrow> dim_height gs \<noteq> 0 \<Longrightarrow> \<exists>f seed. create_food gs s = Inr (f, seed)"
  by (simp add: create_food_def Let_def case_prod_beta)

text \<open>A snake of length 101, which the ring cannot hold, ends the game at the next turn: with its head at the
  start of the ring the code reads before the array, and anywhere else the snake counts as dead, since the
  test for a collision comes round to the head itself.\<close>

theorem snake_too_long:
  assumes "snake_ok (snake g)" "len (snake g) = 101" "dim_width (game_size g) \<noteq> 0" "dim_height (game_size g) \<noteq> 0"
  shows "if index (snake g) = 0 then snake_turn k g = Inl OutOfBounds
    else \<exists>g'. snake_turn k g = Inr g' \<and> dead (snake g')"
proof (cases "index (snake g) = 0")
  case True
  then show ?thesis using assms(1,2) by (simp add: snake_turn_def print_head_ok clear_tail_def body_at_def)
next
  case False
  let ?p = "body (snake g) ! nat (index (snake g) - 1)" and ?d = "turn (get_dir k) (dir g)"
  let ?h = "draw_tile (py (ring (snake g) 0) + top (board g) + 1) (px (ring (snake g) 0) + left (board g) + 1) 0x00ff0000 g"
  let ?g = "draw_tile (py ?p + top (board g) + 1) (px ?p + left (board g) + 1) 0 ?h"
  have c: "clear_tail ?h = Inr ?g" using False assms(1,2) by (simp add: clear_tail_def snake_ok_def Let_def)
  obtain s where s: "move_snake (snake g) ?d = Inr s" "snake_ok s" "len s = len (snake g)"
    using move_ok [OF assms(1), of ?d] by blast
  have "ring s 0 = ring s 100" by (simp add: ring_def)
  then have "ring s 0 \<in> ring s ` {1..<len s}" using s(3) assms(2) by (intro image_eqI [of _ _ 100]) auto
  then have "is_dead s (game_size g) = Inr True" using is_dead_ok [OF s(2)] s(3) assms(2) by simp
  moreover have "has_food (s\<lparr>dead := True\<rparr>) f = Inr (ring s 0 = f)" for f
    using s(2) ring_0 [OF s(2)] by (simp add: has_food_def snake_ok_def point_eq)
  ultimately have "snake_turn k g = eaten (?g\<lparr>dir := ?d, snake := s\<lparr>dead := True\<rparr>\<rparr>)"
    using assms(1) c s(1) by (simp add: snake_turn_def print_head_ok eaten_def Let_def)
  moreover obtain f seed where "create_food (game_size g) (rnd g) = Inr (f, seed)"
    using create_food_ok assms(3,4) by blast
  ultimately show ?thesis using False by (auto simp: eaten_def)
qed

theorem snake_too_long_witness: "\<exists>g'. snake_turn KEY_UP (sample_game 101) = Inr g' \<and> dead (snake g')"
  using snake_too_long [OF sample_ok [of 101], of KEY_UP] by (simp add: sample_game_def)

text \<open>Each turn paints the tile of the head and then clears the one the tail left: when these are the same,
  the head is not shown.\<close>

theorem snake_drawn:
  assumes "snake_ok (snake g)" "len (snake g) \<le> 100" "snake_turn k g = Inr g'" "len (snake g') = len (snake g)"
  shows "tiles g' (py (ring (snake g) 0) + top (board g) + 1, px (ring (snake g) 0) + left (board g) + 1)
    = (if ring (snake g) (len (snake g)) = ring (snake g) 0 then 0 else 0x00ff0000)"
proof -
  obtain s where s: "snake_turn k g = eaten (drawn g\<lparr>dir := turn (get_dir k) (dir g), snake := s\<rparr>)" "len s = len (snake g)"
    using turn_ok [OF assms(1,2), of k] by blast
  have "tiles g' = tiles (drawn g)" using assms(3,4) s
    by (cases "create_food (game_size g) (rnd g)") (auto simp: eaten_def split: if_splits)
  then show ?thesis by (auto simp: drawn_def draw_tile_def Let_def point_eq)
qed

lemma sample_turn:
  "\<exists>g'. snake_turn KEY_NONE (sample_game 2) = Inr g' \<and> len (snake g') = 2"
  by (simp add: sample_game_def snake_turn_def print_head_def clear_tail_def turn_def draw_tile_def move_snake_def is_dead_def
      has_food_def dead_loop.simps body_at_def)

theorem snake_drawn_witness: "\<exists>g'. snake_turn KEY_NONE (sample_game 2) = Inr g' \<and> tiles g' (7, 6) = 0"
proof -
  obtain g' where g': "snake_turn KEY_NONE (sample_game 2) = Inr g'" "len (snake g') = len (snake (sample_game 2))"
    using sample_turn by (auto simp: sample_game_def)
  show ?thesis using snake_drawn [OF sample_ok _ g'] g'(1) by (auto simp: sample_game_def ring_def)
qed

end
