(* ===== verification/Typing.thy ===== *)
theory Typing imports KlibStdlib "HOL-Library.Signed_Division" begin

text \<open>
  \<open>am-kernels/kernels/typing-game/game.c\<close>: letters fall, a key sends the lowest matching one back up, and one that
  reaches the bottom stays for a second.  A C \<open>int\<close> is an integer, its division \<open>sdiv\<close>; \<open>ch = 0\<close> marks a free slot.
  What \<open>render\<close> draws is the list of its calls.
\<close>

section \<open>The functions\<close>

record letter =
  ch :: int
  lx :: int
  ly :: int
  lv :: int
  lt :: int

record typing =
  chars :: "letter list"
  screen_w :: int
  screen_h :: int
  hit :: int
  miss :: int
  wrong :: int
  rnd :: u32

definition randint :: "int \<Rightarrow> int \<Rightarrow> u32 \<Rightarrow> abort + int \<times> u32" where
  "randint l r seed =
     (let (v, seed) = rand seed
      in if r - l + 1 = 0 then Inl ArithTrap else Inr (l + sint (v AND 0x7fffffff) mod \<bar>r - l + 1\<bar>, seed))"

text \<open>The first free slot.\<close>

fun free_slot :: "nat \<Rightarrow> letter list \<Rightarrow> nat option" where
  "free_slot i [] = None"
| "free_slot i (c # cs) = (if ch c = 0 then Some i else free_slot (i + 1) cs)"

definition new_char :: "typing \<Rightarrow> abort + typing" where
  "new_char g =
     (case free_slot 0 (chars g) of None \<Rightarrow> Inr g
      | Some i \<Rightarrow>
          rbind (randint 0 25 (rnd g)) (\<lambda>(a, seed).
          rbind (randint 0 (screen_w g - 8) seed) (\<lambda>(x, seed).
          rbind (randint (30 * 3 div 2) (30 * 2) seed) (\<lambda>(b, seed).
            Inr (g\<lparr>chars := (chars g)[i := \<lparr>ch = 65 + a, lx = x, ly = 0, lv = (screen_h g - 16 + 1) sdiv b, lt = 0\<rparr>],
              rnd := seed\<rparr>)))))"

text \<open>One letter in a frame, and whether it has reached the bottom.\<close>

definition update_letter :: "int \<Rightarrow> letter \<Rightarrow> letter \<times> bool" where
  "update_letter h c =
     (if ch c = 0 then (c, False)
      else if lt c > 0 then
        let c = c\<lparr>lt := lt c - 1\<rparr> in (if lt c = 0 then c\<lparr>ch := 0\<rparr> else c, False)
      else
        let c = c\<lparr>ly := ly c + lv c\<rparr>; c = (if ly c < 0 then c\<lparr>ch := 0\<rparr> else c)
        in if ly c + 16 \<ge> h then (c\<lparr>lv := 0, ly := h - 16, lt := 30\<rparr>, True) else (c, False))"

definition game_logic_update :: "int \<Rightarrow> typing \<Rightarrow> abort + typing" where
  "game_logic_update frame g =
     rbind (if frame smod (30 sdiv 5) = 0 then new_char g else Inr g) (\<lambda>g.
       let us = map (update_letter (screen_h g)) (chars g)
       in Inr (g\<lparr>chars := map fst us, miss := miss g + int (length (filter snd us))\<rparr>))"

text \<open>The loop of \<open>check_hit\<close> on the letters from \<open>i\<close> on; \<open>None\<close> is \<open>m = -1\<close>.\<close>

fun find_hit :: "int \<Rightarrow> nat \<Rightarrow> letter list \<Rightarrow> letter list \<Rightarrow> nat option \<Rightarrow> nat option" where
  "find_hit k i all [] m = m"
| "find_hit k i all (c # cs) m =
     find_hit k (i + 1) all cs
       (if k = ch c \<and> lv c > 0 \<and> (case m of None \<Rightarrow> True | Some j \<Rightarrow> ly c > ly (all ! j)) then Some i else m)"

definition check_hit :: "int \<Rightarrow> typing \<Rightarrow> typing" where
  "check_hit k g =
     (case find_hit k 0 (chars g) (chars g) None of
        None \<Rightarrow> g\<lparr>wrong := wrong g + 1\<rparr>
      | Some m \<Rightarrow> g\<lparr>hit := hit g + 1, chars := (chars g)[m := (chars g ! m)\<lparr>lv := (- (screen_h g - 16 + 1)) sdiv 30\<rparr>]\<rparr>)"

datatype colour = WHITE | RED | GREEN

datatype draw_call = Blank int int | Glyph int int colour int

definition colour_of :: "letter \<Rightarrow> colour" where
  "colour_of c = (if lv c > 0 then WHITE else if lv c < 0 then GREEN else RED)"

text \<open>The positions of the last frame, the calls and the new positions; a glyph outside the 26 textures is \<open>OutOfBounds\<close>.\<close>

definition typing_render :: "(int \<times> int) list \<Rightarrow> typing \<Rightarrow> abort + draw_call list \<times> (int \<times> int) list" where
  "typing_render prev g =
     (let cs = filter (\<lambda>c. ch c \<noteq> 0) (chars g)
      in if \<forall>c \<in> set cs. 0 \<le> ch c - 65 \<and> ch c - 65 < 26
         then Inr (map (\<lambda>(x, y). Blank x y) prev @ map (\<lambda>c. Glyph (lx c) (ly c) (colour_of c) (ch c - 65)) cs,
           map (\<lambda>c. (lx c, ly c)) cs)
         else Inl OutOfBounds)"

text \<open>The pixels of a glyph from the 16 bytes of its font, the highest bit on the left.\<close>

definition texture :: "u8 list \<Rightarrow> colour \<Rightarrow> u32 list" where
  "texture font col =
     (let ink = (case col of WHITE \<Rightarrow> 0xeeeeee | RED \<Rightarrow> 0xff0033 | GREEN \<Rightarrow> 0x00cc33)
      in concat (map (\<lambda>row. map (\<lambda>x. if drop_bit (8 - x - 1) row AND 1 \<noteq> 0 then ink else 0x2a0a29) [0..<8]) font))"

text \<open>A frame or a letter key, as the main loop sees them.\<close>

datatype input = Frame int | Key int

fun typing_step :: "input \<Rightarrow> typing \<Rightarrow> abort + typing" where
  "typing_step (Frame n) g = game_logic_update n g"
| "typing_step (Key k) g = Inr (check_hit k g)"

text \<open>The keyboard: \<open>lut\<close> has the letters; a letter is its position in the alphabet.\<close>

datatype typing_key = AM_KEY_NONE | AM_KEY_ESCAPE | AM_KEY_LETTER nat | AM_KEY_OTHER nat

fun key_char :: "typing_key \<Rightarrow> int" where
  "key_char (AM_KEY_LETTER n) = 65 + int n"
| "key_char _ = 0"

text \<open>The inner loop of \<open>main\<close>, up to the first event that is no key; \<open>None\<close> is \<open>halt\<close>.\<close>

fun drain_keys :: "(bool \<times> typing_key) list \<Rightarrow> typing \<Rightarrow> typing option" where
  "drain_keys [] g = Some g"
| "drain_keys ((keydown, k) # evs) g =
     (if k = AM_KEY_NONE then Some g
      else if keydown \<and> k = AM_KEY_ESCAPE then None
      else drain_keys evs (if keydown \<and> key_char k \<noteq> 0 then check_hit (key_char k) g else g))"

text \<open>A round of the main loop at a time (in microseconds since \<open>t0\<close>): the counters, the game, the positions drawn
  last and the calls.\<close>

definition typing_round :: "u64 \<Rightarrow> (bool \<times> typing_key) list \<Rightarrow> int \<times> int \<times> typing \<times> (int \<times> int) list
    \<Rightarrow> abort + (int \<times> int \<times> typing \<times> (int \<times> int) list \<times> draw_call list) option" where
  "typing_round us evs = (\<lambda>(current, rendered, g, prev).
     let frames = sint (ucast (us div (1000000 div 30)) :: u32)
     in rbind (run_ops typing_step (map Frame [current..frames - 1]) g) (\<lambda>g.
          let current = max current frames
          in case drain_keys evs g of None \<Rightarrow> Inr None
             | Some g \<Rightarrow>
                 if current > rendered then
                   rbind (typing_render prev g) (\<lambda>(calls, prev). Inr (Some (current, current, g, prev, calls)))
                 else Inr (Some (current, rendered, g, prev, []))))"

section \<open>The invariant\<close>

text \<open>A letter falls, or flies up, or lies at the bottom for the rest of its time.\<close>

definition letter_ok :: "int \<Rightarrow> int \<Rightarrow> letter \<Rightarrow> bool" where
  "letter_ok w h c \<longleftrightarrow> ch c = 0 \<or> 65 \<le> ch c \<and> ch c \<le> 90 \<and> 0 \<le> lx c \<and> lx c + 8 \<le> w \<and> 0 \<le> ly c \<and> ly c + 16 \<le> h
     \<and> (if lt c = 0 then lv c \<noteq> 0 else lv c = 0 \<and> 0 < lt c \<and> lt c \<le> 30 \<and> ly c + 16 = h)"

definition typing_ok :: "typing \<Rightarrow> bool" where
  "typing_ok g \<longleftrightarrow> length (chars g) = 128 \<and> 8 \<le> screen_w g \<and> 75 \<le> screen_h g
     \<and> (\<forall>c \<in> set (chars g). letter_ok (screen_w g) (screen_h g) c)"

lemma randint_ok: "l \<le> r \<Longrightarrow> \<exists>v s'. randint l r s = Inr (v, s') \<and> l \<le> v \<and> v \<le> r"
  using pos_mod_bound [of "r - l + 1" "sint (fst (rand s) AND 0x7fffffff)"] by (auto simp: randint_def Let_def case_prod_beta)

lemma update_ok: "letter_ok w h c \<Longrightarrow> 75 \<le> h \<Longrightarrow> letter_ok w h (fst (update_letter h c))"
  by (auto simp: letter_ok_def update_letter_def Let_def split: if_splits)

lemma free_slot_ok: "free_slot i cs = Some j \<Longrightarrow> i \<le> j \<and> j < i + length cs \<and> ch (cs ! (j - i)) = 0"
proof (induction i cs rule: free_slot.induct)
  case (2 i c cs)
  then show ?case by (cases "ch c = 0") (auto simp: nth_Cons' Suc_diff_le dest: Suc_leD)
qed simp

lemma speed: "75 \<le> h \<Longrightarrow> 45 \<le> b \<Longrightarrow> b \<le> 60 \<Longrightarrow> 0 < (h - 16 + 1) sdiv b" for b h :: int
  using zdiv_mono1 [of b "h - 15" b] by (simp add: signed_divide_int_def)

lemma back_speed: "75 \<le> h \<Longrightarrow> (- (h - 16 + 1)) sdiv 30 < 0" for h :: int
  using zdiv_mono1 [of 60 "h - 15" 30] by (simp add: signed_divide_int_def)

lemma set_upd: "(\<forall>c \<in> set cs. P c) \<Longrightarrow> P d \<Longrightarrow> \<forall>c \<in> set (cs[i := d]). P c"
  using set_update_subset_insert [of cs i d] by auto

lemma new_char_ok:
  assumes "typing_ok g"
  shows "\<exists>g'. new_char g = Inr g' \<and> typing_ok g' \<and> screen_h g' = screen_h g"
proof (cases "free_slot 0 (chars g)")
  case None
  then show ?thesis using assms by (simp add: new_char_def)
next
  case (Some i)
  have ok: "8 \<le> screen_w g" "75 \<le> screen_h g" "\<forall>c \<in> set (chars g). letter_ok (screen_w g) (screen_h g) c"
    using assms by (simp_all add: typing_ok_def)
  obtain a s1 where a: "randint 0 25 (rnd g) = Inr (a, s1)" "0 \<le> a" "a \<le> 25" using randint_ok [of 0 25 "rnd g"] by auto
  obtain x s2 where x: "randint 0 (screen_w g - 8) s1 = Inr (x, s2)" "0 \<le> x" "x \<le> screen_w g - 8"
    using randint_ok [of 0 "screen_w g - 8" s1] ok by auto
  obtain b s3 where b: "randint (30 * 3 div 2) (30 * 2) s2 = Inr (b, s3)" "45 \<le> b" "b \<le> 60"
    using randint_ok [of 45 60 s2] by auto
  let ?c = "\<lparr>ch = 65 + a, lx = x, ly = 0, lv = (screen_h g - 16 + 1) sdiv b, lt = 0\<rparr>"
  have "letter_ok (screen_w g) (screen_h g) ?c" using a x ok speed [OF ok(2) b(2,3)] by (simp add: letter_ok_def)
  then have "typing_ok (g\<lparr>chars := (chars g)[i := ?c], rnd := s3\<rparr>)"
    using assms set_upd [OF ok(3)] by (simp add: typing_ok_def)
  then show ?thesis using Some a(1) x(1) b(1) by (simp add: new_char_def)
qed

lemma update_frame_ok:
  assumes "typing_ok g"
  shows "\<exists>g'. game_logic_update n g = Inr g' \<and> typing_ok g'"
proof -
  obtain g' where g': "(if n smod (30 sdiv 5) = 0 then new_char g else Inr g) = Inr g'" "typing_ok g'"
    using new_char_ok [OF assms] assms by (cases "n smod (30 sdiv 5) = 0") auto
  then show ?thesis using update_ok by (auto simp: game_logic_update_def typing_ok_def Let_def)
qed

text \<open>The search keeps the lowest falling letter \<open>k\<close> so far, the first of them.\<close>

definition best_hit :: "int \<Rightarrow> letter list \<Rightarrow> nat \<Rightarrow> nat option \<Rightarrow> bool" where
  "best_hit k cs n m \<longleftrightarrow>
     (case m of None \<Rightarrow> \<forall>i < n. \<not> (ch (cs ! i) = k \<and> lv (cs ! i) > 0)
      | Some j \<Rightarrow> j < n \<and> ch (cs ! j) = k \<and> lv (cs ! j) > 0
          \<and> (\<forall>i < n. ch (cs ! i) = k \<and> lv (cs ! i) > 0 \<longrightarrow> ly (cs ! i) < ly (cs ! j) \<or> ly (cs ! i) = ly (cs ! j) \<and> j \<le> i))"

lemma find_hit_ok:
  "best_hit k all n m \<Longrightarrow> n \<le> length all \<Longrightarrow> best_hit k all (length all) (find_hit k n all (drop n all) m)"
proof (induction "length all - n" arbitrary: n m)
  case (Suc d)
  then have n: "n < length all" by simp
  let ?c = "all ! n"
  let ?m = "if k = ch ?c \<and> lv ?c > 0 \<and> (case m of None \<Rightarrow> True | Some j \<Rightarrow> ly ?c > ly (all ! j)) then Some n else m"
  have "best_hit k all (Suc n) ?m" using Suc.prems(1)
    by (cases m) (fastforce simp: best_hit_def less_Suc_eq)+
  then have "best_hit k all (length all) (find_hit k (Suc n) all (drop (Suc n) all) ?m)"
    using Suc.hyps n by (intro Suc.hyps(1)) auto
  moreover have "find_hit k n all (drop n all) m = find_hit k (Suc n) all (drop (Suc n) all) ?m"
    using n by (subst Cons_nth_drop_Suc [symmetric]) simp_all
  ultimately show ?case by simp
qed simp

lemma key_ok:
  assumes "typing_ok g"
  shows "typing_ok (check_hit k g)"
proof (cases "find_hit k 0 (chars g) (chars g) None")
  case None
  then show ?thesis using assms by (simp add: check_hit_def typing_ok_def)
next
  case (Some m)
  have "best_hit k (chars g) (length (chars g)) (Some m)"
    using find_hit_ok [of k "chars g" 0 None] Some by (simp add: best_hit_def)
  then have m: "m < length (chars g)" "lv (chars g ! m) > 0" by (simp_all add: best_hit_def)
  then have l: "letter_ok (screen_w g) (screen_h g) (chars g ! m)" using assms by (simp add: typing_ok_def)
  let ?d = "(chars g ! m)\<lparr>lv := (- (screen_h g - 16 + 1)) sdiv 30\<rparr>"
  have d: "letter_ok (screen_w g) (screen_h g) ?d"
    using l m(2) back_speed [of "screen_h g"] assms by (auto simp: letter_ok_def typing_ok_def split: if_splits)
  have "\<forall>c \<in> set ((chars g)[m := ?d]). letter_ok (screen_w g) (screen_h g) c"
    by (rule set_upd [where P = "letter_ok (screen_w g) (screen_h g)", OF _ d]) (use assms in \<open>simp add: typing_ok_def\<close>)
  then show ?thesis using assms Some by (simp add: check_hit_def typing_ok_def del: diff_add_eq_diff_diff_swap)
qed

lemma typing_step_ok:
  assumes "typing_ok g"
  shows "\<exists>g'. typing_step x g = Inr g' \<and> typing_ok g'"
  using update_frame_ok [OF assms] key_ok [OF assms] by (cases x) auto

interpretation letters: guarded_machine typing_step typing_ok
proof
  fix s x s' assume "typing_ok s" "typing_step x s = Inr s'"
  then show "typing_ok s'" using typing_step_ok [of s x] by auto
qed

lemma run_ok: "typing_ok g \<Longrightarrow> \<exists>g'. run_ops typing_step xs g = Inr g'"
proof (induction xs arbitrary: g)
  case (Cons x xs)
  obtain g1 where "typing_step x g = Inr g1" "typing_ok g1" using typing_step_ok [OF Cons.prems] by blast
  then show ?case using Cons.IH [of g1] by auto
qed simp

lemma render_ok: "typing_ok g \<Longrightarrow> is_ok (typing_render prev g)"
  by (fastforce simp: typing_ok_def letter_ok_def typing_render_def Let_def)

text \<open>Whatever frames and keys a game sees, on a screen of at least 8 by 75 no step fails, every letter stays on
  the screen and either falls, flies up or lies at the bottom for at most 30 frames, and every glyph drawn is
  one of the 26 textures.\<close>

theorem typing_safe:
  assumes "typing_ok g"
  shows "\<exists>g'. run_ops typing_step xs g = Inr g' \<and> typing_ok g' \<and> is_ok (typing_render prev g')"
proof -
  obtain g' where g': "run_ops typing_step xs g = Inr g'" using run_ok [OF assms] by blast
  have ok: "typing_ok g'" by (rule letters.run_inv [OF assms g'])
  show ?thesis using g' ok render_ok by blast
qed

lemma drain_ok: "typing_ok g \<Longrightarrow> drain_keys evs g = Some g' \<Longrightarrow> typing_ok g'"
  by (induction evs g rule: drain_keys.induct) (auto simp: key_ok split: if_splits)

text \<open>C18: A round of the main loop, at any time and with any events, does not fail from a state of the invariant and
  keeps it.\<close>

theorem typing_round_safe:
  assumes "typing_ok g"
  shows "case typing_round us evs (current, rendered, g, prev) of
      Inl e \<Rightarrow> False
    | Inr r \<Rightarrow> (case r of None \<Rightarrow> True | Some (current', rendered', g', prev', calls) \<Rightarrow> typing_ok g' \<and> current \<le> current')"
proof -
  let ?fs = "map Frame [current..sint (ucast (us div (1000000 div 30)) :: u32) - 1]"
  obtain g1 where g1: "run_ops typing_step ?fs g = Inr g1" "typing_ok g1"
    using run_ok [OF assms] letters.run_inv [OF assms] by blast
  show ?thesis
  proof (cases "drain_keys evs g1")
    case None
    then show ?thesis using g1(1) by (simp add: typing_round_def Let_def)
  next
    case (Some g2)
    then have "typing_ok g2" using drain_ok g1(2) by blast
    moreover from this have "\<exists>r. typing_render prev g2 = Inr r" using render_ok by (simp add: is_ok_iff)
    ultimately show ?thesis using g1(1) Some by (auto simp: typing_round_def Let_def)
  qed
qed

section \<open>Every letter goes\<close>

text \<open>How many frames a letter has at most.\<close>

definition life :: "int \<Rightarrow> letter \<Rightarrow> int" where
  "life h c = (if lt c > 0 then lt c else if lv c < 0 then ly c + 1 else 2 * h + 31 - ly c)"

lemma life_pos: "letter_ok w h c \<Longrightarrow> ch c \<noteq> 0 \<Longrightarrow> 0 < life h c"
  by (auto simp: letter_ok_def life_def split: if_splits)

lemma life_update: "letter_ok w h c \<Longrightarrow> 75 \<le> h \<Longrightarrow> ch c \<noteq> 0
    \<Longrightarrow> ch (fst (update_letter h c)) = 0 \<or> life h (fst (update_letter h c)) < life h c"
  by (auto simp: letter_ok_def update_letter_def life_def Let_def split: if_splits)

lemma life_back: "letter_ok w h c \<Longrightarrow> 75 \<le> h \<Longrightarrow> ch c \<noteq> 0 \<Longrightarrow> 0 < lv c
    \<Longrightarrow> life h (c\<lparr>lv := (- (h - 16 + 1)) sdiv 30\<rparr>) < life h c"
  using back_speed [of h] by (auto simp: letter_ok_def life_def split: if_splits)

lemma new_char_slot:
  assumes "new_char g = Inr g'" "ch (chars g ! i) \<noteq> 0"
  shows "chars g' ! i = chars g ! i \<and> length (chars g') = length (chars g) \<and> screen_h g' = screen_h g"
proof (cases "free_slot 0 (chars g)")
  case (Some j)
  then have "j \<noteq> i" using free_slot_ok [OF Some] assms(2) by auto
  then show ?thesis using assms(1) Some by (auto simp: new_char_def rbind_Inr_iff split: prod.splits)
qed (use assms in \<open>simp add: new_char_def\<close>)

fun is_frame :: "input \<Rightarrow> bool" where
  "is_frame (Frame _) = True"
| "is_frame (Key _) = False"

lemma key_life:
  assumes "typing_ok g" "i < 128" "ch (chars g ! i) \<noteq> 0"
  shows "screen_h (check_hit k g) = screen_h g \<and> life (screen_h g) (chars (check_hit k g) ! i) \<le> life (screen_h g) (chars g ! i)"
proof (cases "find_hit k 0 (chars g) (chars g) None")
  case None
  then show ?thesis by (simp add: check_hit_def)
next
  case (Some m)
  let ?c = "chars g ! i"
  have ok: "letter_ok (screen_w g) (screen_h g) ?c" "75 \<le> screen_h g" "length (chars g) = 128"
    using assms(1,2) by (auto simp: typing_ok_def)
  have "best_hit k (chars g) (length (chars g)) (Some m)"
    using find_hit_ok [of k "chars g" 0 None] Some by (simp add: best_hit_def)
  then have m: "m < 128" "0 < lv (chars g ! m)" using ok(3) by (simp_all add: best_hit_def)
  show ?thesis
  proof (cases "m = i")
    case True
    then have "life (screen_h g) (?c\<lparr>lv := (- (screen_h g - 16 + 1)) sdiv 30\<rparr>) < life (screen_h g) ?c"
      using life_back [OF ok(1,2) assms(3)] m(2) by simp
    then show ?thesis using Some True m(1) ok(3) by (simp add: check_hit_def)
  qed (use Some in \<open>simp add: check_hit_def\<close>)
qed

lemma step_life:
  assumes "typing_ok g" "typing_step x g = Inr g'" "i < 128" "ch (chars g ! i) \<noteq> 0"
  defines "c \<equiv> chars g ! i" and "c' \<equiv> chars g' ! i" and "h \<equiv> screen_h g"
  shows "screen_h g' = h \<and> (ch c' = 0 \<or> life h c' \<le> life h c - (if is_frame x then 1 else 0))"
proof -
  have ok: "letter_ok (screen_w g) h c" "75 \<le> h" "length (chars g) = 128"
    using assms(1,3) by (auto simp: typing_ok_def c_def h_def)
  show ?thesis
  proof (cases x)
    case (Frame n)
    then obtain g1 where g1: "(if n smod (30 sdiv 5) = 0 then new_char g else Inr g) = Inr g1"
      "g' = g1\<lparr>chars := map fst (map (update_letter (screen_h g1)) (chars g1)),
         miss := miss g1 + int (length (filter snd (map (update_letter (screen_h g1)) (chars g1))))\<rparr>"
      using assms(2) by (auto simp: game_logic_update_def rbind_Inr_iff Let_def)
    then have "chars g1 ! i = c" "length (chars g1) = 128" "screen_h g1 = h"
      using new_char_slot [of g g1 i] assms(4) ok(3) unfolding c_def h_def by (auto split: if_splits)
    then have "c' = fst (update_letter h c)" "screen_h g' = h" using g1(2) assms(3) by (simp_all add: c'_def)
    then show ?thesis using life_update [OF ok(1,2)] assms(4) Frame unfolding c_def [symmetric] by auto
  next
    case (Key k)
    then show ?thesis using key_life [OF assms(1,3,4), of k] assms(2) by (simp add: c_def c'_def h_def)
  qed
qed

lemma slot_freed:
  assumes "typing_ok g" "i < 128" "ch (chars g ! i) = 0 \<or> life (screen_h g) (chars g ! i) \<le> int (length (filter is_frame xs))"
  shows "\<exists>ys zs g'. xs = ys @ zs \<and> run_ops typing_step ys g = Inr g' \<and> ch (chars g' ! i) = 0"
  using assms
proof (induction xs arbitrary: g)
  case Nil
  have "letter_ok (screen_w g) (screen_h g) (chars g ! i)" using Nil.prems(1,2) by (simp add: typing_ok_def)
  then have "ch (chars g ! i) = 0" using Nil.prems(3) life_pos by fastforce
  then show ?case by (intro exI [of _ "[]"] exI [of _ g]) simp
next
  case (Cons x xs)
  show ?case
  proof (cases "ch (chars g ! i) = 0")
    case True
    then show ?thesis by (intro exI [of _ "[]"] exI [of _ "x # xs"] exI [of _ g]) simp
  next
    case False
    obtain g1 where g1: "typing_step x g = Inr g1" "typing_ok g1" using typing_step_ok [OF Cons.prems(1)] by blast
    have "ch (chars g1 ! i) = 0 \<or> life (screen_h g1) (chars g1 ! i) \<le> int (length (filter is_frame xs))"
      using step_life [OF Cons.prems(1) g1(1) Cons.prems(2) False] Cons.prems(3) False by (auto split: if_splits)
    then obtain ys zs g' where "xs = ys @ zs" "run_ops typing_step ys g1 = Inr g'" "ch (chars g' ! i) = 0"
      using Cons.IH [OF g1(2) Cons.prems(2)] by blast
    then show ?thesis using g1(1) by (intro exI [of _ "x # ys"] exI [of _ zs] exI [of _ g']) simp
  qed
qed

text \<open>C17: Every slot becomes free: within any inputs that have at least \<open>2 h + 31\<close> frames on a screen of height \<open>h\<close>, the
  keys in between do not matter, there is a moment at which the slot holds no letter.\<close>

theorem letters_go:
  assumes "typing_ok g" "i < 128" "2 * screen_h g + 31 \<le> int (length (filter is_frame xs))"
  shows "\<exists>ys zs g'. xs = ys @ zs \<and> run_ops typing_step ys g = Inr g' \<and> ch (chars g' ! i) = 0"
proof -
  have "letter_ok (screen_w g) (screen_h g) (chars g ! i)" using assms(1,2) by (simp add: typing_ok_def)
  then have "ch (chars g ! i) = 0 \<or> life (screen_h g) (chars g ! i) \<le> 2 * screen_h g + 31"
    using assms(1) by (auto simp: letter_ok_def life_def typing_ok_def split: if_splits)
  then show ?thesis using assms(3) by (intro slot_freed [OF assms(1,2)]) auto
qed

definition sample_typing :: typing where
  "sample_typing = \<lparr>chars = replicate 128 \<lparr>ch = 65, lx = 0, ly = 3, lv = 1, lt = 0\<rparr>, screen_w = 400, screen_h = 300,
     hit = 0, miss = 0, wrong = 0, rnd = 1\<rparr>"

lemma sample_typing_ok: "typing_ok sample_typing"
  by (simp add: typing_ok_def sample_typing_def letter_ok_def)

theorem typing_safe_witness:
  "\<exists>g'. run_ops typing_step [Frame 0, Key 65] sample_typing = Inr g' \<and> typing_ok g' \<and> is_ok (typing_render [] g')"
  by (rule typing_safe [OF sample_typing_ok])

theorem typing_round_safe_witness:
  "case typing_round 5000000 [(True, AM_KEY_LETTER 0), (False, AM_KEY_NONE)] (0, 0, sample_typing, []) of
      Inl e \<Rightarrow> False
    | Inr r \<Rightarrow> (case r of None \<Rightarrow> True | Some (current', rendered', g', prev', calls) \<Rightarrow> typing_ok g' \<and> 0 \<le> current')"
  by (rule typing_round_safe [OF sample_typing_ok])

theorem letters_go_witness:
  "\<exists>ys zs g'. replicate 700 (Frame 1) = ys @ zs \<and> run_ops typing_step ys sample_typing = Inr g' \<and> ch (chars g' ! 5) = 0"
  using letters_go [OF sample_typing_ok, of 5 "replicate 700 (Frame 1)"] by (simp add: sample_typing_def)

end
