(* ===== verification/AmCte.thy ===== *)
theory AmCte imports Prelude begin

text \<open>
  Context switching on the platform \<open>riscv32-core\<close>: \<open>abstract-machine/am/src/riscv/core/cte.c\<close> with the trap
  entry \<open>trap.S\<close>, and the two-thread kernel \<open>am-kernels/kernels/yield-os/yield-os.c\<close> on top of it.  The machine is
  that of the RISC-V manual: 32 registers, the four registers of a trap, and memory as words at the multiples of
  four; every address formed here is aligned when the stack pointer is.  A \<open>Context\<close> is the 36 words at its
  address: 32 registers, \<open>mcause\<close>, \<open>mstatus\<close>, \<open>mepc\<close> and \<open>pdir\<close>.
\<close>

section \<open>The machine and the trap entry\<close>

record mach =
  gpr :: "u32 list"
  pc :: u32
  mepc :: u32
  mcause :: u32
  mstatus :: u32
  mtvec :: u32
  mem :: "u32 \<Rightarrow> u32"
  user_handler :: bool
  pcb :: u32
  pcb_boot :: u32
  current :: u32

text \<open>The registers \<open>PUSH\<close> and \<open>POP\<close> go through: all but zero and the stack pointer.\<close>

definition REGS :: "nat list" where
  "REGS = 1 # [3..<32]"

definition reg_slot :: "u32 \<Rightarrow> nat \<Rightarrow> u32" where
  "reg_slot p n = p + 4 * of_nat n"

definition push_regs :: "u32 \<Rightarrow> u32 list \<Rightarrow> (u32 \<Rightarrow> u32) \<Rightarrow> u32 \<Rightarrow> u32" where
  "push_regs p g m = foldl (\<lambda>m n. m(reg_slot p n := g ! n)) m REGS"

definition pop_regs :: "u32 \<Rightarrow> (u32 \<Rightarrow> u32) \<Rightarrow> u32 list \<Rightarrow> u32 list" where
  "pop_regs p m g = foldl (\<lambda>g n. g[n := m (reg_slot p n)]) g REGS"

text \<open>Yield-os: the context of the thread that stops is kept at the start of its \<open>PCB\<close>, below its stack.\<close>

definition schedule :: "u32 \<Rightarrow> mach \<Rightarrow> u32 \<times> mach" where
  "schedule prev s =
     (let s = s\<lparr>mem := (mem s)(current s := prev)\<rparr>;
          s = s\<lparr>current := if current s = pcb s then pcb s + 32768 else pcb s\<rparr>
      in (mem s (current s), s))"

definition am_irq_handle :: "u32 \<Rightarrow> mach \<Rightarrow> abort + u32 \<times> mach" where
  "am_irq_handle c s =
     (if user_handler s then
        let s = (if mem s (c + 128) = 0xb then s\<lparr>mem := (mem s)(c + 136 := mem s (c + 136) + 4)\<rparr> else s);
            (c, s) = schedule c s
        in if c = 0 then Inl AssertFail else Inr (c, s)
      else Inr (c, s))"

definition am_asm_trap :: "mach \<Rightarrow> abort + mach" where
  "am_asm_trap s =
     (let sp = gpr s ! 2 - 144;
          m = push_regs sp (gpr s) (mem s);
          m = m(sp + 128 := mcause s); m = m(sp + 132 := mstatus s); m = m(sp + 136 := mepc s)
      in rbind (am_irq_handle sp (s\<lparr>mem := m\<rparr>)) (\<lambda>(c, s).
           let s = s\<lparr>mstatus := mem s (c + 132), mepc := mem s (c + 136)\<rparr>;
               s = s\<lparr>gpr := (pop_regs c (mem s) (gpr s))[2 := c + 144]\<rparr>
           in Inr (s\<lparr>pc := mepc s\<rparr>)))"

text \<open>\<open>cte_init\<close> stores the address of the trap entry and the handler.\<close>

definition cte_init :: "u32 \<Rightarrow> mach \<Rightarrow> mach" where
  "cte_init trap s = s\<lparr>mtvec := trap, user_handler := True\<rparr>"

definition kcontext :: "u32 \<Rightarrow> u32 \<Rightarrow> u32 \<Rightarrow> mach \<Rightarrow> u32 \<times> mach" where
  "kcontext kstack_end entry arg s =
     (let cp = kstack_end - 144;
          m = (mem s)(cp + 136 := entry); m = m(reg_slot cp 10 := arg); m = m(cp + 132 := 0x1800)
      in (cp, s\<lparr>mem := m\<rparr>))"

text \<open>The two instructions of \<open>yield\<close>: \<open>li a7, -1\<close>, and \<open>ecall\<close>, which traps from machine mode.\<close>

definition ecall :: "mach \<Rightarrow> abort + mach" where
  "ecall s = am_asm_trap (s\<lparr>mepc := pc s, mcause := 0xb, pc := mtvec s\<rparr>)"

definition yield :: "mach \<Rightarrow> abort + mach" where
  "yield s = ecall (s\<lparr>gpr := (gpr s)[17 := - 1], pc := pc s + 4\<rparr>)"

text \<open>\<open>main\<close> up to its \<open>yield\<close>; the thread function is at \<open>f\<close>.\<close>

definition yield_os_main :: "u32 \<Rightarrow> u32 \<Rightarrow> mach \<Rightarrow> abort + mach" where
  "yield_os_main trap f s =
     (let s = cte_init trap s;
          s = s\<lparr>current := pcb_boot s\<rparr>;
          (c, s) = kcontext (pcb s + 32768) f 1 s; s = s\<lparr>mem := (mem s)(pcb s := c)\<rparr>;
          (c, s) = kcontext (pcb s + 65536) f 2 s; s = s\<lparr>mem := (mem s)(pcb s + 32768 := c)\<rparr>
      in yield s)"

section \<open>Contexts\<close>

lemma slot_inj: "n < 64 \<Longrightarrow> n' < 64 \<Longrightarrow> reg_slot p n = reg_slot p n' \<longleftrightarrow> n = n'"
proof -
  assume "n < 64" "n' < 64"
  moreover have "unat (4 * of_nat k :: u32) = 4 * k" if "k < 64" for k
    using that by (simp add: unat_word_ariths unat_of_nat)
  ultimately show ?thesis unfolding reg_slot_def by (metis add_left_cancel mult_left_cancel zero_neq_numeral)
qed

lemma slots: "c + 128 = reg_slot c 32" "c + 132 = reg_slot c 33" "c + 136 = reg_slot c 34"
  by (simp_all add: reg_slot_def)

lemma REGS_iff: "n \<in> set REGS \<longleftrightarrow> n = 1 \<or> 3 \<le> n \<and> n < 32"
  unfolding REGS_def set_simps set_upt by auto

lemma REGS_less: "n \<in> set REGS \<Longrightarrow> n < 32"
  by (auto simp: REGS_iff)

lemma foldl_upd_other: "(\<And>n. n \<in> set ns \<Longrightarrow> a \<noteq> f n) \<Longrightarrow> foldl (\<lambda>m n. m(f n := v n)) m ns a = m a"
  by (induction ns arbitrary: m) auto

lemma foldl_upd_at: "n \<in> set ns \<Longrightarrow> inj_on f (set ns) \<Longrightarrow> foldl (\<lambda>m n. m(f n := v n)) m ns (f n) = v n"
proof (induction ns arbitrary: m)
  case (Cons k ns)
  show ?case
  proof (cases "n \<in> set ns")
    case True
    then show ?thesis using Cons by simp
  next
    case False
    then have "n = k" "\<And>j. j \<in> set ns \<Longrightarrow> f n \<noteq> f j" using Cons.prems by (auto simp: inj_on_def)
    then show ?thesis by (subst foldl.simps, subst foldl_upd_other) auto
  qed
qed simp

lemma push_at: "n \<in> set REGS \<Longrightarrow> push_regs p g m (reg_slot p n) = g ! n"
  unfolding push_regs_def by (rule foldl_upd_at) (auto simp: inj_on_def slot_inj REGS_iff)

lemma push_other: "(\<And>n. n < 32 \<Longrightarrow> a \<noteq> reg_slot p n) \<Longrightarrow> push_regs p g m a = m a"
  unfolding push_regs_def by (rule foldl_upd_other) (use REGS_less in blast)

lemma foldl_pop: "length (foldl (\<lambda>g n. g[n := h n]) g ns) = length g \<and>
    (i < length g \<longrightarrow> foldl (\<lambda>g n. g[n := h n]) g ns ! i = (if i \<in> set ns then h i else g ! i))"
  by (induction ns arbitrary: g) (auto simp: nth_list_update)

text \<open>The context at \<open>c\<close> is that of a thread with these registers, program counter and status.\<close>

type_synonym thread = "u32 list \<times> u32 \<times> u32"

definition holds :: "(u32 \<Rightarrow> u32) \<Rightarrow> u32 \<Rightarrow> thread \<Rightarrow> bool" where
  "holds m c = (\<lambda>(g, p, st). length g = 32 \<and> g ! 0 = 0 \<and> g ! 2 = c + 144 \<and> m (reg_slot c 33) = st \<and> m (reg_slot c 34) = p
     \<and> (\<forall>n \<in> set REGS. m (reg_slot c n) = g ! n))"

definition thread_of :: "mach \<Rightarrow> thread" where
  "thread_of s = (gpr s, pc s, mstatus s)"

lemma context_cong: "holds m c t \<Longrightarrow> (\<And>n. n < 36 \<Longrightarrow> m' (reg_slot c n) = m (reg_slot c n)) \<Longrightarrow> holds m' c t"
  by (auto simp: holds_def REGS_iff)

lemma restore_ok:
  assumes "holds m c (g, p, st)" "length h = 32" "h ! 0 = 0"
  shows "(pop_regs c m h)[2 := c + 144] = g"
proof (rule nth_equalityI)
  show "length ((pop_regs c m h)[2 := c + 144]) = length g" using assms foldl_pop [of "\<lambda>n. m (reg_slot c n)" h REGS]
    by (simp add: pop_regs_def holds_def)
  fix i assume "i < length ((pop_regs c m h)[2 := c + 144])"
  then have i: "i < 32" using assms(2) foldl_pop [of "\<lambda>n. m (reg_slot c n)" h REGS] by (simp add: pop_regs_def)
  then consider "i = 0" | "i = 2" | "i \<in> set REGS" unfolding REGS_iff by linarith
  then show "(pop_regs c m h)[2 := c + 144] ! i = g ! i"
    using assms i foldl_pop [of "\<lambda>n. m (reg_slot c n)" h REGS]
    by cases (auto simp: pop_regs_def holds_def nth_list_update REGS_iff)
qed

text \<open>The memory at the call of the handler, and what the handler makes of it.\<close>

definition saved_mem :: "mach \<Rightarrow> u32 \<Rightarrow> u32" where
  "saved_mem s = (let sp = gpr s ! 2 - 144; m = push_regs sp (gpr s) (mem s)
     in m(sp + 128 := mcause s, sp + 132 := mstatus s, sp + 136 := mepc s))"

lemma saved_mem_ok:
  assumes "length (gpr s) = 32" "gpr s ! 0 = 0"
  defines "c \<equiv> gpr s ! 2 - 144"
  shows "holds ((saved_mem s)(reg_slot c 34 := p)) c (gpr s, p, mstatus s) \<and> saved_mem s (reg_slot c 32) = mcause s
    \<and> saved_mem s (reg_slot c 34) = mepc s \<and> (\<forall>a. (\<forall>n < 36. a \<noteq> reg_slot c n) \<longrightarrow> saved_mem s a = mem s a)"
proof -
  have r: "n \<in> set REGS \<Longrightarrow> reg_slot c n \<noteq> reg_slot c 32 \<and> reg_slot c n \<noteq> reg_slot c 33 \<and> reg_slot c n \<noteq> reg_slot c 34" for n
    by (auto simp: slot_inj REGS_iff)
  show ?thesis using assms(1,2) r
    by (auto simp: saved_mem_def Let_def c_def [symmetric] slots holds_def push_at push_other slot_inj) (simp add: c_def)
qed

definition other :: "mach \<Rightarrow> u32" where
  "other s = (if current s = pcb s then pcb s + 32768 else pcb s)"

lemma schedule_eq: "schedule prev s = (((mem s)(current s := prev)) (other s), s\<lparr>mem := (mem s)(current s := prev), current := other s\<rparr>)"
  by (simp add: schedule_def other_def Let_def)

lemma other_mem [simp]: "other (s\<lparr>mem := m\<rparr>) = other s"
  by (simp add: other_def)

lemma irq_eq:
  assumes "user_handler s" "mem s (reg_slot c 32) = 0xb"
    and "m = (mem s)(reg_slot c 34 := mem s (reg_slot c 34) + 4, current s := c)" "m (other s) \<noteq> 0"
  shows "am_irq_handle c s = Inr (m (other s), s\<lparr>mem := m, current := other s\<rparr>)"
  using assms(1,2,4) unfolding assms(3) by (simp add: am_irq_handle_def schedule_eq slots Let_def del: fun_upd_apply)

lemma yield_ok:
  assumes g: "length (gpr s) = 32" "gpr s ! 0 = 0" and u: "user_handler s"
    and N: "N = other s" "N \<noteq> current s"
    and c: "c = gpr s ! 2 - 144" "\<forall>n < 36. reg_slot c n \<noteq> current s \<and> reg_slot c n \<noteq> N"
    and C: "holds (mem s) (mem s N) t" "mem s N \<noteq> 0"
      "\<forall>n < 36. reg_slot (mem s N) n \<noteq> current s \<and> (\<forall>k < 36. reg_slot (mem s N) n \<noteq> reg_slot c k)"
  shows "\<exists>s'. yield s = Inr s' \<and> thread_of s' = t \<and> current s' = N \<and> pcb s' = pcb s \<and> user_handler s'
    \<and> holds (mem s') c ((gpr s)[17 := - 1], pc s + 8, mstatus s) \<and> mem s' (current s) = c
    \<and> (\<forall>a. a \<noteq> current s \<longrightarrow> (\<forall>n < 36. a \<noteq> reg_slot c n) \<longrightarrow> mem s' a = mem s a)"
proof -
  define r where "r = s\<lparr>gpr := (gpr s)[17 := - 1], mepc := pc s + 4, mcause := 0xb, pc := mtvec s\<rparr>"
  define m where "m = (saved_mem r)(reg_slot c 34 := pc s + 8, current s := c)"
  have r: "length (gpr r) = 32" "gpr r ! 0 = 0" "gpr r ! 2 - 144 = c" "mem r = mem s" using g c(1) by (simp_all add: r_def)
  have rs: "user_handler r" "current r = current s" "pcb r = pcb s" "mcause r = 0xb" "mepc r + 4 = pc s + 8"
    using u by (simp_all add: r_def)
  have ro: "other r = N" using N(1) by (simp add: r_def other_def)
  note sm = saved_mem_ok [OF r(1,2), unfolded r(3)]
  have "holds ((saved_mem r)(reg_slot c 34 := pc s + 8)) c (gpr r, pc s + 8, mstatus r)" using sm by blast
  then have "holds m c (gpr r, pc s + 8, mstatus r)" by (rule context_cong) (use c(2) in \<open>simp add: m_def\<close>)
  then have h: "holds m c ((gpr s)[17 := - 1], pc s + 8, mstatus s)" by (simp add: r_def)
  have out: "m a = mem s a" if "a \<noteq> current s" "\<forall>n < 36. a \<noteq> reg_slot c n" for a
    using sm r(4) that by (auto simp: m_def)
  have m: "m = (saved_mem r)(reg_slot c 34 := saved_mem r (reg_slot c 34) + 4, current r := c)"
    using sm rs by (simp add: m_def add.commute)
  have mN: "m N = mem s N" using out [of N] N(2) c(2) by metis
  have mC: "holds m (mem s N) t" using C by (intro context_cong [OF C(1)] out) auto
  obtain g' p st where t: "t = (g', p, st)" by (cases t)
  let ?q = "r\<lparr>mem := saved_mem r\<rparr>"
  have "user_handler ?q" "mem ?q (reg_slot c 32) = 0xb" using rs sm by simp_all
  moreover have "m = (mem ?q)(reg_slot c 34 := mem ?q (reg_slot c 34) + 4, current ?q := c)" using m by simp
  moreover have "m (other ?q) = mem s N" using mN ro by simp
  ultimately have "am_irq_handle c ?q = Inr (mem s N, r\<lparr>mem := m, current := N\<rparr>)"
    using irq_eq [of ?q c m] C(2) ro by (simp del: fun_upd_apply)
  then have "am_asm_trap r = Inr (r\<lparr>mem := m, current := N, mstatus := m (reg_slot (mem s N) 33), mepc := m (reg_slot (mem s N) 34),
      gpr := (pop_regs (mem s N) m (gpr r))[2 := mem s N + 144], pc := m (reg_slot (mem s N) 34)\<rparr>)"
    by (simp add: am_asm_trap_def saved_mem_def r(3) slots Let_def)
  moreover have "yield s = am_asm_trap r" by (simp add: yield_def ecall_def r_def)
  moreover have "(pop_regs (mem s N) m (gpr r))[2 := mem s N + 144] = g'" "m (reg_slot (mem s N) 33) = st" "m (reg_slot (mem s N) 34) = p"
    using mC r(1,2) by (auto simp: t holds_def intro!: restore_ok [of m "mem s N" g' p st])
  ultimately show ?thesis using h out u by (simp add: thread_of_def t m_def r_def)
qed

section \<open>The areas of the threads\<close>

definition area :: "u32 \<Rightarrow> u32 \<Rightarrow> bool" where
  "area T a \<longleftrightarrow> unat (a - T) < 32768"

definition frame_ok :: "u32 \<Rightarrow> u32 \<Rightarrow> bool" where
  "frame_ok T c \<longleftrightarrow> 4 \<le> unat (c - T) \<and> unat (c - T) \<le> 32768 - 144"

lemma frame_area:
  assumes "frame_ok T c" "n < 36"
  shows "area T (reg_slot c n)" "reg_slot c n \<noteq> T"
proof -
  define d where "d = c - T"
  have "reg_slot c n - T = d + 4 * of_nat n" by (simp add: reg_slot_def d_def)
  moreover have "unat (4 * of_nat n :: u32) = 4 * n" using assms(2) by (simp add: unat_word_ariths unat_of_nat)
  ultimately have "unat (reg_slot c n - T) = unat d + 4 * n"
    using assms unfolding frame_ok_def d_def [symmetric] by (simp add: unat_plus_if')
  then show "area T (reg_slot c n)" "reg_slot c n \<noteq> T" using assms unfolding area_def frame_ok_def d_def [symmetric] by auto
qed

lemma area_self: "area T T"
  by (simp add: area_def)

lemma areas_disjoint: "area T a \<Longrightarrow> \<not> area (T + 32768) a"
proof
  assume a: "area T a" "area (T + 32768) a"
  define b where "b = a - (T + 32768)"
  have "a - T = b + 32768" by (simp add: b_def)
  moreover have "unat b < 32768" using a(2) by (simp add: area_def b_def)
  ultimately have "unat (a - T) = unat b + 32768" by (simp add: unat_plus_if')
  then show False using a(1) by (simp add: area_def)
qed

section \<open>Runs of the kernel\<close>

text \<open>
  What a thread may do between two yields: any change of its registers and of the memory of its own \<open>PCB\<close>,
  with room on its stack for one more context.
\<close>

inductive user_step :: "mach \<Rightarrow> mach \<Rightarrow> bool" where
  "length g = 32 \<Longrightarrow> g ! 0 = 0 \<Longrightarrow> frame_ok (current s) (g ! 2 - 144)
    \<Longrightarrow> (\<And>a. \<not> area (current s) a \<Longrightarrow> m a = mem s a) \<Longrightarrow> user_step s (s\<lparr>gpr := g, pc := p, mem := m\<rparr>)"

text \<open>The kernel after its start, with what each thread will find when it is resumed.\<close>

definition first_thread :: "(u32 \<Rightarrow> u32) \<Rightarrow> u32 \<Rightarrow> u32 \<Rightarrow> u32 \<Rightarrow> thread" where
  "first_thread m T f arg =
     (map (\<lambda>n. if n = 0 then 0 else if n = 2 then T + 32768 else if n = 10 then arg else m (reg_slot (T + 32768 - 144) n)) [0..<32],
      f, 0x1800)"

inductive kernel :: "u32 \<Rightarrow> u32 \<Rightarrow> mach \<Rightarrow> mach \<Rightarrow> (u32 \<Rightarrow> thread) \<Rightarrow> bool" for trap f s0 where
  Boot: "yield_os_main trap f s0 = Inr s
    \<Longrightarrow> kernel trap f s0 s (\<lambda>T. first_thread (mem s0) T f (if T = pcb s0 then 1 else 2))"
| User: "kernel trap f s0 s th \<Longrightarrow> user_step s s' \<Longrightarrow> kernel trap f s0 s' th"
| Yield: "kernel trap f s0 s th \<Longrightarrow> yield s = Inr s'
    \<Longrightarrow> kernel trap f s0 s' (th(current s := ((gpr s)[17 := - 1], pc s + 8, mstatus s)))"

definition kernel_inv :: "mach \<Rightarrow> (u32 \<Rightarrow> thread) \<Rightarrow> bool" where
  "kernel_inv s th \<longleftrightarrow> user_handler s \<and> length (gpr s) = 32 \<and> gpr s ! 0 = 0 \<and> current s \<in> {pcb s, pcb s + 32768}
     \<and> frame_ok (current s) (gpr s ! 2 - 144) \<and> frame_ok (other s) (mem s (other s)) \<and> unat (pcb s) + 65536 \<le> 2 ^ 32
     \<and> holds (mem s) (mem s (other s)) (th (other s))"

lemma area_other: "current s \<in> {pcb s, pcb s + 32768} \<Longrightarrow> area (other s) a \<Longrightarrow> \<not> area (current s) a"
  using areas_disjoint [of "pcb s" a] by (auto simp: other_def)

lemma user_inv:
  assumes "kernel_inv s th" "user_step s s'"
  shows "kernel_inv s' th"
  using assms(2)
proof cases
  case (1 g m p)
  have inv: "current s \<in> {pcb s, pcb s + 32768}" "frame_ok (other s) (mem s (other s))" "holds (mem s) (mem s (other s)) (th (other s))"
    using assms(1) by (simp_all add: kernel_inv_def)
  have o: "other s' = other s" by (simp add: 1 other_def)
  have same: "m a = mem s a" if "area (other s) a" for a
    using 1(5) area_other [OF inv(1) that] by blast
  have "m (other s) = mem s (other s)" by (rule same) (rule area_self)
  moreover have "holds m (mem s (other s)) (th (other s))"
    by (rule context_cong [OF inv(3)], rule same, rule frame_area(1) [OF inv(2)])
  ultimately show ?thesis using assms(1) 1(2-4) unfolding kernel_inv_def o by (simp add: 1(1))
qed

lemma frame_nonzero: "frame_ok T c \<Longrightarrow> unat p + 65536 \<le> 2 ^ 32 \<Longrightarrow> T \<in> {p, p + 32768} \<Longrightarrow> c \<noteq> 0"
proof -
  assume a: "frame_ok T c" "unat p + 65536 \<le> 2 ^ 32" "T \<in> {p, p + 32768}"
  define d where "d = c - T"
  have "unat T + 32768 \<le> 2 ^ 32" using a(2,3) by (auto simp: unat_plus_if')
  moreover have "4 \<le> unat d" "unat d \<le> 32624" using a(1) by (simp_all add: frame_ok_def d_def)
  ultimately have "unat (T + d) = unat T + unat d" by (simp add: unat_plus_if')
  then have "unat c \<noteq> 0" using \<open>4 \<le> unat d\<close> by (simp add: d_def)
  then show ?thesis by (metis unat_0)
qed

text \<open>A yield in a state of the invariant succeeds and resumes the other thread.\<close>

lemma yield_inv:
  assumes "kernel_inv s th"
  shows "\<exists>s'. yield s = Inr s' \<and> current s' = other s \<and> pcb s' = pcb s \<and> thread_of s' = th (other s)
    \<and> kernel_inv s' (th(current s := ((gpr s)[17 := - 1], pc s + 8, mstatus s)))"
proof -
  let ?T = "current s" and ?N = "other s" and ?c = "gpr s ! 2 - 144"
  have T: "?T \<in> {pcb s, pcb s + 32768}" and c: "frame_ok ?T ?c" and C: "frame_ok ?N (mem s ?N)" and w: "unat (pcb s) + 65536 \<le> 2 ^ 32"
    and h: "holds (mem s) (mem s ?N) (th ?N)" and g: "user_handler s" "length (gpr s) = 32" "gpr s ! 0 = 0"
    using assms by (simp_all add: kernel_inv_def)
  have N: "?N \<in> {pcb s, pcb s + 32768}" "?N \<noteq> ?T" using T by (auto simp: other_def)
  have disj: "area ?N a \<Longrightarrow> \<not> area ?T a" for a by (rule area_other [OF T])
  have cs: "\<forall>n < 36. reg_slot ?c n \<noteq> ?T \<and> reg_slot ?c n \<noteq> ?N"
    using frame_area [OF c] disj [OF area_self] by metis
  have Cs: "\<forall>n < 36. reg_slot (mem s ?N) n \<noteq> ?T \<and> (\<forall>k < 36. reg_slot (mem s ?N) n \<noteq> reg_slot ?c k)"
    using frame_area(1) [OF c] frame_area(1) [OF C] disj area_self by metis
  obtain s' where s': "yield s = Inr s'" "thread_of s' = th ?N" "current s' = ?N" "pcb s' = pcb s" "user_handler s'"
    "holds (mem s') ?c ((gpr s)[17 := - 1], pc s + 8, mstatus s)" "mem s' ?T = ?c"
    using yield_ok [OF g(2,3,1) refl N(2) refl cs h frame_nonzero [OF C w N(1)] Cs] by blast
  have "other s' = ?T" using s'(3,4) T by (auto simp: other_def)
  moreover obtain g' p st where t: "th ?N = (g', p, st)" by (cases "th ?N")
  moreover have "gpr s' = g'" using s'(2) t by (simp add: thread_of_def)
  ultimately have "kernel_inv s' (th(?T := ((gpr s)[17 := - 1], pc s + 8, mstatus s)))"
    using s' h c C w N(1) by (simp add: kernel_inv_def holds_def)
  then show ?thesis using s' by blast
qed

section \<open>The start\<close>

text \<open>The stack of \<open>main\<close> and \<open>pcb_boot\<close> are outside the two areas.\<close>

definition boot_ok :: "mach \<Rightarrow> bool" where
  "boot_ok s \<longleftrightarrow> length (gpr s) = 32 \<and> gpr s ! 0 = 0 \<and> unat (pcb s) + 65536 \<le> 2 ^ 32
     \<and> \<not> area (pcb s) (pcb_boot s) \<and> \<not> area (pcb s + 32768) (pcb_boot s)
     \<and> (\<forall>n < 36. let a = reg_slot (gpr s ! 2 - 144) n in a \<noteq> pcb_boot s \<and> \<not> area (pcb s) a \<and> \<not> area (pcb s + 32768) a)"

lemma top_frame: "frame_ok T (T + 32768 - 144)"
  by (simp add: frame_ok_def)

lemma first_holds:
  assumes "c = T + 32768 - 144"
    and "\<And>n. n < 36 \<Longrightarrow> m (reg_slot c n) = (m0(reg_slot c 34 := f, reg_slot c 10 := arg, reg_slot c 33 := 0x1800)) (reg_slot c n)"
  shows "holds m c (first_thread m0 T f arg)"
proof -
  have "m (reg_slot c n) = (if n = 34 then f else if n = 10 then arg else if n = 33 then 0x1800 else m0 (reg_slot c n))"
    if "n < 36" for n
    using assms(2) [OF that] that by (auto simp: slot_inj)
  then show ?thesis using assms(1) by (auto simp: holds_def first_thread_def REGS_iff)
qed

definition boot_mem :: "u32 \<Rightarrow> mach \<Rightarrow> u32 \<Rightarrow> u32" where
  "boot_mem f s = (let P = pcb s; Q = P + 32768; A = P + 32768 - 144; B = Q + 32768 - 144 in
     (mem s)(reg_slot A 34 := f, reg_slot A 10 := 1, reg_slot A 33 := 0x1800, P := A,
       reg_slot B 34 := f, reg_slot B 10 := 2, reg_slot B 33 := 0x1800, Q := B))"

lemma main_yield: "yield_os_main trap f s
    = yield (s\<lparr>mtvec := trap, user_handler := True, current := pcb_boot s, mem := boot_mem f s\<rparr>)"
  by (simp add: yield_os_main_def kcontext_def cte_init_def boot_mem_def slots Let_def del: fun_upd_apply)

lemma boot_mem_ok:
  fixes s
  defines "P \<equiv> pcb s" and "Q \<equiv> pcb s + 32768"
  shows "boot_mem f s P = P + 32768 - 144 \<and> boot_mem f s Q = Q + 32768 - 144
    \<and> holds (boot_mem f s) (P + 32768 - 144) (first_thread (mem s) P f 1)
    \<and> holds (boot_mem f s) (Q + 32768 - 144) (first_thread (mem s) Q f 2)"
proof -
  let ?A = "P + 32768 - 144" and ?B = "Q + 32768 - 144"
  have Q: "Q = P + 32768" by (simp add: P_def Q_def)
  have disj: "area P a \<Longrightarrow> \<not> area Q a" for a unfolding Q by (rule areas_disjoint)
  note fa = frame_area [OF top_frame]
  have ne: "P \<noteq> Q" by (simp add: Q)
  have A: "reg_slot ?A n \<noteq> P" "reg_slot ?A n \<noteq> Q" "reg_slot ?B n \<noteq> P" "reg_slot ?B n \<noteq> Q" if "n < 36" for n
    using fa [OF that] disj area_self by metis+
  have AB: "reg_slot ?A n \<noteq> reg_slot ?B k" if "n < 36" "k < 36" for n k
    using fa(1) [OF that(1), of P] fa(1) [OF that(2), of Q] disj by metis
  then have BA: "reg_slot ?B k \<noteq> reg_slot ?A n" if "n < 36" "k < 36" for n k
    using that by metis
  have m: "boot_mem f s = (mem s)(reg_slot ?A 34 := f, reg_slot ?A 10 := 1, reg_slot ?A 33 := 0x1800, P := ?A,
       reg_slot ?B 34 := f, reg_slot ?B 10 := 2, reg_slot ?B 33 := 0x1800, Q := ?B)"
    by (simp add: boot_mem_def P_def Q_def Let_def del: fun_upd_apply)
  have "holds (boot_mem f s) ?A (first_thread (mem s) P f 1)"
    by (rule first_holds [OF refl]) (use A AB in \<open>simp add: m\<close>)
  moreover have "holds (boot_mem f s) ?B (first_thread (mem s) Q f 2)"
    by (rule first_holds [OF refl]) (use A BA in \<open>simp add: m\<close>)
  ultimately show ?thesis using A(3) [THEN not_sym] ne by (simp add: m)
qed

lemma boot_inv:
  assumes "boot_ok s0"
  shows "\<exists>s. yield_os_main trap f s0 = Inr s \<and> kernel_inv s (\<lambda>T. first_thread (mem s0) T f (if T = pcb s0 then 1 else 2))"
proof -
  let ?P = "pcb s0" and ?Q = "pcb s0 + 32768" and ?c = "gpr s0 ! 2 - 144" and ?m = "boot_mem f s0"
  define r where "r = s0\<lparr>mtvec := trap, user_handler := True, current := pcb_boot s0, mem := ?m\<rparr>"
  have r: "length (gpr r) = 32" "gpr r ! 0 = 0" "user_handler r" "gpr r ! 2 = gpr s0 ! 2" "current r = pcb_boot s0" "pcb r = ?P"
    "mem r = ?m" using assms by (simp_all add: r_def boot_ok_def)
  have w: "unat ?P + 65536 \<le> 2 ^ 32" and pb: "\<not> area ?P (pcb_boot s0)" "\<not> area ?Q (pcb_boot s0)"
    and cs: "\<And>n. n < 36 \<Longrightarrow> reg_slot ?c n \<noteq> pcb_boot s0 \<and> \<not> area ?P (reg_slot ?c n) \<and> \<not> area ?Q (reg_slot ?c n)"
    using assms by (simp_all add: boot_ok_def Let_def)
  note m = boot_mem_ok [of f s0]
  have N: "?P = other r" "?P \<noteq> current r" using pb(1) area_self [of ?P] r by (auto simp: other_def)
  have A: "mem r ?P = ?P + 32768 - 144" using m r by simp
  have h: "holds (mem r) (mem r ?P) (first_thread (mem s0) ?P f 1)" using m r(7) unfolding A by simp
  have nz: "mem r ?P \<noteq> 0" using frame_nonzero [OF top_frame [of ?P] w] A by simp
  have c1: "\<forall>n < 36. reg_slot ?c n \<noteq> current r \<and> reg_slot ?c n \<noteq> ?P" using cs area_self r(5) by metis
  have c2: "\<forall>n < 36. reg_slot (mem r ?P) n \<noteq> current r \<and> (\<forall>k < 36. reg_slot (mem r ?P) n \<noteq> reg_slot ?c k)"
    unfolding A r(5) using frame_area(1) [OF top_frame [of ?P]] pb(1) cs by metis
  have c0: "?c = gpr r ! 2 - 144" using r(4) by simp
  obtain s where s: "yield r = Inr s" "thread_of s = first_thread (mem s0) ?P f 1" "current s = ?P" "pcb s = pcb r" "user_handler s"
    "\<forall>a. a \<noteq> current r \<longrightarrow> (\<forall>n < 36. a \<noteq> reg_slot ?c n) \<longrightarrow> mem s a = mem r a"
    using yield_ok [OF r(1-3) N c0 c1 h nz c2] by blast
  have o: "other s = ?Q" using s(3,4) r(6) by (simp add: other_def)
  have keep: "mem s a = ?m a" if "area ?Q a" for a using s(6) cs pb(2) r(5,7) that by metis
  have B: "mem s ?Q = ?Q + 32768 - 144" using keep [OF area_self] m by simp
  have "holds (mem s) (?Q + 32768 - 144) (first_thread (mem s0) ?Q f 2)"
    by (rule context_cong [of ?m], use m in blast, rule keep, rule frame_area(1) [OF top_frame])
  moreover have g: "length (gpr s) = 32" "gpr s ! 0 = 0" "gpr s ! 2 = ?P + 32768"
    using s(2) by (simp_all add: thread_of_def first_thread_def)
  ultimately have "kernel_inv s (\<lambda>T. first_thread (mem s0) T f (if T = ?P then 1 else 2))"
    using g s(3-5) r(6) w top_frame [of ?P] top_frame [of ?Q] unfolding kernel_inv_def o B by simp
  then show ?thesis using s(1) main_yield [of trap f s0] unfolding r_def by auto
qed

text \<open>C10: In every run of the two-thread kernel, which its start and any changes the threads make to their registers
  and their own stacks lead to, a yield goes through the trap entry and the scheduler without failing and
  resumes the other thread: at its start with its argument in \<open>a0\<close> and its own stack, and later with all the
  registers, the program counter behind its yield and the status it had when it gave up the processor.\<close>

theorem kernel_resumes:
  assumes "boot_ok s0" "kernel trap f s0 s th"
  shows "\<exists>s'. yield s = Inr s' \<and> current s' = other s \<and> thread_of s' = th (other s)"
proof -
  have "kernel_inv s th" using assms(2)
  proof induction
    case (Boot s)
    then show ?case using boot_inv [OF assms(1), of trap f] by auto
  next
    case (User s th s')
    then show ?case using user_inv by blast
  next
    case (Yield s th s')
    then show ?case using yield_inv [of s th] by (auto simp del: fun_upd_apply)
  qed
  then show ?thesis using yield_inv by blast
qed

definition sample_mach :: mach where
  "sample_mach = \<lparr>gpr = (replicate 32 0)[2 := 0x80100000], pc = 0x80000000, mepc = 0, mcause = 0, mstatus = 0x1800, mtvec = 0,
     mem = \<lambda>_. 0, user_handler = False, pcb = 0x80001000, pcb_boot = 0x80020000, current = 0\<rparr>"

lemma sample_boot: "boot_ok sample_mach"
proof -
  have "\<forall>n \<in> set [0..<36]. let a = reg_slot (0x80100000 - 144) n in
      a \<noteq> 0x80020000 \<and> \<not> area 0x80001000 a \<and> \<not> area (0x80001000 + 32768) a"
    by (simp add: upt_rec reg_slot_def area_def)
  then show ?thesis by (simp add: boot_ok_def sample_mach_def area_def del: upt_rec_numeral)
qed

theorem kernel_resumes_witness:
  "\<exists>s th s'. kernel 0x80000100 0x80000200 sample_mach s th \<and> yield s = Inr s' \<and> thread_of s' = th (other s)"
proof -
  obtain s where "yield_os_main 0x80000100 0x80000200 sample_mach = Inr s"
    using boot_inv [OF sample_boot] by blast
  from kernel.Boot [OF this] show ?thesis using kernel_resumes [OF sample_boot] by blast
qed

end
