(* ===== verification/AmIoe.thy ===== *)
theory AmIoe imports Prelude begin

text \<open>
  The devices of the platform \<open>riscv32-core\<close> (\<open>abstract-machine/am/src/riscv/core\<close>: \<open>ioe.c\<close>, \<open>timer.c\<close>, \<open>input.c\<close>)
  behind the registers of \<open>am/include/amdev.h\<close>, and its multiprocessor interface \<open>mpe.c\<close>.  A memory mapped
  register is a function from the address to the word an \<open>inl\<close> returns.
\<close>

section \<open>The handlers\<close>

datatype io_value =
    UartConfig bool
  | TimerConfig bool bool
  | TimerRtc int int int int int int
  | TimerUptime u64
  | InputConfig bool
  | InputKeybrd bool int

definition am_timer_uptime :: "(u32 \<Rightarrow> u32) \<Rightarrow> u64" where
  "am_timer_uptime inl =
     (let h_us = inl (0x200bff8 + 4); l_us = inl 0x200bff8
      in push_bit 32 (ucast h_us) OR (ucast l_us div 8))"

text \<open>Year, month, day, hour, minute, second.\<close>

definition am_timer_rtc :: io_value where
  "am_timer_rtc = TimerRtc 1900 0 0 0 0 0"

definition am_timer_config :: io_value where
  "am_timer_config = TimerConfig False False"

definition am_input_config :: io_value where
  "am_input_config = InputConfig False"

definition am_uart_config :: io_value where
  "am_uart_config = UartConfig False"

definition am_input_keybrd :: io_value where
  "am_input_keybrd = InputKeybrd False 0"

datatype io_handler = AM_UART_CONFIG | AM_TIMER_CONFIG | AM_TIMER_RTC | AM_TIMER_UPTIME | AM_INPUT_CONFIG | AM_INPUT_KEYBRD | Fail

text \<open>The table as it is initialised, and after \<open>ioe_init\<close>.\<close>

definition lut :: "io_handler option list" where
  "lut = (replicate 128 None)[4 := Some AM_TIMER_CONFIG, 5 := Some AM_TIMER_RTC, 6 := Some AM_TIMER_UPTIME,
     7 := Some AM_INPUT_CONFIG, 8 := Some AM_INPUT_KEYBRD, 1 := Some AM_UART_CONFIG]"

definition ioe_init :: "io_handler option list \<Rightarrow> io_handler option list" where
  "ioe_init tab = map (\<lambda>h. case h of None \<Rightarrow> Some Fail | Some h \<Rightarrow> Some h) tab"

fun call_handler :: "(u32 \<Rightarrow> u32) \<Rightarrow> io_handler \<Rightarrow> abort + io_value" where
  "call_handler inl AM_UART_CONFIG = Inr am_uart_config"
| "call_handler inl AM_TIMER_CONFIG = Inr am_timer_config"
| "call_handler inl AM_TIMER_RTC = Inr am_timer_rtc"
| "call_handler inl AM_TIMER_UPTIME = Inr (TimerUptime (am_timer_uptime inl))"
| "call_handler inl AM_INPUT_CONFIG = Inr am_input_config"
| "call_handler inl AM_INPUT_KEYBRD = Inr am_input_keybrd"
| "call_handler inl Fail = Inl (Panic ''access nonexist register'')"

definition ioe_read :: "io_handler option list \<Rightarrow> (u32 \<Rightarrow> u32) \<Rightarrow> int \<Rightarrow> abort + io_value" where
  "ioe_read tab inl reg =
     (if reg < 0 \<or> reg \<ge> int (length tab) then Inl OutOfBounds
      else case tab ! nat reg of None \<Rightarrow> Inl NullDeref | Some h \<Rightarrow> call_handler inl h)"

text \<open>A write passes the buffer to the same handlers, which overwrite it with their value.\<close>

definition ioe_write :: "io_handler option list \<Rightarrow> (u32 \<Rightarrow> u32) \<Rightarrow> int \<Rightarrow> io_value \<Rightarrow> abort + io_value" where
  "ioe_write tab inl reg buf =
     (if reg < 0 \<or> reg \<ge> int (length tab) then Inl OutOfBounds
      else case tab ! nat reg of None \<Rightarrow> Inl NullDeref | Some h \<Rightarrow> call_handler inl h)"

text \<open>One processor: no lock is ever taken.\<close>

definition cpu_count :: nat where "cpu_count = 1"

definition cpu_current :: nat where "cpu_current = 0"

definition atomic_xchg :: "int \<Rightarrow> int \<Rightarrow> int \<times> int" where
  "atomic_xchg m newval = (0, m)"

section \<open>Properties\<close>

text \<open>The registers \<open>amdev.h\<close> numbers by what the platform answers.\<close>

lemma ioe_answers:
  "\<forall>reg \<in> {0..127}. ioe_read (ioe_init lut) inl reg =
     (if reg = 1 then Inr (UartConfig False) else if reg = 4 then Inr (TimerConfig False False)
      else if reg = 5 then Inr (TimerRtc 1900 0 0 0 0 0) else if reg = 6 then Inr (TimerUptime (am_timer_uptime inl))
      else if reg = 7 then Inr (InputConfig False) else if reg = 8 then Inr (InputKeybrd False 0)
      else Inl (Panic ''access nonexist register''))"
  by (auto simp: ioe_read_def ioe_init_def lut_def nth_list_update am_uart_config_def am_timer_config_def am_timer_rtc_def
      am_input_config_def am_input_keybrd_def nat_eq_iff2)

text \<open>The counter runs at 8 ticks in a microsecond; the division is of its low word only.\<close>

lemma uptime_nat: "unat (am_timer_uptime inl) = 2 ^ 32 * unat (inl (0x200bff8 + 4)) + unat (inl 0x200bff8) div 8"
proof -
  have low: "unat x < 2 ^ 32" for x :: u32 using unsigned_less [of x, where ?'a = nat] by simp
  define h :: u64 where "h = ucast (inl (0x200bff8 + 4))"
  define l :: u64 where "l = ucast (inl 0x200bff8)"
  have h: "unat h = unat (inl (0x200bff8 + 4))" "unat h < 2 ^ 32" and l: "unat l = unat (inl 0x200bff8)" "unat l < 2 ^ 32"
    using low [of "inl (0x200bff8 + 4)"] low [of "inl 0x200bff8"]
    by (simp_all add: h_def l_def unsigned_ucast_eq take_bit_nat_eq_self)
  have "push_bit 32 h + drop_bit 3 l = push_bit 32 h OR drop_bit 3 l"
    by (rule disjunctive_add) (auto simp: l_def bit_push_bit_iff bit_drop_bit_eq bit_ucast_iff dest: bit_imp_le_length)
  moreover have "drop_bit 3 l = l div 8" by (simp add: drop_bit_eq_div)
  ultimately have "am_timer_uptime inl = push_bit 32 h + l div 8" by (simp add: am_timer_uptime_def h_def l_def Let_def)
  moreover have "unat (push_bit 32 h) = 2 ^ 32 * unat h" using h(2) by (simp add: push_bit_eq_mult unat_word_ariths mult.commute)
  moreover have "unat (l div 8) = unat l div 8" by (simp add: unat_div)
  moreover have "2 ^ 32 * unat h + unat l div 8 < 2 ^ 64"
  proof -
    have "unat l div 8 < 2 ^ 29" using l(2) by simp
    moreover have "2 ^ 32 * unat h \<le> 2 ^ 32 * (2 ^ 32 - 1)" using h(2) by (intro mult_le_mono2) linarith
    ultimately show ?thesis by simp
  qed
  ultimately show ?thesis using h(1) l(1) by (simp add: unat_plus_if')
qed

text \<open>The uptime in microseconds that the platform reports is the 64 bit counter, of 8 ticks in a
  microsecond, divided by 8 exactly when the high word of the counter is zero: the division is of the low
  word only, so from the first carry on the clock is ahead.\<close>

theorem uptime_exact:
  "unat (am_timer_uptime inl) = (2 ^ 32 * unat (inl (0x200bff8 + 4)) + unat (inl 0x200bff8)) div 8 \<longleftrightarrow> inl (0x200bff8 + 4) = 0"
proof -
  define h l where "h = unat (inl (0x200bff8 + 4))" and "l = unat (inl 0x200bff8)"
  have "(2 ^ 32 * h + l) div 8 = 2 ^ 29 * h + l div 8"
  proof -
    have "2 ^ 32 * h + l = 8 * (2 ^ 29 * h) + l" by simp
    then show ?thesis by (simp only: div_mult_self4)
  qed
  moreover have "inl (0x200bff8 + 4) = 0 \<longleftrightarrow> h = 0" unfolding h_def by (metis unat_0 word_unat_eq_iff)
  ultimately show ?thesis unfolding uptime_nat h_def [symmetric] l_def [symmetric] by auto
qed

text \<open>The register whose type a value has.\<close>

fun reg_of :: "io_value \<Rightarrow> int" where
  "reg_of (UartConfig _) = 1"
| "reg_of (TimerConfig _ _) = 4"
| "reg_of (TimerRtc _ _ _ _ _ _) = 5"
| "reg_of (TimerUptime _) = 6"
| "reg_of (InputConfig _) = 7"
| "reg_of (InputKeybrd _ _) = 8"


end
