(* ===== verification/Sha256.thy ===== *)
theory Sha256 imports Blocks KlibStdio begin

text \<open>
  \<open>am-kernels/kernels/blockchain/src/sha256.cpp\<close> and \<open>include/sha256.h\<close>: the SHA-256 digest, computed from the
  pieces of a message as they come.  A message is the list of the bytes from its pointer on; the two blocks of
  \<open>m_block\<close> and the eight words of \<open>m_h\<close> are lists.
\<close>

unbundle bit_operations_syntax

section \<open>The class\<close>

definition sha256_k :: "u32 list" where
  "sha256_k = concat [
    [0x428a2f98, 0x71374491, 0xb5c0fbcf, 0xe9b5dba5], [0x3956c25b, 0x59f111f1, 0x923f82a4, 0xab1c5ed5],
    [0xd807aa98, 0x12835b01, 0x243185be, 0x550c7dc3], [0x72be5d74, 0x80deb1fe, 0x9bdc06a7, 0xc19bf174],
    [0xe49b69c1, 0xefbe4786, 0x0fc19dc6, 0x240ca1cc], [0x2de92c6f, 0x4a7484aa, 0x5cb0a9dc, 0x76f988da],
    [0x983e5152, 0xa831c66d, 0xb00327c8, 0xbf597fc7], [0xc6e00bf3, 0xd5a79147, 0x06ca6351, 0x14292967],
    [0x27b70a85, 0x2e1b2138, 0x4d2c6dfc, 0x53380d13], [0x650a7354, 0x766a0abb, 0x81c2c92e, 0x92722c85],
    [0xa2bfe8a1, 0xa81a664b, 0xc24b8b70, 0xc76c51a3], [0xd192e819, 0xd6990624, 0xf40e3585, 0x106aa070],
    [0x19a4c116, 0x1e376c08, 0x2748774c, 0x34b0bcb5], [0x391c0cb3, 0x4ed8aa4a, 0x5b9cca4f, 0x682e6ff3],
    [0x748f82ee, 0x78a5636f, 0x84c87814, 0x8cc70208], [0x90befffa, 0xa4506ceb, 0xbef9a3f7, 0xc67178f2]]"

record SHA256 =
  m_tot_len :: u32
  m_len :: u32
  m_block :: "u8 list"
  m_h :: "u32 list"

definition SHA2_SHFR :: "u32 \<Rightarrow> nat \<Rightarrow> u32" where
  "SHA2_SHFR x n = drop_bit n x"

definition SHA2_ROTR :: "u32 \<Rightarrow> nat \<Rightarrow> u32" where
  "SHA2_ROTR x n = drop_bit n x OR push_bit (4 * 8 - n) x"

definition SHA2_CH :: "u32 \<Rightarrow> u32 \<Rightarrow> u32 \<Rightarrow> u32" where
  "SHA2_CH x y z = (x AND y) XOR (NOT x AND z)"

definition SHA2_MAJ :: "u32 \<Rightarrow> u32 \<Rightarrow> u32 \<Rightarrow> u32" where
  "SHA2_MAJ x y z = (x AND y) XOR (x AND z) XOR (y AND z)"

definition SHA256_F1 :: "u32 \<Rightarrow> u32" where
  "SHA256_F1 x = SHA2_ROTR x 2 XOR SHA2_ROTR x 13 XOR SHA2_ROTR x 22"

definition SHA256_F2 :: "u32 \<Rightarrow> u32" where
  "SHA256_F2 x = SHA2_ROTR x 6 XOR SHA2_ROTR x 11 XOR SHA2_ROTR x 25"

definition SHA256_F3 :: "u32 \<Rightarrow> u32" where
  "SHA256_F3 x = SHA2_ROTR x 7 XOR SHA2_ROTR x 18 XOR SHA2_SHFR x 3"

definition SHA256_F4 :: "u32 \<Rightarrow> u32" where
  "SHA256_F4 x = SHA2_ROTR x 17 XOR SHA2_ROTR x 19 XOR SHA2_SHFR x 10"

definition SHA2_UNPACK32 :: "u32 \<Rightarrow> u8 list" where
  "SHA2_UNPACK32 x = [ucast (drop_bit 24 x), ucast (drop_bit 16 x), ucast (drop_bit 8 x), ucast x]"

definition SHA2_PACK32 :: "u8 list \<Rightarrow> nat \<Rightarrow> u32" where
  "SHA2_PACK32 p i = ucast (p ! (i + 3)) OR push_bit 8 (ucast (p ! (i + 2))) OR push_bit 16 (ucast (p ! (i + 1)))
     OR push_bit 24 (ucast (p ! i))"

text \<open>The body of the loop of \<open>transform\<close>: the words \<open>w\<close>, a round on \<open>wv\<close>, and the block.\<close>

definition sha_words :: "u8 list \<Rightarrow> u32 list" where
  "sha_words sub_block =
     foldl (\<lambda>w j. w @ [SHA256_F4 (w ! (j - 2)) + w ! (j - 7) + SHA256_F3 (w ! (j - 15)) + w ! (j - 16)])
       (map (\<lambda>j. SHA2_PACK32 sub_block (4 * j)) [0..<16]) [16..<64]"

definition sha_round :: "u32 list \<Rightarrow> u32 list \<Rightarrow> nat \<Rightarrow> u32 list" where
  "sha_round w wv j =
     (let t1 = wv ! 7 + SHA256_F2 (wv ! 4) + SHA2_CH (wv ! 4) (wv ! 5) (wv ! 6) + sha256_k ! j + w ! j;
          t2 = SHA256_F1 (wv ! 0) + SHA2_MAJ (wv ! 0) (wv ! 1) (wv ! 2);
          wv = wv[7 := wv ! 6]; wv = wv[6 := wv ! 5]; wv = wv[5 := wv ! 4]; wv = wv[4 := wv ! 3 + t1];
          wv = wv[3 := wv ! 2]; wv = wv[2 := wv ! 1]; wv = wv[1 := wv ! 0]
      in wv[0 := t1 + t2])"

definition sha_block :: "u32 list \<Rightarrow> u8 list \<Rightarrow> u32 list" where
  "sha_block h sub_block = (let w = sha_words sub_block; wv = foldl (sha_round w) h [0..<64] in map2 (+) h wv)"

definition transform :: "u8 list \<Rightarrow> nat \<Rightarrow> SHA256 \<Rightarrow> SHA256" where
  "transform message block_nb c =
     c\<lparr>m_h := foldl (\<lambda>h i. sha_block h (take 64 (drop (64 * i) message))) (m_h c) [0..<block_nb]\<rparr>"

definition sha_init :: "SHA256 \<Rightarrow> SHA256" where
  "sha_init c = c\<lparr>m_h := [0x6a09e667, 0xbb67ae85, 0x3c6ef372, 0xa54ff53a, 0x510e527f, 0x9b05688c, 0x1f83d9ab, 0x5be0cd19],
     m_len := 0, m_tot_len := 0\<rparr>"

text \<open>\<open>memcpy\<close> and \<open>memset\<close> into an array.\<close>

definition put_bytes :: "nat \<Rightarrow> 'a list \<Rightarrow> 'a list \<Rightarrow> 'a list" where
  "put_bytes i ys xs = take i xs @ ys @ drop (i + length ys) xs"

definition sha_update :: "SHA256 \<Rightarrow> u8 list \<Rightarrow> SHA256" where
  "sha_update c message =
     (let len = of_nat (length message); tmp_len = 64 - m_len c; rem_len = (if len < tmp_len then len else tmp_len);
          c = c\<lparr>m_block := put_bytes (unat (m_len c)) (take (unat rem_len) message) (m_block c)\<rparr>
      in if m_len c + len < 64 then c\<lparr>m_len := m_len c + len\<rparr>
         else
           let new_len = len - rem_len; block_nb = new_len div 64; shifted_message = drop (unat rem_len) message;
               c = transform (m_block c) 1 c; c = transform shifted_message (unat block_nb) c;
               rem_len = new_len mod 64;
               c = c\<lparr>m_block := put_bytes 0 (take (unat rem_len) (drop (unat (push_bit 6 block_nb)) shifted_message)) (m_block c)\<rparr>
           in c\<lparr>m_len := rem_len, m_tot_len := m_tot_len c + push_bit 6 (block_nb + 1)\<rparr>)"

definition sha_final :: "SHA256 \<Rightarrow> u8 list" where
  "sha_final c =
     (let block_nb = 1 + (if 64 - 9 < m_len c mod 64 then 1 else 0 :: u32); len_b = push_bit 3 (m_tot_len c + m_len c);
          pm_len = push_bit 6 block_nb;
          b = put_bytes (unat (m_len c)) (replicate (unat (pm_len - m_len c)) 0) (m_block c);
          b = b[unat (m_len c) := 0x80];
          b = put_bytes (unat (pm_len - 4)) (SHA2_UNPACK32 len_b) b;
          c = transform b (unat block_nb) (c\<lparr>m_block := b\<rparr>)
      in concat (map SHA2_UNPACK32 (m_h c)))"

text \<open>Each byte is printed by \<open>sprintf\<close> with \<open>%02x\<close>.  The object is made with all members zero.\<close>

definition sha_object :: SHA256 where
  "sha_object = \<lparr>m_tot_len = 0, m_len = 0, m_block = replicate 128 0, m_h = replicate 8 0\<rparr>"

definition print_byte :: "u8 \<Rightarrow> u8 list" where
  "print_byte b = fst (formatted (\<lambda>_. None) (map of_char ''%02x'') [ucast b])"

definition sha256 :: "u8 list \<Rightarrow> u8 list" where
  "sha256 input = concat (map print_byte (sha_final (sha_update (sha_init sha_object) input)))"

section \<open>The digest of FIPS 180-4\<close>

definition sha_padded :: "u8 list \<Rightarrow> u8 list" where
  "sha_padded m = m @ [0x80] @ replicate (gap (length m + 1)) 0 @ map (\<lambda>j. of_nat (8 * length m div 256 ^ (7 - j))) [0..<8]"

definition word_be :: "u8 list \<Rightarrow> u32" where
  "word_be bs = of_nat (foldl (\<lambda>n b. 256 * n + unat b) 0 bs)"

text \<open>The message schedule, by the recursion of the standard.\<close>

fun schedule_word :: "u32 list \<Rightarrow> nat \<Rightarrow> u32" where
  "schedule_word M t =
     (if t < 16 then M ! t
      else (let x = schedule_word M (t - 2) in word_rotr 17 x XOR word_rotr 19 x XOR drop_bit 10 x) + schedule_word M (t - 7)
        + (let x = schedule_word M (t - 15) in word_rotr 7 x XOR word_rotr 18 x XOR drop_bit 3 x) + schedule_word M (t - 16))"

declare schedule_word.simps [simp del]

type_synonym sha_state = "u32 \<times> u32 \<times> u32 \<times> u32 \<times> u32 \<times> u32 \<times> u32 \<times> u32"

definition fips_round :: "u32 list \<Rightarrow> sha_state \<Rightarrow> nat \<Rightarrow> sha_state" where
  "fips_round M = (\<lambda>(a, b, c, d, e, f, g, h) t.
     let T1 = h + (word_rotr 6 e XOR word_rotr 11 e XOR word_rotr 25 e) + ((e AND f) XOR (NOT e AND g)) + sha256_k ! t + schedule_word M t;
         T2 = (word_rotr 2 a XOR word_rotr 13 a XOR word_rotr 22 a) + ((a AND b) XOR (a AND c) XOR (b AND c))
     in (T1 + T2, a, b, c, d + T1, e, f, g))"

definition fips_block :: "sha_state \<Rightarrow> u8 list \<Rightarrow> sha_state" where
  "fips_block = (\<lambda>(a, b, c, d, e, f, g, h) bs.
     case foldl (fips_round (map word_be (blocks 4 bs))) (a, b, c, d, e, f, g, h) [0..<64] of
       (a', b', c', d', e', f', g', h') \<Rightarrow> (a + a', b + b', c + c', d + d', e + e', f + f', g + g', h + h'))"

definition fips_start :: sha_state where
  "fips_start = (0x6a09e667, 0xbb67ae85, 0x3c6ef372, 0xa54ff53a, 0x510e527f, 0x9b05688c, 0x1f83d9ab, 0x5be0cd19)"

definition sha_spec :: "u8 list \<Rightarrow> u8 list" where
  "sha_spec m =
     (case foldl fips_block fips_start (blocks 64 (sha_padded m)) of
        (a, b, c, d, e, f, g, h) \<Rightarrow>
          concat (map (\<lambda>v. map (\<lambda>j. of_nat (unat v div 256 ^ (3 - j))) [0..<4]) [a, b, c, d, e, f, g, h]))"

section \<open>A block\<close>

lemma rotr_ok: "0 < m \<Longrightarrow> m < 32 \<Longrightarrow> SHA2_ROTR x m = word_rotr m x"
proof -
  assume m: "0 < m" "m < 32"
  have "bit (SHA2_ROTR x m) n = bit (word_rotr m x) n" if "n < 32" for n
  proof (cases "n + m < 32")
    case True
    then have "\<not> 32 - m \<le> n" using m by simp
    then show ?thesis using True m that
      by (simp add: SHA2_ROTR_def bit_or_iff bit_push_bit_iff bit_drop_bit_eq bit_word_rotr_iff add.commute)
  next
    case False
    have "\<not> bit x (m + n)" using False bit_imp_le_length [of x "m + n"] by auto
    moreover have "32 - m \<le> n" using False by simp
    moreover have "(n + m) mod 32 = n - (32 - m)" using False m that by (simp add: mod_if)
    ultimately show ?thesis using m that False
      by (simp add: SHA2_ROTR_def bit_or_iff bit_push_bit_iff bit_drop_bit_eq bit_word_rotr_iff)
  qed
  then show ?thesis by (simp add: bit_eq_iff)
qed

lemma pack_ok: "i + 4 \<le> length bs \<Longrightarrow> SHA2_PACK32 bs i = word_be (take 4 (drop i bs))"
proof -
  assume "i + 4 \<le> length bs"
  then have "take 4 (drop i bs) = [bs ! i, bs ! (i + 1), bs ! (i + 2), bs ! (i + 3)]"
    by (intro nth_equalityI) (auto simp: less_Suc_eq numeral_eq_Suc)
  moreover have "SHA2_PACK32 bs i = word_be [bs ! i, bs ! (i + 1), bs ! (i + 2), bs ! (i + 3)]"
    unfolding SHA2_PACK32_def le4 word_be_def by (simp add: add.commute)
  ultimately show ?thesis by simp
qed

lemma words_ok:
  assumes "length b = 64" "16 \<le> n"
  defines "M \<equiv> map word_be (blocks 4 b)"
  shows "foldl (\<lambda>w j. w @ [SHA256_F4 (w ! (j - 2)) + w ! (j - 7) + SHA256_F3 (w ! (j - 15)) + w ! (j - 16)])
       (map (\<lambda>j. SHA2_PACK32 b (4 * j)) [0..<16]) [16..<n] = map (schedule_word M) [0..<n]"
  using assms(2)
proof (induction n rule: dec_induct)
  case base
  have "SHA2_PACK32 b (4 * j) = schedule_word M j" if "j < 16" for j
  proof -
    have "j < length (blocks 4 b)" using assms(1) that by (simp add: length_blocks)
    moreover have "blocks 4 b ! j = take 4 (drop (j * 4) b)" using assms(1) that by (intro nth_blocks) auto
    ultimately show ?thesis using assms(1) that by (simp add: pack_ok schedule_word.simps [of "map word_be (blocks 4 b)" j] M_def mult.commute)
  qed
  then show ?case by (simp del: upt_rec_numeral)
next
  case (step n)
  have "SHA256_F4 (schedule_word M (n - 2)) + schedule_word M (n - 7) + SHA256_F3 (schedule_word M (n - 15)) + schedule_word M (n - 16)
      = schedule_word M n"
    using step.hyps by (subst (5) schedule_word.simps) (simp add: SHA256_F3_def SHA256_F4_def SHA2_SHFR_def rotr_ok Let_def)
  then show ?case using step by (simp del: upt_rec_numeral)
qed

fun words8 :: "sha_state \<Rightarrow> u32 list" where
  "words8 (a, b, c, d, e, f, g, h) = [a, b, c, d, e, f, g, h]"

lemma round_ok: "w ! j = schedule_word M j \<Longrightarrow> sha_round w (words8 s) j = words8 (fips_round M s j)"
  by (cases s rule: words8.cases) (simp add: sha_round_def fips_round_def Let_def SHA256_F1_def SHA256_F2_def SHA2_CH_def SHA2_MAJ_def rotr_ok)

lemma rounds_ok: "(\<And>j. j \<in> set js \<Longrightarrow> w ! j = schedule_word M j)
    \<Longrightarrow> foldl (sha_round w) (words8 s) js = words8 (foldl (fips_round M) s js)"
  by (induction js arbitrary: s) (simp_all add: round_ok)

lemma sha_block_ok: "length b = 64 \<Longrightarrow> sha_block (words8 s) b = words8 (fips_block s b)"
proof -
  assume b: "length b = 64"
  let ?M = "map word_be (blocks 4 b)"
  have w: "sha_words b = map (schedule_word ?M) [0..<64]" unfolding sha_words_def by (rule words_ok [OF b]) simp
  have "foldl (sha_round (sha_words b)) (words8 s) [0..<64] = words8 (foldl (fips_round ?M) s [0..<64])"
    unfolding w by (rule rounds_ok) simp
  then have "sha_block (words8 s) b = map2 (+) (words8 s) (words8 (foldl (fips_round ?M) s [0..<64]))"
    by (simp add: sha_block_def Let_def del: upt_rec_numeral)
  then show ?thesis by (cases s rule: words8.cases; cases "foldl (fips_round ?M) s [0..<64]" rule: words8.cases) (simp add: fips_block_def del: upt_rec_numeral)
qed

lemma transform_ok:
  assumes "m_h c = words8 s" "64 * nb \<le> length msg"
  shows "transform msg nb c = c\<lparr>m_h := words8 (foldl fips_block s (blocks 64 (take (64 * nb) msg)))\<rparr>"
proof -
  have "foldl (\<lambda>h i. sha_block h (take 64 (drop (64 * i) msg))) (words8 s) [0..<n] = words8 (foldl fips_block s (blocks 64 (take (64 * n) msg)))"
    if "64 * n \<le> length msg" for n
    using that
  proof (induction n)
    case 0
    then show ?case by (simp add: blocks_short)
  next
    case (Suc n)
    have "take (64 * Suc n) msg = take (64 * n) msg @ take 64 (drop (64 * n) msg)" by (simp add: take_add [symmetric] add.commute)
    moreover have "blocks 64 (take 64 (drop (64 * n) msg)) = [take 64 (drop (64 * n) msg)]"
      using Suc.prems by (simp add: blocks.simps [of 64 "take 64 (drop (64 * n) msg)"] blocks_short)
    ultimately have "blocks 64 (take (64 * Suc n) msg) = blocks 64 (take (64 * n) msg) @ [take 64 (drop (64 * n) msg)]"
      using Suc.prems by (simp add: blocks_append)
    then show ?case using Suc by (simp add: sha_block_ok)
  qed
  then show ?thesis using assms by (simp add: transform_def)
qed

section \<open>The pieces of a message\<close>

text \<open>The object has taken in the bytes \<open>m\<close>.\<close>

definition taken :: "SHA256 \<Rightarrow> u8 list \<Rightarrow> bool" where
  "taken c m \<longleftrightarrow> length (m_block c) = 128 \<and> m_h c = words8 (foldl fips_block fips_start (blocks 64 m))
     \<and> unat (m_len c) = length m mod 64 \<and> unat (m_tot_len c) = 64 * (length m div 64)
     \<and> take (length m mod 64) (m_block c) = drop (64 * (length m div 64)) m"

lemma taken_init: "length (m_block c) = 128 \<Longrightarrow> taken (sha_init c) []"
  by (simp add: taken_def sha_init_def fips_start_def blocks_short)

lemma take_put: "i \<le> length xs \<Longrightarrow> take (i + length ys) (put_bytes i ys xs) = take i xs @ ys"
  by (simp add: put_bytes_def)

lemma length_put: "i + length ys \<le> length xs \<Longrightarrow> length (put_bytes i ys xs) = length xs"
  by (simp add: put_bytes_def)

lemma split_64: "k < 64 \<Longrightarrow> (64 * q + k) div 64 = q" "k < 64 \<Longrightarrow> (64 * q + k) mod 64 = k" for k q :: nat
  by simp_all

lemma update_small:
  assumes c: "taken c m" and s: "length m mod 64 + length msg < 64"
  shows "taken (sha_update c msg) (m @ msg)"
proof -
  let ?r = "length m mod 64" and ?q = "length m div 64"
  have r: "unat (m_len c) = ?r" "length (m_block c) = 128" "take ?r (m_block c) = drop (64 * ?q) m" using c by (simp_all add: taken_def)
  have len: "unat (of_nat (length msg) :: u32) = length msg" using s by (simp add: unat_of_nat)
  have "unat (64 - m_len c) = 64 - ?r" using r(1) by (simp add: unat_sub_if')
  then have "(of_nat (length msg) :: u32) < 64 - m_len c" using s len by (simp add: word_less_nat_alt)
  moreover have sum: "unat (m_len c + of_nat (length msg)) = ?r + length msg" using s len r(1) by (simp add: unat_plus_if')
  then have "m_len c + of_nat (length msg) < 64" using s by (simp add: word_less_nat_alt)
  ultimately have u: "sha_update c msg = c\<lparr>m_block := put_bytes ?r msg (m_block c), m_len := m_len c + of_nat (length msg)\<rparr>"
    using len r(1) by (simp add: sha_update_def Let_def)
  have "length (m @ msg) = 64 * ?q + (?r + length msg)" by simp
  then have dm: "length (m @ msg) div 64 = ?q" "length (m @ msg) mod 64 = ?r + length msg"
    using split_64 [OF s, of ?q] by metis+
  have "blocks 64 (m @ msg) = blocks 64 m"
    using blocks_take [of 64 "m @ msg"] blocks_take [of 64 m] unfolding dm by simp
  moreover have "take (?r + length msg) (put_bytes ?r msg (m_block c)) = drop (64 * ?q) (m @ msg)"
    using take_put [of ?r "m_block c" msg] r(2,3) by simp
  moreover have "length (put_bytes ?r msg (m_block c)) = 128" using r(2) s by (simp add: length_put)
  ultimately show ?thesis using c sum unfolding taken_def dm u by (simp del: length_append)
qed

lemma transform_frame [simp]:
  "m_block (transform x n c) = m_block c" "m_len (transform x n c) = m_len c" "m_tot_len (transform x n c) = m_tot_len c"
  by (simp_all add: transform_def)

lemma update_lengths:
  fixes L r :: nat and l ml :: u32
  assumes "unat l = L" "unat ml = r" "r < 64" "64 \<le> r + L" "r + L < 2 ^ 30"
  shows "\<not> l < 64 - ml" "\<not> ml + l < 64" "unat (64 - ml) = 64 - r" "unat (l - (64 - ml)) = L - (64 - r)"
    "unat ((l - (64 - ml)) div 64) = (L - (64 - r)) div 64" "unat ((l - (64 - ml)) mod 64) = (L - (64 - r)) mod 64"
    "unat (push_bit 6 ((l - (64 - ml)) div 64)) = 64 * ((L - (64 - r)) div 64)"
    "unat (push_bit 6 ((l - (64 - ml)) div 64 + 1)) = 64 * ((L - (64 - r)) div 64 + 1)"
proof -
  show t: "unat (64 - ml) = 64 - r" using assms by (simp add: unat_sub_if')
  show "\<not> l < 64 - ml" using assms t by (simp add: word_less_nat_alt)
  show "\<not> ml + l < 64" using assms by (simp add: word_less_nat_alt unat_plus_if')
  show n: "unat (l - (64 - ml)) = L - (64 - r)" using assms t by (simp add: unat_sub_if')
  show d: "unat ((l - (64 - ml)) div 64) = (L - (64 - r)) div 64" "unat ((l - (64 - ml)) mod 64) = (L - (64 - r)) mod 64"
    using n by (simp_all add: unat_div unat_mod)
  have b: "(L - (64 - r)) div 64 < 2 ^ 25" using assms(5) by (simp add: div_less_iff_less_mult)
  show "unat (push_bit 6 ((l - (64 - ml)) div 64)) = 64 * ((L - (64 - r)) div 64)"
    using d(1) b by (simp add: push_bit_eq_mult unat_word_ariths mult.commute)
  show "unat (push_bit 6 ((l - (64 - ml)) div 64 + 1)) = 64 * ((L - (64 - r)) div 64 + 1)"
    using d(1) b by (simp add: push_bit_eq_mult unat_word_ariths mult.commute)
qed

lemma update_large:
  assumes c: "taken c m" and s: "64 \<le> length m mod 64 + length msg" "length (m @ msg) < 2 ^ 29"
  shows "taken (sha_update c msg) (m @ msg)"
proof -
  define q r where "q = length m div 64" and "r = length m mod 64"
  define p rest where "p = take (64 - r) msg" and "rest = drop (64 - r) msg"
  define nb rr where "nb = length rest div 64" and "rr = length rest mod 64"
  have r: "r < 64" "64 \<le> r + length msg" "r + length msg < 2 ^ 30" using s by (simp_all add: r_def)
  have cm: "unat (m_len c) = r" "length (m_block c) = 128" "take r (m_block c) = drop (64 * q) m" "unat (m_tot_len c) = 64 * q"
    "m_h c = words8 (foldl fips_block fips_start (blocks 64 m))" using c by (simp_all add: taken_def q_def r_def)
  have len: "unat (of_nat (length msg) :: u32) = length msg" using s(2) by (simp add: unat_of_nat)
  note ul = update_lengths [OF len cm(1) r]
  have pl: "length p = 64 - r" "length rest = length msg - (64 - r)" "msg = p @ rest" using r by (simp_all add: p_def rest_def)
  have nbs: "nb = (length msg - (64 - r)) div 64" "rr = (length msg - (64 - r)) mod 64" by (simp_all add: nb_def rr_def pl(2))
  let ?B = "put_bytes r p (m_block c)" and ?l = "of_nat (length msg) :: u32"
  have u: "sha_update c msg = (transform rest nb (transform ?B 1 (c\<lparr>m_block := ?B\<rparr>)))
      \<lparr>m_block := put_bytes 0 (take rr (drop (64 * nb) rest)) ?B, m_len := (?l - (64 - m_len c)) mod 64,
       m_tot_len := m_tot_len c + push_bit 6 ((?l - (64 - m_len c)) div 64 + 1)\<rparr>"
    using ul(1,2) unfolding sha_update_def Let_def
    by (simp add: ul(3,5,6,7) cm(1) p_def [symmetric] rest_def [symmetric] nbs [symmetric])
  have B: "length ?B = 128" "take 64 ?B = drop (64 * q) m @ p"
    using take_put [of r "m_block c" p] cm(2,3) pl r(1) by (simp_all add: length_put)
  have b1: "length (take 64 ?B) = 64" using B(1) by simp
  have rest: "length rest = 64 * nb + rr" "rr < 64" by (simp_all add: nb_def rr_def)
  have mm: "m @ msg = take (64 * q) m @ take 64 ?B @ rest" using B(2) pl(3) by simp
  have "64 * q \<le> length m" by (simp add: q_def)
  then have "length (take (64 * q) m) mod 64 = 0" by simp
  then have "blocks 64 (m @ msg) = blocks 64 m @ blocks 64 (take 64 ?B) @ blocks 64 (take (64 * nb) rest)"
    unfolding mm using b1 blocks_take [of 64 m] blocks_take [of 64 rest] by (simp add: blocks_append q_def nb_def)
  moreover have "transform ?B 1 (c\<lparr>m_block := ?B\<rparr>)
      = c\<lparr>m_block := ?B, m_h := words8 (foldl fips_block fips_start (blocks 64 m @ blocks 64 (take 64 ?B)))\<rparr>"
    using cm(5) B(1) by (subst transform_ok) simp_all
  ultimately have h: "m_h (sha_update c msg) = words8 (foldl fips_block fips_start (blocks 64 (m @ msg)))"
    using rest(1) unfolding u by (simp add: transform_ok [of _ "foldl fips_block fips_start (blocks 64 m @ blocks 64 (take 64 ?B))"])
  have "length (m @ msg) = 64 * (q + 1 + nb) + rr"
    using mm b1 rest(1) \<open>64 * q \<le> length m\<close> by (metis (no_types, lifting) add.assoc add_mult_distrib2 length_append length_take min_absorb2 nat_mult_1_right)
  then have dm: "length (m @ msg) div 64 = q + 1 + nb" "length (m @ msg) mod 64 = rr"
    using split_64 [OF rest(2), of "q + 1 + nb"] by metis+
  have bl: "length (put_bytes 0 (take rr (drop (64 * nb) rest)) ?B) = 128" using B(1) rest by (simp add: length_put)
  have "drop (64 * (q + 1 + nb)) (m @ msg) = drop (64 * nb) rest"
    unfolding mm using b1 \<open>64 * q \<le> length m\<close> by (simp add: algebra_simps)
  then have tk: "take rr (put_bytes 0 (take rr (drop (64 * nb) rest)) ?B) = drop (64 * (q + 1 + nb)) (m @ msg)"
    using rest by (simp add: put_bytes_def)
  define X where "X = push_bit 6 ((?l - (64 - m_len c)) div 64 + 1)"
  have "unat X = 64 * (nb + 1)" using ul(8) by (simp add: X_def nbs)
  moreover have "64 * (q + 1 + nb) < 2 ^ 32" using s(2) unfolding \<open>length (m @ msg) = 64 * (q + 1 + nb) + rr\<close> by simp
  ultimately have "unat (m_tot_len c + X) = 64 * (q + 1 + nb)" using cm(4) by (simp add: unat_plus_if')
  then have "unat (m_tot_len (sha_update c msg)) = 64 * (q + 1 + nb)" by (simp add: u X_def)
  moreover have "unat (m_len (sha_update c msg)) = rr" using ul(6) by (simp add: u nbs)
  moreover have "m_block (sha_update c msg) = put_bytes 0 (take rr (drop (64 * nb) rest)) ?B" by (simp add: u)
  ultimately show ?thesis using h bl tk unfolding taken_def dm by simp
qed

lemma update_taken: "taken c m \<Longrightarrow> length (m @ msg) < 2 ^ 29 \<Longrightarrow> taken (sha_update c msg) (m @ msg)"
  using update_small [of c m msg] update_large [of c m msg] by (cases "length m mod 64 + length msg < 64") auto

lemma updates_taken: "taken c m \<Longrightarrow> length (m @ concat msgs) < 2 ^ 29 \<Longrightarrow> taken (foldl sha_update c msgs) (m @ concat msgs)"
proof (induction msgs arbitrary: c m)
  case (Cons msg msgs)
  then have "taken (sha_update c msg) (m @ msg)" by (intro update_taken) auto
  then show ?case using Cons.IH [of "sha_update c msg" "m @ msg"] Cons.prems(2) by simp
qed simp

section \<open>The end\<close>

definition be_bytes :: "u32 \<Rightarrow> u8 list" where
  "be_bytes v = map (\<lambda>j. of_nat (unat v div 256 ^ (3 - j))) [0..<4]"

lemma unpack_ok: "SHA2_UNPACK32 x = be_bytes x"
  using low_byte [of 0 x] by (simp add: SHA2_UNPACK32_def be_bytes_def low_byte upt_rec)

lemma length_bytes:
  assumes "unat v = 8 * n"
  shows "map (\<lambda>j. of_nat (8 * n div 256 ^ (7 - j))) [0..<8] = replicate 4 0 @ be_bytes v"
proof -
  have "8 * n < 2 ^ 32" using unsigned_less [of v, where ?'a = nat] assms by simp
  then have z: "8 * n div 256 ^ k = 0" if "4 \<le> k" for k
  proof -
    have "(256::nat) ^ 4 \<le> 256 ^ k" using that by (intro power_increasing) auto
    then show ?thesis using \<open>8 * n < 2 ^ 32\<close> by (intro div_less) simp
  qed
  have "map (\<lambda>j. of_nat (8 * n div 256 ^ (7 - j)) :: u8) [0..<8]
      = map (\<lambda>j. of_nat (8 * n div 256 ^ (7 - j))) [0..<4] @ map (\<lambda>j. of_nat (8 * n div 256 ^ (3 - j))) [0..<4]"
    by (rule nth_equalityI) (auto simp: nth_append less_diff_conv2 diff_diff_add simp del: upt_rec_numeral)
  also have "map (\<lambda>j. of_nat (8 * n div 256 ^ (7 - j)) :: u8) [0..<4] = replicate 4 0"
    using z by (intro nth_equalityI) (auto simp del: upt_rec_numeral)
  finally show ?thesis unfolding be_bytes_def assms .
qed

lemma take_left: "take (length xs) (xs @ ys) = xs"
  by simp

lemma pad_block:
  fixes b be :: "u8 list"
  assumes "r < 64" "length b = 128" "length be = 4"
  defines "k \<equiv> if 55 < r then 128 else 64 :: nat"
  shows "take k (put_bytes (k - 4) be ((put_bytes r (replicate (k - r) 0) b)[r := 0x80]))
    = take r b @ [0x80] @ replicate (k - r - 5) 0 @ be"
proof -
  have k: "r + 9 \<le> k" "k \<le> 128" using assms(1) by (auto simp: k_def)
  have r: "replicate (k - r) (0::u8) = 0 # replicate (k - r - 1) 0" using k by (cases "k - r") auto
  have "(put_bytes r (replicate (k - r) 0) b)[r := 0x80] = take r b @ 0x80 # replicate (k - r - 1) 0 @ drop k b"
    using k assms(2) by (simp add: put_bytes_def r list_update_append)
  moreover have "take (k - 4) (take r b @ 0x80 # replicate (k - r - 1) 0 @ drop k b) = take r b @ [0x80] @ replicate (k - r - 5) 0"
  proof -
    let ?H = "take r b @ 0x80 # replicate (k - r - 5) 0"
    have "replicate (k - r - 1) (0::u8) = replicate (k - r - 5) 0 @ replicate 4 0" using k by (simp flip: replicate_add)
    then have "take r b @ 0x80 # replicate (k - r - 1) 0 @ drop k b = ?H @ (replicate 4 0 @ drop k b)" by simp
    moreover have "take (length ?H) (?H @ (replicate 4 0 @ drop k b)) = ?H" by (rule take_left)
    moreover have "length ?H = k - 4" using k assms(2) by simp
    ultimately have "take (k - 4) (take r b @ 0x80 # replicate (k - r - 1) 0 @ drop k b) = ?H" by metis
    then show ?thesis by simp
  qed
  moreover have "take k (put_bytes (k - 4) be X) = take (k - 4) X @ be" if "length X = 128" for X
    using take_put [of "k - 4" X be] k assms(3) that by simp
  moreover have "length ((put_bytes r (replicate (k - r) 0) b)[r := 0x80]) = 128" using k assms(2) by (simp add: length_put)
  ultimately show ?thesis by simp
qed

lemma eight: "unat v < 2 ^ 29 \<Longrightarrow> unat (push_bit 3 v) = 8 * unat v" for v :: u32
  by (simp add: push_bit_eq_mult unat_word_ariths mult.commute)

lemma final_ok:
  assumes c: "taken c m" and l: "length m < 2 ^ 29"
  shows "sha_final c = sha_spec m"
proof -
  define r q k where "r = length m mod 64" and "q = length m div 64" and "k = (if 55 < r then 128 else 64 :: nat)"
  define nb :: u32 where "nb = 1 + (if 64 - 9 < m_len c mod 64 then 1 else 0)"
  define be where "be = be_bytes (push_bit 3 (m_tot_len c + m_len c))"
  have cm: "unat (m_len c) = r" "length (m_block c) = 128" "take r (m_block c) = drop (64 * q) m" "unat (m_tot_len c) = 64 * q"
    "m_h c = words8 (foldl fips_block fips_start (blocks 64 m))" and r: "r < 64" "length m = 64 * q + r"
    using c by (simp_all add: taken_def q_def r_def)
  have "unat (m_len c mod 64) = r" using cm(1) r(1) by (simp add: unat_mod)
  then have nb: "unat nb = (if 55 < r then 2 else 1)" by (simp add: nb_def word_less_nat_alt)
  then have pm: "unat (push_bit 6 nb) = k" by (auto simp: push_bit_eq_mult unat_word_ariths k_def split: if_splits)
  have k: "r + 9 \<le> k" using r(1) by (auto simp: k_def)
  then have pm4: "unat (push_bit 6 nb - m_len c) = k - r" "unat (push_bit 6 nb - 4) = k - 4"
    using pm cm(1) by (simp_all add: unat_sub_if')
  have "unat (m_tot_len c + m_len c) = length m" using cm(1,4) r l by (simp add: unat_plus_if')
  then have "unat (push_bit 3 (m_tot_len c + m_len c)) = 8 * length m" using l eight [of "m_tot_len c + m_len c"] by simp
  then have lb: "map (\<lambda>j. of_nat (8 * length m div 256 ^ (7 - j))) [0..<8] = replicate 4 0 @ be"
    unfolding be_def by (rule length_bytes)
  have be: "length be = 4" by (simp add: be_def be_bytes_def)
  define b where "b = put_bytes (k - 4) be ((put_bytes r (replicate (k - r) 0) (m_block c))[r := 0x80])"
  have tb: "take k b = drop (64 * q) m @ [0x80] @ replicate (k - r - 5) 0 @ be"
    using pad_block [OF r(1) cm(2) be] cm(3) unfolding b_def k_def by simp
  have "gap (length m + 1) + 4 = k - r - 5" unfolding gap_next r_def [symmetric] using r(1) by (auto simp: k_def)
  then have "replicate (gap (length m + 1)) 0 @ replicate 4 (0::u8) = replicate (k - r - 5) 0" by (simp flip: replicate_add)
  then have pad: "sha_padded m = take (64 * q) m @ take k b" unfolding sha_padded_def lb tb by simp
  have len: "length (take (64 * q) m) mod 64 = 0" "length b = 128" "64 * unat nb = k"
    using r cm(2) be k nb by (auto simp: b_def put_bytes_def k_def)
  have h: "m_h (transform b (unat nb) (c\<lparr>m_block := b\<rparr>)) = words8 (foldl fips_block fips_start (blocks 64 (sha_padded m)))"
  proof -
    have "blocks 64 (sha_padded m) = blocks 64 m @ blocks 64 (take k b)"
      unfolding pad using len(1) blocks_take [of 64 m] by (simp add: blocks_append q_def)
    moreover have "64 * unat nb \<le> length b" using len by (auto simp: k_def)
    ultimately show ?thesis
      using cm(5) by (subst transform_ok [of _ "foldl fips_block fips_start (blocks 64 m)"]) (simp_all add: len(3))
  qed
  have "sha_final c = concat (map SHA2_UNPACK32 (m_h (transform b (unat nb) (c\<lparr>m_block := b\<rparr>))))"
    unfolding sha_final_def Let_def nb_def [symmetric] by (simp add: pm pm4 cm(1) b_def be_def unpack_ok)
  then show ?thesis unfolding h sha_spec_def
    by (cases "foldl fips_block fips_start (blocks 64 (sha_padded m))" rule: words8.cases)
      (simp add: unpack_ok be_bytes_def del: upt_rec_numeral)
qed

text \<open>C12: The digest does not depend on how the message comes: hashing it in any pieces, one \<open>update\<close> after the
  other from the initial state, gives the digest of FIPS 180-4 of their concatenation.\<close>

theorem sha256_pieces:
  assumes "length (m_block c) = 128" "length (concat msgs) < 2 ^ 29"
  shows "sha_final (foldl sha_update (sha_init c) msgs) = sha_spec (concat msgs)"
  using updates_taken [OF taken_init [OF assms(1)], of msgs] assms(2) by (intro final_ok) simp_all

theorem sha256_pieces_witness:
  "sha_final (foldl sha_update (sha_init sha_object) [[97], [98, 99]]) = sha_spec [97, 98, 99]"
  using sha256_pieces [of sha_object "[[97], [98, 99]]"] by (simp add: sha_object_def)

end
