(* ===== verification/Chain.thy ===== *)
theory Chain imports Sha256 begin

text \<open>
  \<open>am-kernels/kernels/blockchain\<close> (\<open>Block.cpp\<close>, \<open>Blockchain.cpp\<close>, \<open>main.cpp\<close>): blocks that are mined until the hash
  starts with enough zeros, each with the hash of the one before.  Strings are lists of bytes without the final
  NUL; the clock is an argument.
\<close>

section \<open>The classes\<close>

record Block =
  nIndex :: u32
  nNonce :: u32
  sData :: "u8 list"
  sHash :: "u8 list"
  sPrevHash :: "u8 list"
  tTime :: u32

definition block_init :: "u32 \<Rightarrow> u8 list \<Rightarrow> u8 list \<Rightarrow> u64 \<Rightarrow> Block \<Rightarrow> Block" where
  "block_init nIndexIn sDataIn sPrevHashIn us b =
     b\<lparr>nIndex := nIndexIn, sData := sDataIn, sPrevHash := sPrevHashIn, nNonce := - 1, tTime := ucast (us div 1000000)\<rparr>"

definition GetHash :: "Block \<Rightarrow> u8 list" where
  "GetHash b = sHash b"

text \<open>The text that is hashed, as \<open>sprintf\<close> forms it, in an array of 1024 bytes.\<close>

definition block_text :: "Block \<Rightarrow> u8 list" where
  "block_text b =
     fst (formatted (\<lambda>a. if a = 1 then Some (sData b) else if a = 2 then Some (sPrevHash b) else None) (map of_char ''%d%d%s%d%s'')
       [nIndex b, tTime b, 1, nNonce b, 2])"

definition CalculateHash :: "Block \<Rightarrow> abort + u8 list" where
  "CalculateHash b =
     (if 1024 \<le> length (block_text b) then Inl OutOfBounds else Inr (let buf = sha256 (block_text b) in sha256 buf))"

partial_function (option) MineBlock :: "u8 list \<Rightarrow> Block \<Rightarrow> (abort + Block) option" where
  "MineBlock diffStr b =
     (let b = b\<lparr>nNonce := nNonce b + 1\<rparr>
      in case CalculateHash b of Inl e \<Rightarrow> Some (Inl e)
         | Inr h \<Rightarrow>
             let b = b\<lparr>sHash := h\<rparr>
             in if take (length diffStr) (sHash b) \<noteq> diffStr then MineBlock diffStr b else Some (Inr b))"

record Blockchain =
  diffStr :: "u8 list"
  vChain :: "Block list"
  nrBlock :: nat

text \<open>The constructor; \<open>v\<close> is what the ten blocks were before.\<close>

definition new_Blockchain :: "nat \<Rightarrow> u64 \<Rightarrow> Block list \<Rightarrow> abort + Blockchain" where
  "new_Blockchain difficulty us v =
     (let v = v[0 := block_init 0 (map of_char ''Genesis Block'') [] us (v ! 0)]
      in if \<not> difficulty \<le> 9 then Inl AssertFail
         else Inr \<lparr>diffStr = replicate difficulty (of_char CHR ''0''), vChain = v, nrBlock = 1\<rparr>)"

definition AddBlock :: "u32 \<Rightarrow> u8 list \<Rightarrow> u64 \<Rightarrow> Blockchain \<Rightarrow> (abort + Blockchain) option" where
  "AddBlock nIndexIn sDataIn us c =
     (if \<not> nrBlock c < 10 then Some (Inl AssertFail)
      else let b = block_init nIndexIn sDataIn (GetHash (vChain c ! (nrBlock c - 1))) us (vChain c ! nrBlock c)
           in case MineBlock (diffStr c) b of None \<Rightarrow> None
              | Some (Inl e) \<Rightarrow> Some (Inl e)
              | Some (Inr b) \<Rightarrow> Some (Inr (c\<lparr>vChain := (vChain c)[nrBlock c := b], nrBlock := nrBlock c + 1\<rparr>)))"

fun AddBlocks :: "(u32 \<times> u8 list \<times> u64) list \<Rightarrow> Blockchain \<Rightarrow> (abort + Blockchain) option" where
  "AddBlocks [] c = Some (Inr c)"
| "AddBlocks ((i, d, us) # bs) c =
     (case AddBlock i d us c of None \<Rightarrow> None | Some (Inl e) \<Rightarrow> Some (Inl e) | Some (Inr c) \<Rightarrow> AddBlocks bs c)"

definition chain_difficulty :: "string \<Rightarrow> nat" where
  "chain_difficulty args = (if args \<noteq> [] \<and> is_digit (hd args) then digit_val (hd args) else 3)"

text \<open>\<open>main\<close>, with the time at the start of each block.\<close>

definition chain_main :: "string \<Rightarrow> u64 \<Rightarrow> u64 \<Rightarrow> u64 \<Rightarrow> u64 \<Rightarrow> Block list \<Rightarrow> (abort + Blockchain) option" where
  "chain_main args t0 t1 t2 t3 v =
     (case new_Blockchain (chain_difficulty args) t0 v of Inl e \<Rightarrow> Some (Inl e)
      | Inr c \<Rightarrow> AddBlocks [(1, map of_char ''Block 1 Data'', t1), (2, map of_char ''Block 2 Data'', t2),
          (3, map of_char ''Block 3 Data'', t3)] c)"

section \<open>Mining\<close>

definition dec_text :: "u32 \<Rightarrow> u8 list" where
  "dec_text x = (if sint x < 0 then [45] else []) @ decimal x"

lemma block_text_eq: "block_text b = dec_text (nIndex b) @ dec_text (tTime b) @ sData b @ dec_text (nNonce b) @ sPrevHash b"
  by (simp add: block_text_def formatted_Cons formatted_Nil directive_def peek_def converted_def padded_def dec_text_def)

lemma length_dec_text: "length (dec_text x) \<le> 11"
proof -
  have "nat \<bar>sint x\<bar> < 10 ^ 10" using sint_greater_eq [of x] sint_less [of x] by auto
  then have "length (show_nat (nat \<bar>sint x\<bar>)) \<le> 10" by (intro length_show_nat) auto
  then show ?thesis by (auto simp: dec_text_def decimal_def)
qed

text \<open>The texts of a block fit their array, whatever the nonce.\<close>

definition fits :: "Block \<Rightarrow> bool" where
  "fits b \<longleftrightarrow> length (sData b) + length (sPrevHash b) < 990"

text \<open>The hash that the nonce \<open>n\<close> gives, and that it starts as the chain asks.\<close>

definition nonce_hash :: "Block \<Rightarrow> u32 \<Rightarrow> u8 list" where
  "nonce_hash b n = sha256 (sha256 (block_text (b\<lparr>nNonce := n\<rparr>)))"

definition solves :: "u8 list \<Rightarrow> Block \<Rightarrow> u32 \<Rightarrow> bool" where
  "solves d b n \<longleftrightarrow> take (length d) (nonce_hash b n) = d"

lemma CalculateHash_fits: "fits b \<Longrightarrow> CalculateHash (b\<lparr>nNonce := n\<rparr>) = Inr (nonce_hash b n)"
  using length_dec_text [of "nIndex b"] length_dec_text [of "tTime b"] length_dec_text [of n]
  by (simp add: CalculateHash_def nonce_hash_def fits_def block_text_eq)

lemma hash_ignored [simp]:
  "block_text (b\<lparr>sHash := h\<rparr>) = block_text b" "nonce_hash (b\<lparr>sHash := h\<rparr>) n = nonce_hash b n"
  "nonce_hash (b\<lparr>nNonce := m\<rparr>) n = nonce_hash b n"
  "CalculateHash (b\<lparr>sHash := h\<rparr>) = CalculateHash b" "fits (b\<lparr>sHash := h\<rparr>) = fits b" "fits (b\<lparr>nNonce := m\<rparr>) = fits b"
  by (simp_all add: block_text_eq nonce_hash_def CalculateHash_def fits_def)

lemma MineBlock_step:
  "fits b \<Longrightarrow> MineBlock d b =
     (let n = nNonce b + 1; b' = b\<lparr>nNonce := n, sHash := nonce_hash b n\<rparr> in if solves d b n then Some (Inr b') else MineBlock d b')"
  by (subst MineBlock.simps) (simp add: Let_def CalculateHash_fits solves_def)

text \<open>What a block is when mining returns: some nonce that solves it, with its hash.\<close>

lemma mined:
  assumes "MineBlock d b = Some (Inr b')"
  shows "\<exists>n h. b' = b\<lparr>nNonce := n, sHash := h\<rparr> \<and> CalculateHash b' = Inr h \<and> take (length d) h = d"
proof -
  have "\<forall>b'. r = Inr b' \<longrightarrow> (\<exists>n h. b' = b\<lparr>nNonce := n, sHash := h\<rparr> \<and> CalculateHash b' = Inr h \<and> take (length d) h = d)"
    if "MineBlock d b = Some r" for r
  proof (rule MineBlock.raw_induct [OF _ that], goal_cases)
    case (1 MB d b r)
    show ?case
    proof (cases "CalculateHash (b\<lparr>nNonce := nNonce b + 1\<rparr>)")
      case (Inl e)
      then show ?thesis using 1(2) by (auto simp: Let_def)
    next
      case (Inr h)
      let ?b = "b\<lparr>nNonce := nNonce b + 1, sHash := h\<rparr>"
      show ?thesis
      proof (cases "take (length d) h = d")
        case True
        then show ?thesis using 1(2) Inr by (auto simp: Let_def)
      next
        case False
        then have "MB d ?b = Some r" using 1(2) Inr by (simp add: Let_def)
        from 1(1) [OF this] show ?thesis by auto
      qed
    qed
  qed
  then show ?thesis using assms by blast
qed

lemma mine_found: "fits b \<Longrightarrow> solves d b (nNonce b + of_nat (Suc k)) \<Longrightarrow> MineBlock d b \<noteq> None"
proof (induction k arbitrary: b)
  case 0
  then show ?case by (simp add: MineBlock_step Let_def)
next
  case (Suc k)
  let ?n = "nNonce b + 1"
  have "MineBlock d (b\<lparr>nNonce := ?n, sHash := nonce_hash b ?n\<rparr>) \<noteq> None"
    using Suc.prems by (intro Suc.IH) (simp_all add: solves_def algebra_simps)
  then show ?case using Suc.prems(1) by (simp add: MineBlock_step Let_def)
qed

lemma mine_solved:
  assumes "MineBlock d b = Some r"
  shows "fits b \<longrightarrow> (\<exists>n. solves d b n)"
proof (rule MineBlock.raw_induct [OF _ assms], goal_cases)
  case (1 MB d b r)
  let ?n = "nNonce b + 1"
  show ?case
  proof
    assume f: "fits b"
    show "\<exists>n. solves d b n"
    proof (cases "solves d b ?n")
      case False
      then have "MB d (b\<lparr>nNonce := ?n, sHash := nonce_hash b ?n\<rparr>) = Some r"
        using 1(2) f by (simp add: Let_def CalculateHash_fits solves_def)
      from 1(1) [OF this] show ?thesis using f by (auto simp: solves_def)
    qed blast
  qed
qed

definition blank_block :: Block where
  "blank_block = \<lparr>nIndex = 0, nNonce = 0, sData = [], sHash = [], sPrevHash = [], tTime = 0\<rparr>"

text \<open>C16: Mining a block whose texts fit their array returns exactly if some nonce of 32 bits gives a hash that starts
  as the chain asks.\<close>

theorem mine_returns: "fits b \<Longrightarrow> (\<exists>b'. MineBlock d b = Some b') \<longleftrightarrow> (\<exists>n. solves d b n)"
proof
  assume "fits b" "\<exists>n. solves d b n"
  then obtain n where n: "solves d b n" by blast
  have "n = nNonce b + of_nat (Suc (unat (n - nNonce b - 1)))" by simp
  with n have "MineBlock d b \<noteq> None" using mine_found [OF \<open>fits b\<close>] by metis
  then show "\<exists>b'. MineBlock d b = Some b'" by blast
qed (use mine_solved in blast)

theorem mine_returns_witness:
  "(\<exists>b'. MineBlock [] (block_init 1 [66] [] 0 blank_block) = Some b')
    \<and> (\<exists>n. solves [] (block_init 1 [66] [] 0 blank_block) n)"
  using mine_returns [of "block_init 1 [66] [] 0 blank_block" "[]"]
  by (simp add: fits_def block_init_def solves_def)

section \<open>The chain\<close>

text \<open>Block \<open>i\<close> of a chain is sealed: it has the hash of its text, which starts as the chain asks, and the hash of the
  block before.\<close>

definition sealed :: "Blockchain \<Rightarrow> nat \<Rightarrow> bool" where
  "sealed c i \<longleftrightarrow> (let b = vChain c ! i in CalculateHash b = Inr (sHash b) \<and> take (length (diffStr c)) (sHash b) = diffStr c
     \<and> sPrevHash b = sHash (vChain c ! (i - 1)))"

definition valid_chain :: "Blockchain \<Rightarrow> bool" where
  "valid_chain c \<longleftrightarrow> length (vChain c) = 10 \<and> 0 < nrBlock c \<and> nrBlock c \<le> 10 \<and> list_all (sealed c) [1..<nrBlock c]"

lemma new_chain: "new_Blockchain k us v = Inr c \<Longrightarrow> length v = 10 \<Longrightarrow> valid_chain c \<and> nrBlock c = 1 \<and> diffStr c = replicate k 48"
  by (auto simp: new_Blockchain_def valid_chain_def Let_def split: if_splits)

lemma add_chain:
  assumes "valid_chain c" "AddBlock i d us c = Some (Inr c')"
  shows "valid_chain c' \<and> nrBlock c' = nrBlock c + 1 \<and> diffStr c' = diffStr c"
proof -
  let ?k = "nrBlock c" and ?v = "vChain c"
  let ?b = "block_init i d (GetHash (?v ! (?k - 1))) us (?v ! ?k)"
  obtain b where b: "MineBlock (diffStr c) ?b = Some (Inr b)" "c' = c\<lparr>vChain := ?v[?k := b], nrBlock := ?k + 1\<rparr>" "?k < 10"
    using assms(2) by (auto simp: AddBlock_def Let_def split: if_splits option.splits sum.splits)
  have c: "length ?v = 10" "0 < ?k" "list_all (sealed c) [1..<?k]" using assms(1) by (simp_all add: valid_chain_def)
  obtain n h where "b = ?b\<lparr>nNonce := n, sHash := h\<rparr>" "CalculateHash b = Inr h" "take (length (diffStr c)) h = diffStr c"
    using mined [OF b(1)] by blast
  then have "sealed c' ?k" using c b(2,3) by (simp add: sealed_def GetHash_def block_init_def)
  moreover have "sealed c' j = sealed c j" if "j < ?k" for j using that b(2) by (simp add: sealed_def)
  ultimately have "list_all (sealed c') [1..<?k + 1]" using c(2,3) by (auto simp: list_all_iff less_Suc_eq)
  then show ?thesis using b c by (simp add: valid_chain_def)
qed

lemma add_chains:
  "AddBlocks bs c = Some (Inr c') \<Longrightarrow> valid_chain c \<Longrightarrow> valid_chain c' \<and> nrBlock c' = nrBlock c + length bs \<and> diffStr c' = diffStr c"
proof (induction bs c rule: AddBlocks.induct)
  case (2 i d us bs c)
  then obtain c1 where "AddBlock i d us c = Some (Inr c1)" "AddBlocks bs c1 = Some (Inr c')"
    by (auto split: option.splits sum.splits)
  then show ?case using 2 add_chain by fastforce
qed simp

text \<open>A digest in hexadecimal has 64 digits.\<close>

lemma length_print_byte: "length (print_byte b) = 2"
proof -
  have "length (hexadecimal 97 n) = (if n < 16 then 1 else 2)" if "n < 256" for n
  proof -
    have "n div 16 < 16" using that by simp
    then have "length (hexadecimal 97 (n div 16)) = 1" by (subst hexadecimal.simps) simp
    then show ?thesis by (subst hexadecimal.simps) simp
  qed
  moreover have "unat (ucast b :: u32) = unat b"
    using unsigned_less [of b, where ?'a = nat] by (simp add: unsigned_ucast_eq take_bit_nat_eq_self)
  ultimately show ?thesis using unsigned_less [of b, where ?'a = nat]
    by (simp add: print_byte_def formatted_Cons formatted_Nil directive_def peek_def converted_def padded_def)
qed

lemma length_sha256: "length m < 2 ^ 29 \<Longrightarrow> length (sha256 m) = 64"
proof -
  assume m: "length m < 2 ^ 29"
  have "taken (sha_update (sha_init sha_object) m) m"
    using update_taken [OF taken_init, of sha_object m] m by (simp add: sha_object_def)
  then have "sha256 m = concat (map print_byte (sha_spec m))" using final_ok m by (simp add: sha256_def)
  moreover have "length (sha_spec m) = 32"
    by (cases "foldl fips_block fips_start (blocks 64 (sha_padded m))" rule: words8.cases) (simp add: sha_spec_def)
  ultimately show ?thesis by (simp add: length_concat o_def length_print_byte sum_list_triv)
qed

lemma length_mined:
  assumes "MineBlock d b = Some (Inr b')"
  shows "length (sHash b') = 64"
proof -
  obtain h where h: "CalculateHash b' = Inr h" "sHash b' = h" using mined [OF assms] by auto
  then have "length (sha256 (block_text b')) = 64" by (intro length_sha256) (simp add: CalculateHash_def split: if_splits)
  then have "length (sha256 (sha256 (block_text b'))) = 64" by (intro length_sha256) simp
  then show ?thesis using h by (auto simp: CalculateHash_def split: if_splits)
qed

lemma easy_block:
  assumes "diffStr c = []" "length (vChain c) = 10" "nrBlock c < 10" "length d < 900" "length (sHash (vChain c ! (nrBlock c - 1))) \<le> 64"
  shows "\<exists>c'. AddBlock i d us c = Some (Inr c') \<and> diffStr c' = [] \<and> length (vChain c') = 10 \<and> nrBlock c' = nrBlock c + 1
    \<and> length (sHash (vChain c' ! nrBlock c)) \<le> 64"
proof -
  let ?b = "block_init i d (GetHash (vChain c ! (nrBlock c - 1))) us (vChain c ! nrBlock c)"
  have "fits ?b" using assms by (simp add: fits_def block_init_def GetHash_def)
  then obtain b where b: "MineBlock [] ?b = Some (Inr b)" by (simp add: MineBlock_step solves_def Let_def)
  then show ?thesis using assms length_mined [OF b] by (simp add: AddBlock_def Let_def)
qed

lemma easy_main: "\<exists>c. chain_main ''0'' 0 0 0 0 (replicate 10 blank_block) = Some (Inr c)"
proof -
  define c where "c = \<lparr>diffStr = [], vChain = (replicate 10 blank_block)[0 := block_init 0 (map of_char ''Genesis Block'') [] 0 blank_block], nrBlock = 1\<rparr>"
  have c: "diffStr c = []" "length (vChain c) = 10" "nrBlock c = 1" "length (sHash (vChain c ! 0)) \<le> 64"
    by (simp_all add: c_def block_init_def blank_block_def)
  have n: "new_Blockchain (chain_difficulty ''0'') 0 (replicate 10 blank_block) = Inr c"
    by (simp add: new_Blockchain_def chain_difficulty_def c_def is_digit_def digit_val_def)
  obtain c1 where c1: "AddBlock 1 (map of_char ''Block 1 Data'') 0 c = Some (Inr c1)" "diffStr c1 = []" "length (vChain c1) = 10"
    "nrBlock c1 = 2" "length (sHash (vChain c1 ! 1)) \<le> 64"
    using easy_block [of c "map of_char ''Block 1 Data''" 1 0] c by auto
  obtain c2 where c2: "AddBlock 2 (map of_char ''Block 2 Data'') 0 c1 = Some (Inr c2)" "diffStr c2 = []" "length (vChain c2) = 10"
    "nrBlock c2 = 3" "length (sHash (vChain c2 ! 2)) \<le> 64"
    using easy_block [of c1 "map of_char ''Block 2 Data''" 2 0] c1 by auto
  obtain c3 where "AddBlock 3 (map of_char ''Block 3 Data'') 0 c2 = Some (Inr c3)"
    using easy_block [of c2 "map of_char ''Block 3 Data''" 3 0] c2 by auto
  then show ?thesis using n c1(1) c2(1) by (simp add: chain_main_def)
qed

text \<open>C15: When the program returns, it has made a chain of four blocks in which each of the last three has the hash of its
  own text and of the block before, and its hash starts with as many zeros as the argument asks, three
  without one.\<close>

theorem main_chain:
  assumes "chain_main args t0 t1 t2 t3 v = Some (Inr c)" "length v = 10"
  shows "valid_chain c \<and> nrBlock c = 4 \<and> diffStr c = replicate (chain_difficulty args) 48"
proof -
  obtain c0 where "new_Blockchain (chain_difficulty args) t0 v = Inr c0"
    "AddBlocks [(1, map of_char ''Block 1 Data'', t1), (2, map of_char ''Block 2 Data'', t2), (3, map of_char ''Block 3 Data'', t3)] c0 = Some (Inr c)"
    using assms(1) by (auto simp: chain_main_def split: sum.splits)
  then show ?thesis using new_chain [OF _ assms(2)] add_chains by fastforce
qed

theorem main_chain_witness:
  "\<exists>c. chain_main ''0'' 0 0 0 0 (replicate 10 blank_block) = Some (Inr c) \<and> valid_chain c \<and> nrBlock c = 4
    \<and> diffStr c = replicate (chain_difficulty ''0'') 48"
proof -
  obtain c where "chain_main ''0'' 0 0 0 0 (replicate 10 blank_block) = Some (Inr c)" using easy_main by blast
  then show ?thesis using main_chain [of "''0''" 0 0 0 0 "replicate 10 blank_block" c] by simp
qed

end
